(* ===== verification/Prelude.thy ===== *)
theory Prelude
  imports Main "HOL-Library.Word" "HOL-Library.Multiset"
begin

text \<open>
  Shared vocabulary of the nanorun development: the machine integers of the Rust sources, panics
  as values, Rust's \<open>Result\<close>, checked arithmetic, the standard-library functions the sources call
  (\<open>ilog2\<close>, \<open>div_ceil\<close>, \<open>try_from\<close>), and the generic list, word and arithmetic lemmas the component
  theories build on.
\<close>

unbundle bit_operations_syntax

section \<open>Types\<close>

type_synonym u8 = "8 word"
type_synonym u16 = "16 word"
type_synonym u32 = "32 word"
type_synonym u64 = "64 word"

text \<open>
  A panic unwinds the thread. It is the left summand of an \<open>outcome\<close>, so that a definition that can
  panic says so in its type and a theorem that it does not is a theorem about \<open>Inr\<close>.
\<close>

datatype panic =
    ArithmeticOverflow
  | IndexOutOfBounds
  | UnreachableCode string
  | ExpectFailed string
  | AssertFailed string

type_synonym 'a outcome = "panic + 'a"

datatype ('a, 'e) result = Ok 'a | Err 'e

datatype 'a poll = Pending | Ready 'a

datatype io_error = OsError int | OtherError string

text \<open>The decimal digits that \<open>format!\<close> prints for an unsigned integer.\<close>

fun decimal :: "nat \<Rightarrow> string" where
  "decimal n = (if n < 10 then [char_of (48 + n)] else decimal (n div 10) @ [char_of (48 + n mod 10)])"

declare decimal.simps [simp del]

definition obind :: "'a outcome \<Rightarrow> ('a \<Rightarrow> 'b outcome) \<Rightarrow> 'b outcome" where
  "obind m f = (case m of Inl p \<Rightarrow> Inl p | Inr x \<Rightarrow> f x)"

section \<open>Lemma collections\<close>

text \<open>
  \<open>outcome_simps\<close> computes with panics and results, \<open>checked_simps\<close> turns a checked operation into
  its value once its bound is known.
\<close>

named_theorems outcome_simps \<open>computation rules for outcomes\<close>
named_theorems checked_simps \<open>checked machine arithmetic inside its range\<close>

lemma obind_Inr [simp, outcome_simps]: "obind (Inr x) f = f x"
  by (simp add: obind_def)

lemma obind_Inl [simp, outcome_simps]: "obind (Inl p) f = Inl p"
  by (simp add: obind_def)

lemma obind_eq_Inr [outcome_simps]: "obind m f = Inr y \<longleftrightarrow> (\<exists>x. m = Inr x \<and> f x = Inr y)"
  by (cases m) simp_all

lemma obind_cong [fundef_cong]:
  "m = m' \<Longrightarrow> (\<And>x. m' = Inr x \<Longrightarrow> f x = g x) \<Longrightarrow> obind m f = obind m' g"
  by (cases m') simp_all

section \<open>Checked arithmetic\<close>

text \<open>
  \<open>a + b\<close> and \<open>a - b\<close> on \<open>u64\<close> panic on overflow in a build with overflow checks and wrap in one
  without. The checked operations are the former; wherever they are shown to return \<open>Inr\<close>, both
  builds compute the same value, since the value under \<open>Inr\<close> is the word operation itself.
\<close>

definition u64_add :: "u64 \<Rightarrow> u64 \<Rightarrow> u64 outcome" where
  "u64_add a b = (if unat a + unat b < 2 ^ 64 then Inr (a + b) else Inl ArithmeticOverflow)"

definition u64_sub :: "u64 \<Rightarrow> u64 \<Rightarrow> u64 outcome" where
  "u64_sub a b = (if b \<le> a then Inr (a - b) else Inl ArithmeticOverflow)"

definition usize_sub :: "nat \<Rightarrow> nat \<Rightarrow> nat outcome" where
  "usize_sub a b = (if b \<le> a then Inr (a - b) else Inl ArithmeticOverflow)"

lemma u64_add_Inr [checked_simps]: "unat a + unat b < 2 ^ 64 \<Longrightarrow> u64_add a b = Inr (a + b)"
  by (simp add: u64_add_def)

lemma u64_sub_Inr [checked_simps]: "b \<le> a \<Longrightarrow> u64_sub a b = Inr (a - b)"
  by (simp add: u64_sub_def)

lemma usize_sub_Inr [checked_simps]: "b \<le> a \<Longrightarrow> usize_sub a b = Inr (a - b)"
  by (simp add: usize_sub_def)

section \<open>Standard-library arithmetic\<close>

text \<open>\<open>u64::ilog2\<close> on a positive argument: the index of the highest set bit.\<close>

fun ilog2 :: "nat \<Rightarrow> nat" where
  "ilog2 n = (if n < 2 then 0 else Suc (ilog2 (n div 2)))"

declare ilog2.simps [simp del]

lemma ilog2_bounds: "0 < n \<Longrightarrow> 2 ^ ilog2 n \<le> n \<and> n < 2 ^ Suc (ilog2 n)"
proof (induction n rule: ilog2.induct)
  case (1 n)
  show ?case
  proof (cases "n < 2")
    case True
    with 1 show ?thesis by (simp add: ilog2.simps [of n])
  next
    case False
    with 1 have "2 ^ ilog2 (n div 2) \<le> n div 2" "n div 2 < 2 ^ Suc (ilog2 (n div 2))"
      by simp_all
    moreover from False have "ilog2 n = Suc (ilog2 (n div 2))"
      by (simp add: ilog2.simps [of n])
    ultimately show ?thesis by auto
  qed
qed

definition div_ceil :: "nat \<Rightarrow> nat \<Rightarrow> nat" where
  "div_ceil a b = (if a mod b = 0 then a div b else a div b + 1)"

lemma div_ceil_le_iff:
  assumes b: "0 < b"
  shows "div_ceil a b \<le> q \<longleftrightarrow> a \<le> q * b"
proof (cases "a mod b = 0")
  case True
  then have "a = (a div b) * b" by auto
  then show ?thesis using True b by (metis div_ceil_def mult_le_cancel2)
next
  case False
  have "Suc (a div b) \<le> q \<longleftrightarrow> a < q * b"
    using b by (simp add: Suc_le_eq div_less_iff_less_mult)
  also have "\<dots> \<longleftrightarrow> a \<le> q * b"
    using False by (metis le_neq_implies_less less_imp_le mod_mult_self2_is_0)
  finally show ?thesis using False by (simp add: div_ceil_def)
qed

text \<open>\<open>u64::try_from(n).unwrap_or(u64::MAX)\<close> on a \<open>u128\<close>.\<close>

definition u64_saturate :: "nat \<Rightarrow> u64" where
  "u64_saturate n = (if n < 2 ^ 64 then of_nat n else - 1)"

lemma unat_u64_saturate: "unat (u64_saturate n) = min n (2 ^ 64 - 1)"
  by (simp add: u64_saturate_def unat_of_nat take_bit_nat_eq_self_iff unsigned_minus_1_eq_mask
      mask_eq_exp_minus_1)

section \<open>Words\<close>

lemma unat_slot_index: "unat (drop_bit n x AND 63) = (unat (x :: u64) div 2 ^ n) mod 64"
proof -
  have "drop_bit n x AND 63 = take_bit 6 (drop_bit n x)"
    by (simp add: take_bit_eq_mask mask_eq_exp_minus_1)
  moreover have "unat (take_bit 6 (drop_bit n x)) = take_bit 6 (drop_bit n (unat x))"
    by (simp only: unsigned_take_bit_eq unat_drop_bit_eq)
  ultimately show ?thesis
    by (simp add: take_bit_eq_mod drop_bit_eq_div)
qed

lemma unat_u64_less: "unat (x :: u64) < 2 ^ 64"
proof -
  have "unat x < 2 ^ LENGTH(64)" by (rule unsigned_less)
  then show ?thesis by simp
qed

lemma bit_set_bit_word: "i < 64 \<Longrightarrow> j < 64 \<Longrightarrow>
    bit ((x :: u64) OR 2 ^ i) j \<longleftrightarrow> bit x j \<or> i = j"
  by (auto simp: bit_simps)

lemma bit_clear_bit_word: "i < 64 \<Longrightarrow> j < 64 \<Longrightarrow>
    bit ((x :: u64) AND NOT (2 ^ i)) j \<longleftrightarrow> bit x j \<and> i \<noteq> j"
  by (auto simp: bit_simps)

lemma unat_minus_word: "(b :: u64) \<le> a \<Longrightarrow> unat (a - b) = unat a - unat b"
  by (rule unat_sub)

lemma unat_plus_word: "unat (a :: u64) + unat b < 2 ^ 64 \<Longrightarrow> unat (a + b) = unat a + unat b"
  by (subst unat_add_lem [THEN iffD1]) simp_all

section \<open>Lists and multisets\<close>

lemma fold_concat_eq: "fold f (concat xss) m = fold (\<lambda>xs m. fold f xs m) xss m"
  by (induction xss arbitrary: m) simp_all

lemma mset_concat_update:
  "i < length xs \<Longrightarrow> mset (concat (xs[i := y])) + mset (xs ! i) = mset (concat xs) + mset y"
proof (induction xs arbitrary: i)
  case Nil
  then show ?case by simp
next
  case (Cons x xs)
  then show ?case
    by (cases i) (auto simp: ac_simps)
qed

lemma length_concat_update:
  "i < length xs \<Longrightarrow> length (concat (xs[i := y])) + length (xs ! i) = length (concat xs) + length y"
  using mset_concat_update [of i xs y, THEN arg_cong [where f = size]] by simp

end
