(* ===== verification/Wheel.thy ===== *)
theory Wheel
  imports Prelude
begin

text \<open>
  The hierarchical timer wheel of \<^verbatim>\<open>src/src/time/wheel.rs\<close>: 6 levels of 64 slots over a 1 ms tick.
  First the data and the operations in the order of the source, then the placement invariant, then
  the behaviour of each operation, and last the interface \<open>timer_queue\<close> the driver relies on with
  its interpretation on the wheel.

  Ticks, deadlines and the occupancy masks are 64-bit words. Slot and level indices and counts are
  \<open>usize\<close> values that never leave the range of the arrays they index; they are natural numbers, with
  the panic of an index out of range and of an underflowing subtraction written out.
\<close>

section \<open>Data\<close>

definition LEVELS :: nat where
  "LEVELS = 6"

definition SLOTS_PER_LEVEL :: nat where
  "SLOTS_PER_LEVEL = 64"

definition LEVEL_BITS :: nat where
  "LEVEL_BITS = 6"

definition SLOT_MASK :: u64 where
  "SLOT_MASK = of_nat SLOTS_PER_LEVEL - 1"

definition MAX_TICKS :: u64 where
  "MAX_TICKS = push_bit (LEVEL_BITS * LEVELS) 1"

record entry =
  entry_id :: u64
  deadline :: u64

record level =
  slots :: "entry list list"
  occupied :: u64

record wheel =
  levels :: "level list"
  cursor :: u64
  count :: nat

section \<open>Operations\<close>

definition level_new :: level where
  "level_new = \<lparr>slots = replicate SLOTS_PER_LEVEL [], occupied = 0\<rparr>"

definition level_insert :: "level \<Rightarrow> nat \<Rightarrow> entry \<Rightarrow> level outcome" where
  "level_insert l slot e =
     (if slot < length (slots l)
      then Inr (l\<lparr>slots := (slots l)[slot := slots l ! slot @ [e]],
                 occupied := occupied l OR push_bit slot 1\<rparr>)
      else Inl IndexOutOfBounds)"

definition drain_slot :: "level \<Rightarrow> nat \<Rightarrow> (entry list \<times> level) outcome" where
  "drain_slot l slot =
     (if slot < length (slots l)
      then let drained = slots l ! slot;
               l' = l\<lparr>slots := (slots l)[slot := []]\<rparr>
           in Inr (drained,
                   if slots l' ! slot = []
                   then l'\<lparr>occupied := occupied l' AND NOT (push_bit slot 1)\<rparr>
                   else l')
      else Inl IndexOutOfBounds)"

definition level_for :: "u64 \<Rightarrow> nat outcome" where
  "level_for delta =
     (if delta = 0 then Inl (AssertFailed ''delta > 0'')
      else Inr (min (ilog2 (unat delta) div 6) (LEVELS - 1)))"

definition slot_index :: "nat \<Rightarrow> u64 \<Rightarrow> nat" where
  "slot_index k t = unat (drop_bit (LEVEL_BITS * k) t AND SLOT_MASK)"

definition wheel_new :: wheel where
  "wheel_new = \<lparr>levels = map (\<lambda>_. level_new) [0..<LEVELS], cursor = 0, count = 0\<rparr>"

definition clamp_deadline :: "u64 \<Rightarrow> entry \<Rightarrow> entry" where
  "clamp_deadline max_deadline e =
     (if deadline e > max_deadline then e\<lparr>deadline := max_deadline\<rparr> else e)"

definition wheel_insert :: "wheel \<Rightarrow> entry \<Rightarrow> (wheel \<times> (unit, entry) result) outcome" where
  "wheel_insert w e =
     (if deadline e \<le> cursor w then Inr (w, Err e)
      else obind (u64_add (cursor w) MAX_TICKS) (\<lambda>s.
           obind (u64_sub s 1) (\<lambda>max_deadline.
           let e = clamp_deadline max_deadline e in
           obind (u64_sub (deadline e) (cursor w)) (\<lambda>delta.
           obind (level_for delta) (\<lambda>k.
           if k < length (levels w)
           then obind (level_insert (levels w ! k) (slot_index k (deadline e)) e) (\<lambda>l.
                Inr (w\<lparr>levels := (levels w)[k := l], count := count w + 1\<rparr>, Ok ()))
           else Inl IndexOutOfBounds)))))"

definition min_deadline :: "entry \<Rightarrow> u64 option \<Rightarrow> u64 option" where
  "min_deadline e m = Some (case m of None \<Rightarrow> deadline e | Some x \<Rightarrow> min x (deadline e))"

definition next_tick :: "wheel \<Rightarrow> u64 option" where
  "next_tick w =
     (if count w = 0 then None
      else fold (\<lambda>l m. if occupied l = 0 then m
                       else fold (\<lambda>s m. fold min_deadline s m) (slots l) m)
             (levels w) None)"

definition wheel_clear :: "wheel \<Rightarrow> wheel" where
  "wheel_clear w =
     w\<lparr>levels := map (\<lambda>l. l\<lparr>slots := map (\<lambda>_. []) (slots l), occupied := 0\<rparr>) (levels w),
       count := 0\<rparr>"

text \<open>
  \<open>advance_one\<close>: the cursor moves one tick, the levels \<open>5 .. 1\<close> whose period divides the new cursor
  are drained and re-inserted, then the current slot of level 0 expires.
\<close>

definition wheel_drain :: "wheel \<Rightarrow> nat \<Rightarrow> nat \<Rightarrow> (entry list \<times> wheel) outcome" where
  "wheel_drain w k slot =
     (if k < length (levels w)
      then obind (drain_slot (levels w ! k) slot) (\<lambda>(drained, l).
           obind (usize_sub (count w) (length drained)) (\<lambda>c.
           Inr (drained, w\<lparr>levels := (levels w)[k := l], count := c\<rparr>)))
      else Inl IndexOutOfBounds)"

fun reinsert :: "entry list \<Rightarrow> wheel \<Rightarrow> entry list \<Rightarrow> (wheel \<times> entry list) outcome" where
  "reinsert [] w expired = Inr (w, expired)"
| "reinsert (e # es) w expired =
     obind (wheel_insert w e) (\<lambda>(w', r). case r of
         Ok _ \<Rightarrow> reinsert es w' expired
       | Err e' \<Rightarrow> reinsert es w' (expired @ [e']))"

definition cascade_level :: "nat \<Rightarrow> wheel \<Rightarrow> entry list \<Rightarrow> (wheel \<times> entry list) outcome" where
  "cascade_level k w expired =
     (let period = push_bit (LEVEL_BITS * k) (1 :: u64) in
      if cursor w mod period = 0
      then obind (wheel_drain w k (slot_index k (cursor w))) (\<lambda>(drained, w1).
           reinsert drained w1 expired)
      else Inr (w, expired))"

fun cascade :: "nat list \<Rightarrow> wheel \<Rightarrow> entry list \<Rightarrow> (wheel \<times> entry list) outcome" where
  "cascade [] w expired = Inr (w, expired)"
| "cascade (k # ks) w expired =
     obind (cascade_level k w expired) (\<lambda>(w', expired'). cascade ks w' expired')"

definition advance_one :: "wheel \<Rightarrow> entry list \<Rightarrow> (wheel \<times> entry list) outcome" where
  "advance_one w expired =
     obind (u64_add (cursor w) 1) (\<lambda>c.
     obind (cascade (rev [1..<LEVELS]) (w\<lparr>cursor := c\<rparr>) expired) (\<lambda>(w1, expired1).
     obind (wheel_drain w1 0 (unat (cursor w1 AND SLOT_MASK))) (\<lambda>(drained, w2).
     Inr (w2, expired1 @ drained))))"

text \<open>No operation of a tick moves the cursor again, which is what makes the loop terminate.\<close>

lemma wheel_insert_cursor: "wheel_insert w e = Inr (w', r) \<Longrightarrow> cursor w' = cursor w"
  by (auto simp: wheel_insert_def outcome_simps Let_def split: if_splits)

lemma wheel_drain_cursor: "wheel_drain w k s = Inr (d, w') \<Longrightarrow> cursor w' = cursor w"
  by (auto simp: wheel_drain_def outcome_simps split: if_splits)

lemma reinsert_cursor: "reinsert es w ex = Inr (w', ex') \<Longrightarrow> cursor w' = cursor w"
proof (induction es arbitrary: w ex)
  case Nil
  then show ?case by simp
next
  case (Cons e es)
  then obtain w1 r where "wheel_insert w e = Inr (w1, r)"
    by (auto simp: outcome_simps)
  with Cons show ?case
    by (cases r) (auto dest: wheel_insert_cursor)
qed

lemma cascade_level_cursor: "cascade_level k w ex = Inr (w', ex') \<Longrightarrow> cursor w' = cursor w"
  by (auto simp: cascade_level_def Let_def outcome_simps wheel_drain_cursor reinsert_cursor
      split: if_splits)

lemma cascade_cursor: "cascade ks w ex = Inr (w', ex') \<Longrightarrow> cursor w' = cursor w"
  by (induction ks w ex rule: cascade.induct)
    (auto simp: outcome_simps cascade_level_cursor)

lemma advance_one_cursor: "advance_one w ex = Inr (w', ex') \<Longrightarrow>
    cursor w' = cursor w + 1 \<and> unat (cursor w) + 1 < 2 ^ 64"
  by (auto simp: advance_one_def outcome_simps u64_add_def dest!: cascade_cursor wheel_drain_cursor
      split: if_splits)

lemma advance_one_unat: "advance_one w ex = Inr (w', ex') \<Longrightarrow> unat (cursor w') = unat (cursor w) + 1"
  using advance_one_cursor [of w ex w' ex'] unat_plus_word [of "cursor w" 1] by simp

function advance_loop :: "u64 \<Rightarrow> wheel \<Rightarrow> entry list \<Rightarrow> (wheel \<times> entry list) outcome" where
  "advance_loop now w expired =
     (if cursor w < now
      then obind (advance_one w expired) (\<lambda>(w', expired').
           if count w' = 0 then Inr (w'\<lparr>cursor := now\<rparr>, expired')
           else advance_loop now w' expired')
      else Inr (w, expired))"
  by pat_completeness auto
termination
  by (relation "measure (\<lambda>(now, w, expired). unat now - unat (cursor w))")
    (auto dest!: advance_one_unat simp: word_less_nat_alt)

declare advance_loop.simps [simp del]

definition advance_to :: "wheel \<Rightarrow> u64 \<Rightarrow> (wheel \<times> entry list) outcome" where
  "advance_to w now =
     (if now \<le> cursor w then Inr (w, [])
      else if count w = 0 then Inr (w\<lparr>cursor := now\<rparr>, [])
      else advance_loop now w [])"

section \<open>The placement invariant\<close>

text \<open>
  An entry with deadline \<open>d\<close> waits at level \<open>k\<close> in slot \<open>(d div 64^k) mod 64\<close>, and its block
  \<open>d div 64^k\<close> lies ahead of the cursor's block by at least one and at most 64: the slot comes up
  exactly once before the block is passed. \<open>level_ok\<close> adds that a level has 64 slots and that the
  occupancy mask says which of them are non-empty.
\<close>

definition placed :: "nat \<Rightarrow> nat \<Rightarrow> nat \<Rightarrow> entry \<Rightarrow> bool" where
  "placed c k s e \<longleftrightarrow>
     s = (unat (deadline e) div 64 ^ k) mod 64 \<and>
     c div 64 ^ k < unat (deadline e) div 64 ^ k \<and>
     unat (deadline e) div 64 ^ k \<le> c div 64 ^ k + 64"

definition level_ok :: "nat \<Rightarrow> nat \<Rightarrow> level \<Rightarrow> bool" where
  "level_ok c k l \<longleftrightarrow>
     length (slots l) = 64 \<and>
     (\<forall>s < 64. bit (occupied l) s \<longleftrightarrow> slots l ! s \<noteq> []) \<and>
     (\<forall>s < 64. \<forall>e \<in> set (slots l ! s). placed c k s e)"

definition wheel_entries :: "wheel \<Rightarrow> entry list" where
  "wheel_entries w = concat (map (\<lambda>l. concat (slots l)) (levels w))"

text \<open>
  In the middle of a tick the levels not yet cascaded are still placed with respect to the previous
  cursor, so the invariant is stated for a reference cursor per level.
\<close>

definition levels_ok :: "(nat \<Rightarrow> nat) \<Rightarrow> wheel \<Rightarrow> bool" where
  "levels_ok cs w \<longleftrightarrow>
     length (levels w) = 6 \<and> (\<forall>k < 6. level_ok (cs k) k (levels w ! k)) \<and>
     count w = length (wheel_entries w)"

definition wheel_inv :: "wheel \<Rightarrow> bool" where
  "wheel_inv w \<longleftrightarrow> levels_ok (\<lambda>_. unat (cursor w)) w"

section \<open>Arithmetic of levels and slots\<close>

lemma SLOT_MASK_eq: "SLOT_MASK = 63"
  by (simp add: SLOT_MASK_def SLOTS_PER_LEVEL_def)

lemma unat_MAX_TICKS: "unat MAX_TICKS = 2 ^ 36"
  by (simp add: MAX_TICKS_def LEVEL_BITS_def LEVELS_def push_bit_eq_mult)

lemma pow_64: "(64 :: nat) ^ k = 2 ^ (6 * k)"
  by (simp add: power_mult)

lemma slot_index_eq: "slot_index k t = (unat t div 64 ^ k) mod 64"
  by (simp add: slot_index_def SLOT_MASK_eq LEVEL_BITS_def unat_slot_index pow_64)

lemma slot_index_less: "slot_index k t < 64"
  by (simp add: slot_index_eq)

lemma mod_64_window:
  assumes "x mod 64 = Suc y mod 64" and "y < x" and "x \<le> y + 64"
  shows "x = Suc y"
proof -
  have "64 dvd x - Suc y"
    using assms(1,2) mod_eq_dvd_iff_nat [of "Suc y" x 64] by simp
  then have "x - Suc y = 0"
    using assms(3) dvd_imp_le [of 64 "x - Suc y"] by fastforce
  with assms(2) show ?thesis by simp
qed

lemma placed_due:
  assumes "placed c k s e" and "64 ^ k dvd Suc c" and "s = (Suc c div 64 ^ k) mod 64"
  shows "unat (deadline e) div 64 ^ k = Suc c div 64 ^ k"
proof -
  have "Suc c div 64 ^ k = Suc (c div 64 ^ k)"
    using assms(2) by (simp add: div_Suc dvd_eq_mod_eq_0)
  with assms show ?thesis
    unfolding placed_def by (metis mod_64_window)
qed

lemma placed_step:
  assumes "placed c k s e" and "64 ^ k dvd Suc c" and "s \<noteq> (Suc c div 64 ^ k) mod 64"
  shows "placed (Suc c) k s e"
proof -
  have "Suc c div 64 ^ k = Suc (c div 64 ^ k)"
    using assms(2) by (simp add: div_Suc dvd_eq_mod_eq_0)
  with assms show ?thesis
    unfolding placed_def by (metis Suc_leI Suc_lessI add_Suc le_SucI)
qed

lemma placed_no_cross: "\<not> 64 ^ k dvd Suc c \<Longrightarrow> placed (Suc c) k s e = placed c k s e"
  by (simp add: placed_def div_Suc dvd_eq_mod_eq_0)

lemma block_bounds:
  fixes d c :: nat
  assumes "c + 64 ^ k \<le> d" and "d < c + 64 ^ Suc k"
  shows "c div 64 ^ k < d div 64 ^ k" and "d div 64 ^ k \<le> c div 64 ^ k + 64"
    and "c = Suc c' \<Longrightarrow> d div 64 ^ k \<le> c' div 64 ^ k + 64"
proof -
  let ?p = "(64 :: nat) ^ k"
  have p: "0 < ?p" by simp
  have "(c + ?p) div ?p = c div ?p + 1" by (rule div_add_self2) simp
  then show "c div ?p < d div ?p" using div_le_mono [OF assms(1), of ?p] by simp
  have less: "x div ?p < y + 64" if "x < y * ?p + 64 * ?p" for x y
    using that p by (simp add: less_mult_imp_div_less add_mult_distrib)
  have c: "c < (c div ?p + 1) * ?p" using p by (metis Suc_eq_plus1 dividend_less_div_times mult.commute mult_Suc_right add.commute)
  then have "d < (c div ?p + 1) * ?p + 64 * ?p" using assms(2) by simp
  then show "d div ?p \<le> c div ?p + 64" using less [of d "c div ?p + 1"] by simp
  assume "c = Suc c'"
  moreover have "c' < (c' div ?p + 1) * ?p" using p by (metis Suc_eq_plus1 dividend_less_div_times mult.commute mult_Suc_right add.commute)
  ultimately have "c \<le> (c' div ?p + 1) * ?p" by simp
  then have "d < (c' div ?p + 1) * ?p + 64 * ?p" using assms(2) by simp
  then show "d div ?p \<le> c' div ?p + 64" using less [of d "c' div ?p + 1"] by simp
qed

lemma placed_new:
  assumes "c + 64 ^ k \<le> unat (deadline e)" and "unat (deadline e) < c + 64 ^ Suc k"
    and "c0 = c \<or> c = Suc c0"
  shows "placed c0 k (slot_index k (deadline e)) e"
proof -
  note b = block_bounds [OF assms(1,2)]
  have "c0 div 64 ^ k \<le> c div 64 ^ k" using assms(3) by (auto intro: div_le_mono)
  with b assms(3) show ?thesis
    unfolding placed_def slot_index_eq by auto
qed

lemma level_for_spec:
  assumes "0 < unat delta" and "unat delta < 2 ^ 36"
  obtains k where "k < 6" and "level_for delta = Inr k"
    and "64 ^ k \<le> unat delta" and "unat delta < 64 ^ Suc k"
proof
  let ?n = "ilog2 (unat delta)"
  let ?k = "?n div 6"
  note b = ilog2_bounds [OF assms(1)]
  have "(2 :: nat) ^ ?n < 2 ^ 36" using b assms(2) by simp
  then have n: "?n < 36" by (simp only: power_strict_increasing_iff)
  then show k: "?k < 6" by simp
  with assms(1) show "level_for delta = Inr ?k" by (auto simp: level_for_def LEVELS_def)
  have "(2 :: nat) ^ (6 * ?k) \<le> 2 ^ ?n" by (rule power_increasing) simp_all
  with b show "64 ^ ?k \<le> unat delta" unfolding pow_64 by (meson order_trans)
  have "(2 :: nat) ^ Suc ?n \<le> 2 ^ (6 * Suc ?k)"
    by (rule power_increasing) (presburger, simp)
  with b show "unat delta < 64 ^ Suc ?k" unfolding pow_64 by (meson less_le_trans)
qed

section \<open>Levels\<close>

lemma level_insert_ok:
  assumes "level_ok c k l" and "s < 64" and "placed c k s e"
  obtains l' where "level_insert l s e = Inr l'" and "level_ok c k l'"
    and "mset (concat (slots l')) = mset (concat (slots l)) + {#e#}"
proof
  let ?l = "l\<lparr>slots := (slots l)[s := slots l ! s @ [e]], occupied := occupied l OR push_bit s 1\<rparr>"
  have len: "length (slots l) = 64" using assms(1) by (simp add: level_ok_def)
  with assms(2) show "level_insert l s e = Inr ?l" by (simp add: level_insert_def)
  show "level_ok c k ?l"
    using assms by (auto simp: level_ok_def bit_set_bit_word nth_list_update)
  show "mset (concat (slots ?l)) = mset (concat (slots l)) + {#e#}"
    using mset_concat_update [of s "slots l" "slots l ! s @ [e]"] len assms(2) by simp
qed

text \<open>
  Draining the slot the cursor has just reached yields exactly the entries of the cursor's block and
  leaves the level placed with respect to the new cursor.
\<close>

lemma drain_slot_ok:
  assumes "level_ok c k l" and "64 ^ k dvd Suc c" and s: "s = (Suc c div 64 ^ k) mod 64"
  obtains d l' where "drain_slot l s = Inr (d, l')" and "level_ok (Suc c) k l'"
    and "mset (concat (slots l)) = mset d + mset (concat (slots l'))"
    and "\<forall>e \<in> set d. unat (deadline e) div 64 ^ k = Suc c div 64 ^ k"
proof
  let ?l = "l\<lparr>slots := (slots l)[s := []], occupied := occupied l AND NOT (push_bit s 1)\<rparr>"
  have len: "length (slots l) = 64" and "s < 64" using assms by (simp_all add: level_ok_def)
  then show "drain_slot l s = Inr (slots l ! s, ?l)" by (simp add: drain_slot_def)
  show "level_ok (Suc c) k ?l"
    using assms(1) len \<open>s < 64\<close> placed_step [OF _ assms(2)]
    by (auto simp: level_ok_def bit_clear_bit_word nth_list_update simp flip: s)
  show "mset (concat (slots l)) = mset (slots l ! s) + mset (concat (slots ?l))"
    using mset_concat_update [of s "slots l" "[]"] len \<open>s < 64\<close> by (simp add: ac_simps)
  show "\<forall>e \<in> set (slots l ! s). unat (deadline e) div 64 ^ k = Suc c div 64 ^ k"
    using assms(1) \<open>s < 64\<close> placed_due [OF _ assms(2) s] by (auto simp: level_ok_def)
qed

lemma level_ok_no_cross: "\<not> 64 ^ k dvd Suc c \<Longrightarrow> level_ok (Suc c) k l = level_ok c k l"
  by (simp add: level_ok_def placed_no_cross)

lemma wheel_entries_update:
  assumes "k < length (levels w)"
  shows "mset (wheel_entries (w\<lparr>levels := (levels w)[k := l], count := n\<rparr>)) +
           mset (concat (slots (levels w ! k))) =
         mset (wheel_entries w) + mset (concat (slots l))"
  using mset_concat_update [of k "map (\<lambda>l. concat (slots l)) (levels w)" "concat (slots l)"] assms
  by (simp add: wheel_entries_def map_update)

lemma length_eq_of_mset: "mset xs = mset ys + mset zs \<Longrightarrow> length xs = length ys + length zs"
  by (metis size_mset size_union)

section \<open>Insertion\<close>

text \<open>
  A tick is in range when a full wheel of ticks still fits above it: the bound under which
  \<open>cursor + MAX_TICKS - 1\<close> does not overflow.
\<close>

definition in_range :: "u64 \<Rightarrow> bool" where
  "in_range t \<longleftrightarrow> unat t + unat MAX_TICKS < 2 ^ 64"

definition clamped :: "u64 \<Rightarrow> entry \<Rightarrow> entry" where
  "clamped c e = clamp_deadline (c + MAX_TICKS - 1) e"

lemma unat_max_deadline:
  assumes "in_range c"
  shows "unat (c + MAX_TICKS - 1) = unat c + 2 ^ 36 - 1"
proof -
  have s: "unat (c + MAX_TICKS) = unat c + 2 ^ 36"
    using assms unat_plus_word [of c MAX_TICKS] by (simp add: in_range_def unat_MAX_TICKS)
  then have "1 \<le> c + MAX_TICKS" by (simp add: word_le_nat_alt)
  with s show ?thesis by (simp add: unat_minus_word)
qed

lemma unat_clamped:
  assumes "in_range c"
  shows "unat (deadline (clamped c e)) = min (unat (deadline e)) (unat c + 2 ^ 36 - 1)"
  using unat_max_deadline [OF assms]
  by (auto simp: clamped_def clamp_deadline_def word_less_nat_alt)

lemma clamped_id:
  assumes "in_range c" and "unat (deadline e) < unat c + 2 ^ 36"
  shows "clamped c e = e"
  using unat_max_deadline [OF assms(1)] assms(2)
  by (auto simp: clamped_def clamp_deadline_def word_less_nat_alt)

lemma wheel_insert_past: "deadline e \<le> cursor w \<Longrightarrow> wheel_insert w e = Inr (w, Err e)"
  by (simp add: wheel_insert_def)

lemma wheel_insert_ok:
  assumes ok: "levels_ok cs w" and range: "in_range (cursor w)" and fut: "cursor w < deadline e"
    and cs: "\<forall>k < 6. cs k = unat (cursor w) \<or> unat (cursor w) = Suc (cs k)"
  obtains w' where "wheel_insert w e = Inr (w', Ok ())" and "levels_ok cs w'"
    and "cursor w' = cursor w"
    and "mset (wheel_entries w') = add_mset (clamped (cursor w) e) (mset (wheel_entries w))"
proof -
  let ?c = "cursor w" and ?e = "clamped (cursor w) e"
  let ?delta = "deadline ?e - ?c"
  have e: "unat (deadline ?e) = min (unat (deadline e)) (unat ?c + 2 ^ 36 - 1)"
    by (rule unat_clamped [OF range])
  have le: "?c \<le> deadline ?e" and pos: "unat ?c < unat (deadline ?e)"
    using fut e by (auto simp: word_less_nat_alt word_le_nat_alt)
  have delta: "unat ?delta = unat (deadline ?e) - unat ?c"
    using le by (rule unat_minus_word)
  have "0 < unat ?delta" and "unat ?delta < 2 ^ 36" using delta pos e by auto
  then obtain k where k: "k < 6" "level_for ?delta = Inr k" "64 ^ k \<le> unat ?delta"
      "unat ?delta < 64 ^ Suc k" by (rule level_for_spec)
  have "placed (cs k) k (slot_index k (deadline ?e)) ?e"
    using k cs delta pos by (intro placed_new [of "unat ?c"]) auto
  moreover have "level_ok (cs k) k (levels w ! k)" and len: "length (levels w) = 6"
    using ok k(1) by (simp_all add: levels_ok_def)
  ultimately obtain l where l: "level_insert (levels w ! k) (slot_index k (deadline ?e)) ?e = Inr l"
      "level_ok (cs k) k l"
      "mset (concat (slots l)) = mset (concat (slots (levels w ! k))) + {#?e#}"
    using level_insert_ok slot_index_less by blast
  let ?w = "w\<lparr>levels := (levels w)[k := l], count := count w + 1\<rparr>"
  have "1 \<le> ?c + MAX_TICKS"
    using range unat_plus_word [of ?c MAX_TICKS]
    by (simp add: in_range_def unat_MAX_TICKS word_le_nat_alt)
  then have ins: "wheel_insert w e = Inr (?w, Ok ())"
    using fut range le k len l(1)
    by (simp add: wheel_insert_def in_range_def clamped_def checked_simps Let_def)
  have ms: "mset (wheel_entries ?w) = add_mset ?e (mset (wheel_entries w))"
    using wheel_entries_update [where k = k and w = w and l = l and n = "count w + 1"] k(1) len l(3)
    by simp
  then have "length (wheel_entries ?w) = Suc (length (wheel_entries w))"
    by (metis size_add_mset size_mset)
  then have "levels_ok cs ?w"
    using ok k(1) l(2) by (auto simp: levels_ok_def nth_list_update)
  with ins ms that show thesis by simp
qed

section \<open>One tick\<close>

lemma wheel_drain_ok:
  assumes ok: "levels_ok cs w" and k: "k < 6" and cs: "cs k = c"
    and cross: "64 ^ k dvd Suc c" and s: "s = (Suc c div 64 ^ k) mod 64"
  obtains d w' where "wheel_drain w k s = Inr (d, w')" and "levels_ok (cs(k := Suc c)) w'"
    and "cursor w' = cursor w"
    and "mset (wheel_entries w) = mset d + mset (wheel_entries w')"
    and "\<forall>e \<in> set d. unat (deadline e) div 64 ^ k = Suc c div 64 ^ k"
proof -
  have "level_ok c k (levels w ! k)" and len: "length (levels w) = 6"
    using ok k cs by (auto simp: levels_ok_def)
  then obtain d l where d: "drain_slot (levels w ! k) s = Inr (d, l)" and l: "level_ok (Suc c) k l"
    and split: "mset (concat (slots (levels w ! k))) = mset d + mset (concat (slots l))"
    and due: "\<forall>e \<in> set d. unat (deadline e) div 64 ^ k = Suc c div 64 ^ k"
    using drain_slot_ok [OF _ cross s] by metis
  let ?w = "w\<lparr>levels := (levels w)[k := l], count := count w - length d\<rparr>"
  have ms: "mset (wheel_entries w) = mset d + mset (wheel_entries ?w)"
    using wheel_entries_update [where k = k and w = w and l = l and n = "count w - length d"] k len
    by (simp add: split ac_simps)
  then have n: "length (wheel_entries w) = length d + length (wheel_entries ?w)"
    by (rule length_eq_of_mset)
  moreover have "count w = length (wheel_entries w)" using ok by (simp add: levels_ok_def)
  ultimately have "wheel_drain w k s = Inr (d, ?w)"
    using d k len by (simp add: wheel_drain_def checked_simps)
  moreover have "levels_ok (cs(k := Suc c)) ?w"
    using ok k l n by (auto simp: levels_ok_def nth_list_update)
  ultimately show thesis using ms due that by simp
qed

lemma block_deadline:
  assumes "d div 64 ^ k = c div 64 ^ k" and "(64 :: nat) ^ k dvd c"
  shows "c \<le> d" and "d < c + 64 ^ k"
proof -
  have "c = (d div 64 ^ k) * 64 ^ k" using assms by simp
  then show "c \<le> d" by (metis div_times_less_eq_dividend)
  from \<open>c = _\<close> show "d < c + 64 ^ k"
    using dividend_less_div_times [of "64 ^ k" d] by simp
qed

lemma reinsert_ok:
  assumes "levels_ok cs w" and "in_range (cursor w)"
    and "\<forall>k < 6. cs k = unat (cursor w) \<or> unat (cursor w) = Suc (cs k)"
    and "\<forall>e \<in> set es. cursor w \<le> deadline e \<and> unat (deadline e) < unat (cursor w) + 2 ^ 36"
  shows "\<exists>w' ex'. reinsert es w ex = Inr (w', ex @ ex') \<and> levels_ok cs w' \<and> cursor w' = cursor w \<and>
           mset es + mset (wheel_entries w) = mset ex' + mset (wheel_entries w') \<and>
           (\<forall>e \<in> set ex'. deadline e = cursor w)"
  using assms
proof (induction es arbitrary: w ex)
  case Nil
  then show ?case by simp
next
  case (Cons e es)
  show ?case
  proof (cases "cursor w < deadline e")
    case True
    obtain w1 where w1: "wheel_insert w e = Inr (w1, Ok ())" "levels_ok cs w1" "cursor w1 = cursor w"
        "mset (wheel_entries w1) = add_mset (clamped (cursor w) e) (mset (wheel_entries w))"
      using wheel_insert_ok [OF Cons.prems(1,2) True Cons.prems(3)] by blast
    moreover have "clamped (cursor w) e = e" using Cons.prems(2,4) by (simp add: clamped_id)
    ultimately show ?thesis using Cons.IH [of w1 ex] Cons.prems by auto
  next
    case False
    then have e: "deadline e = cursor w" using Cons.prems(4) by auto
    obtain w' ex' where IH: "reinsert es w (ex @ [e]) = Inr (w', (ex @ [e]) @ ex')" "levels_ok cs w'"
        "cursor w' = cursor w" "mset es + mset (wheel_entries w) = mset ex' + mset (wheel_entries w')"
        "\<forall>e \<in> set ex'. deadline e = cursor w"
      using Cons.IH [of w "ex @ [e]"] Cons.prems by auto
    with e show ?thesis
      by (intro exI [of _ w'] exI [of _ "e # ex'"]) (simp add: wheel_insert_past)
  qed
qed

text \<open>
  The effect of one cascading level at the new cursor \<open>c\<close>: the level is placed for \<open>c\<close>, whatever was
  drained is either back in the wheel or has expired with deadline exactly \<open>c\<close>.
\<close>

definition tick_step :: "(nat \<Rightarrow> nat) \<Rightarrow> wheel \<Rightarrow> wheel \<Rightarrow> entry list \<Rightarrow> bool" where
  "tick_step cs w w' ex' \<longleftrightarrow>
     levels_ok cs w' \<and> cursor w' = cursor w \<and>
     mset (wheel_entries w) = mset ex' + mset (wheel_entries w') \<and>
     (\<forall>e \<in> set ex'. deadline e = cursor w)"

lemma period_mod_iff:
  assumes "k < 6"
  shows "(c :: u64) mod 2 ^ (LEVEL_BITS * k) = 0 \<longleftrightarrow> 64 ^ k dvd unat c"
proof -
  have "(2 :: nat) ^ (6 * k) < 2 ^ 64" using assms by (intro power_strict_increasing) simp_all
  then have "unat (of_nat (2 ^ (6 * k)) :: u64) = 2 ^ (6 * k)"
    by (simp only: unat_of_nat take_bit_nat_eq_self len_num1 len_bit0 mult_1_right)
      (simp add: take_bit_nat_eq_self)
  then have p: "unat (2 ^ (6 * k) :: u64) = 64 ^ k" by (simp add: pow_64)
  have "c mod 2 ^ (6 * k) = 0 \<longleftrightarrow> unat (c mod 2 ^ (6 * k)) = 0" by (simp only: unat_eq_zero)
  also have "\<dots> \<longleftrightarrow> 64 ^ k dvd unat c" by (simp add: unat_mod p dvd_eq_mod_eq_0)
  finally show ?thesis by (simp add: LEVEL_BITS_def)
qed

lemma period_dvd_iff: "k < 6 \<Longrightarrow> 2 ^ (LEVEL_BITS * k) dvd (c :: u64) \<longleftrightarrow> 64 ^ k dvd unat c"
  using period_mod_iff [of k c] by (simp only: take_bit_eq_0_iff [symmetric] take_bit_eq_mod)

lemmas period_iff = period_mod_iff period_dvd_iff

lemma cascade_level_ok:
  assumes ok: "levels_ok cs w" and range: "in_range (cursor w)" and k: "k < 6"
    and cs: "\<forall>j < 6. cs j = unat (cursor w) \<or> unat (cursor w) = Suc (cs j)"
    and old: "unat (cursor w) = Suc (cs k)"
  shows "\<exists>w' ex'. cascade_level k w ex = Inr (w', ex @ ex') \<and>
           tick_step (cs(k := unat (cursor w))) w w' ex'"
proof (cases "64 ^ k dvd unat (cursor w)")
  case False
  then have "levels_ok (cs(k := unat (cursor w))) w"
    using ok old level_ok_no_cross [of k "cs k"] by (auto simp: levels_ok_def)
  with False k show ?thesis
    by (auto simp: cascade_level_def period_iff tick_step_def)
next
  case True
  then have cross: "64 ^ k dvd Suc (cs k)" using old by simp
  have "slot_index k (cursor w) = (Suc (cs k) div 64 ^ k) mod 64" by (simp add: slot_index_eq old)
  from wheel_drain_ok [OF ok k refl cross this] obtain d w1
    where d: "wheel_drain w k (slot_index k (cursor w)) = Inr (d, w1)"
      and w1: "levels_ok (cs(k := Suc (cs k))) w1" "cursor w1 = cursor w"
        "mset (wheel_entries w) = mset d + mset (wheel_entries w1)"
      and due: "\<forall>e \<in> set d. unat (deadline e) div 64 ^ k = Suc (cs k) div 64 ^ k" by blast
  have ref: "\<forall>j < 6. (cs(k := unat (cursor w))) j = unat (cursor w) \<or>
      unat (cursor w) = Suc ((cs(k := unat (cursor w))) j)" using cs by simp
  have "(64 :: nat) ^ k \<le> 64 ^ 5" using k by (intro power_increasing) simp_all
  then have "(64 :: nat) ^ k \<le> 2 ^ 36" by simp
  then have "\<forall>e \<in> set d. cursor w1 \<le> deadline e \<and> unat (deadline e) < unat (cursor w1) + 2 ^ 36"
    using due block_deadline [OF _ cross] w1(2) old by (fastforce simp: word_le_nat_alt)
  then obtain w' ex' where "reinsert d w1 ex = Inr (w', ex @ ex')"
      "levels_ok (cs(k := unat (cursor w))) w'" "cursor w' = cursor w"
      "mset d + mset (wheel_entries w1) = mset ex' + mset (wheel_entries w')"
      "\<forall>e \<in> set ex'. deadline e = cursor w"
    using reinsert_ok [of "cs(k := unat (cursor w))" w1 d ex] w1 range ref
    by (auto simp: old simp del: fun_upd_apply)
  with d True k w1(3) show ?thesis
    by (auto simp: cascade_level_def period_iff tick_step_def)
qed

lemma cascade_ok:
  assumes "levels_ok cs w" and "in_range (cursor w)" and "\<forall>k \<in> set ks. k < 6" and "distinct ks"
    and "\<forall>j < 6. cs j = unat (cursor w) \<or> unat (cursor w) = Suc (cs j)"
    and "\<forall>k \<in> set ks. unat (cursor w) = Suc (cs k)"
  shows "\<exists>w' ex'. cascade ks w ex = Inr (w', ex @ ex') \<and>
           tick_step (\<lambda>j. if j \<in> set ks then unat (cursor w) else cs j) w w' ex'"
  using assms
proof (induction ks arbitrary: cs w ex)
  case Nil
  then show ?case by (simp add: tick_step_def)
next
  case (Cons k ks)
  let ?c = "unat (cursor w)"
  obtain w1 ex1 where 1: "cascade_level k w ex = Inr (w1, ex @ ex1)" "tick_step (cs(k := ?c)) w w1 ex1"
    using cascade_level_ok [of cs w k ex] Cons.prems by auto
  then have cur: "cursor w1 = cursor w" by (simp add: tick_step_def)
  have fn: "(\<lambda>j. if j \<in> set ks then ?c else (cs(k := ?c)) j) =
      (\<lambda>j. if j \<in> set (k # ks) then ?c else cs j)" by auto
  have "levels_ok (cs(k := ?c)) w1" using 1(2) by (simp add: tick_step_def)
  moreover have "\<forall>j < 6. (cs(k := ?c)) j = ?c \<or> ?c = Suc ((cs(k := ?c)) j)"
    and "\<forall>j \<in> set ks. ?c = Suc ((cs(k := ?c)) j)" using Cons.prems(4,5,6) by auto
  ultimately have "\<exists>w' ex'. cascade ks w1 (ex @ ex1) = Inr (w', (ex @ ex1) @ ex') \<and>
      tick_step (\<lambda>j. if j \<in> set (k # ks) then ?c else cs j) w1 w' ex'"
    using Cons.IH [of "cs(k := ?c)" w1 "ex @ ex1", unfolded cur fn] Cons.prems(2,3,4)
    by (simp del: fun_upd_apply)
  then obtain w' ex' where 2: "cascade ks w1 (ex @ ex1) = Inr (w', (ex @ ex1) @ ex')"
      "tick_step (\<lambda>j. if j \<in> set (k # ks) then ?c else cs j) w1 w' ex'" by blast
  show ?case
    using 1 2 cur by (intro exI [of _ w'] exI [of _ "ex1 @ ex'"]) (auto simp: tick_step_def)
qed

lemma advance_one_ok:
  assumes inv: "wheel_inv w" and less: "cursor w < now" and range: "in_range now"
  shows "\<exists>w' ex'. advance_one w ex = Inr (w', ex @ ex') \<and> wheel_inv w' \<and> cursor w' = cursor w + 1 \<and>
           mset (wheel_entries w) = mset ex' + mset (wheel_entries w') \<and>
           (\<forall>e \<in> set ex'. deadline e = cursor w + 1)"
proof -
  let ?c = "cursor w + 1" and ?cs = "\<lambda>j. if j \<in> {1..<6} then Suc (unat (cursor w)) else unat (cursor w)"
  let ?w0 = "w\<lparr>cursor := ?c\<rparr>"
  have "unat (cursor w) + 1 < 2 ^ 64" and "unat (cursor w) + 1 + 2 ^ 36 < 2 ^ 64"
    using less range by (auto simp: in_range_def unat_MAX_TICKS word_less_nat_alt)
  then have uc: "unat ?c = Suc (unat (cursor w))" and rc: "in_range ?c"
    and add: "u64_add (cursor w) 1 = Inr ?c"
    using unat_plus_word [of "cursor w" 1] by (auto simp: in_range_def unat_MAX_TICKS checked_simps)
  have ents [simp]: "wheel_entries ?w0 = wheel_entries w" by (simp add: wheel_entries_def)
  have "levels_ok (\<lambda>_. unat (cursor w)) ?w0" using inv by (simp add: wheel_inv_def levels_ok_def)
  then have "\<exists>w1 ex1. cascade (rev [1..<LEVELS]) ?w0 ex = Inr (w1, ex @ ex1) \<and> tick_step ?cs ?w0 w1 ex1"
    using cascade_ok [of "\<lambda>_. unat (cursor w)" ?w0 "rev [1..<LEVELS]" ex] rc uc
    by (auto simp: LEVELS_def cong: if_cong)
  then obtain w1 ex1 where 1: "cascade (rev [1..<LEVELS]) ?w0 ex = Inr (w1, ex @ ex1)"
    and w1: "levels_ok ?cs w1" "cursor w1 = ?c"
      "mset (wheel_entries w) = mset ex1 + mset (wheel_entries w1)" "\<forall>e \<in> set ex1. deadline e = ?c"
    by (auto simp: tick_step_def)
  have "unat (cursor w1 AND SLOT_MASK) = (Suc (unat (cursor w)) div 64 ^ 0) mod 64"
    using unat_slot_index [of 0 "cursor w1"] uc w1(2) by (simp add: SLOT_MASK_eq)
  from wheel_drain_ok [OF w1(1) _ _ _ this] obtain d w2
    where 2: "wheel_drain w1 0 (unat (cursor w1 AND SLOT_MASK)) = Inr (d, w2)"
      and w2: "levels_ok (?cs(0 := Suc (unat (cursor w)))) w2" "cursor w2 = cursor w1"
        "mset (wheel_entries w1) = mset d + mset (wheel_entries w2)"
        "\<forall>e \<in> set d. unat (deadline e) = Suc (unat (cursor w))" by auto
  have "(?cs(0 := Suc (unat (cursor w)))) k = unat ?c" if "k < 6" for k :: nat
    using that uc by (cases k) auto
  then have "wheel_inv w2"
    using w2(1,2) w1(2) by (simp add: wheel_inv_def levels_ok_def del: fun_upd_apply)
  moreover have "\<forall>e \<in> set d. deadline e = ?c" using w2(4) uc by (metis word_unat_eq_iff)
  ultimately show ?thesis
    using add 1 2 w1 w2(2,3)
    by (intro exI [of _ w2] exI [of _ "ex1 @ d"]) (auto simp: advance_one_def)
qed

section \<open>Advancing\<close>

lemma wheel_entry_placed:
  assumes "levels_ok cs w" and "e \<in> set (wheel_entries w)"
  obtains k s where "k < 6" and "s < 64" and "e \<in> set (slots (levels w ! k) ! s)" and "placed (cs k) k s e"
proof -
  from assms(2) obtain k s where "k < length (levels w)" "s < length (slots (levels w ! k))"
      "e \<in> set (slots (levels w ! k) ! s)"
    unfolding wheel_entries_def by (fastforce simp: in_set_conv_nth)
  with assms(1) that show thesis by (auto simp: levels_ok_def level_ok_def)
qed

lemma wheel_inv_future: "wheel_inv w \<Longrightarrow> e \<in> set (wheel_entries w) \<Longrightarrow> cursor w < deadline e"
  unfolding wheel_inv_def
  by (erule (1) wheel_entry_placed)
    (metis placed_def div_le_mono linorder_not_less word_less_nat_alt)

lemma wheel_inv_count: "wheel_inv w \<Longrightarrow> count w = length (wheel_entries w)"
  by (simp add: wheel_inv_def levels_ok_def)

lemma wheel_entries_nil_slots:
  assumes "levels_ok cs w" and "wheel_entries w = []" and "k < 6" and "s < 64"
  shows "slots (levels w ! k) ! s = []"
proof -
  have "k < length (levels w)" and "s < length (slots (levels w ! k))"
    using assms by (auto simp: levels_ok_def level_ok_def)
  with assms(2) show ?thesis
    by (simp add: wheel_entries_def) (meson nth_mem)
qed

lemma levels_ok_empty:
  assumes "levels_ok cs w" and "wheel_entries w = []"
  shows "levels_ok cs' (w\<lparr>cursor := c\<rparr>)"
  using assms wheel_entries_nil_slots [OF assms]
  by (auto simp: levels_ok_def level_ok_def wheel_entries_def)

lemma wheel_inv_jump:
  assumes "wheel_inv w" and "count w = 0"
  shows "wheel_inv (w\<lparr>cursor := c\<rparr>)" and "wheel_entries (w\<lparr>cursor := c\<rparr>) = []"
proof -
  have "wheel_entries w = []" using assms by (simp add: wheel_inv_count)
  then show "wheel_inv (w\<lparr>cursor := c\<rparr>)"
    using assms(1) levels_ok_empty [of _ w] by (simp add: wheel_inv_def)
  show "wheel_entries (w\<lparr>cursor := c\<rparr>) = []"
    using \<open>wheel_entries w = []\<close> by (simp add: wheel_entries_def)
qed

text \<open>
  What a run of the cursor to \<open>now\<close> does: every entry ends up expired or still pending, the expired
  ones were due, in the order of their deadlines.
\<close>

definition advanced :: "u64 \<Rightarrow> wheel \<Rightarrow> wheel \<Rightarrow> entry list \<Rightarrow> bool" where
  "advanced now w w' ex \<longleftrightarrow>
     wheel_inv w' \<and> cursor w' = now \<and>
     mset (wheel_entries w) = mset ex + mset (wheel_entries w') \<and>
     (\<forall>e \<in> set ex. cursor w < deadline e \<and> deadline e \<le> now) \<and> sorted (map deadline ex)"

lemma word_Suc_le: "(a :: u64) < b \<Longrightarrow> a < a + 1 \<and> a + 1 \<le> b"
proof -
  assume "a < b"
  then have "unat a + 1 < 2 ^ 64" using unat_u64_less [of b] by (simp add: word_less_nat_alt)
  then have "unat (a + 1) = unat a + 1" using unat_plus_word [of a 1] by simp
  with \<open>a < b\<close> show ?thesis by (simp add: word_less_nat_alt word_le_nat_alt)
qed

lemma advance_loop_ok:
  assumes "wheel_inv w" and "cursor w \<le> now" and "in_range now"
  shows "\<exists>w' ex'. advance_loop now w ex = Inr (w', ex @ ex') \<and> advanced now w w' ex'"
  using assms
proof (induction now w ex rule: advance_loop.induct)
  case (1 now w ex)
  show ?case
  proof (cases "cursor w < now")
    case False
    then show ?thesis
      using "1.prems" by (simp add: advance_loop.simps [of now w ex] advanced_def)
  next
    case True
    obtain w1 ex1 where one: "advance_one w ex = Inr (w1, ex @ ex1)"
      and w1: "wheel_inv w1" "cursor w1 = cursor w + 1"
        "mset (wheel_entries w) = mset ex1 + mset (wheel_entries w1)"
        "\<forall>e \<in> set ex1. deadline e = cursor w + 1"
      using advance_one_ok [OF "1.prems"(1) True "1.prems"(3)] by blast
    note c1 = word_Suc_le [OF True]
    have sorted1: "sorted (map deadline ex1)" using w1(4) by (simp add: sorted_wrt_iff_nth_less)
    show ?thesis
    proof (cases "count w1 = 0")
      case True
      then have "advanced now w (w1\<lparr>cursor := now\<rparr>) ex1"
        using w1 c1 sorted1 wheel_inv_jump [OF w1(1) True]
        by (auto simp: advanced_def wheel_inv_count [OF w1(1)])
      then show ?thesis
        using one True \<open>cursor w < now\<close> by (simp add: advance_loop.simps [of now w ex])
    next
      case False
      then obtain w' ex' where IH: "advance_loop now w1 (ex @ ex1) = Inr (w', (ex @ ex1) @ ex')"
          "advanced now w1 w' ex'"
        using "1.IH" [OF True one refl] c1 w1(1,2) "1.prems"(3) by auto
      have "advanced now w w' (ex1 @ ex')"
        using IH(2) w1 c1 sorted1 by (fastforce simp: advanced_def sorted_append)
      then show ?thesis
        using one True False IH(1) by (simp add: advance_loop.simps [of now w ex])
    qed
  qed
qed

lemma advanced_filter:
  assumes "advanced now w w' ex"
  shows "mset ex = {#e \<in># mset (wheel_entries w). deadline e \<le> now#}"
    and "mset (wheel_entries w') = {#e \<in># mset (wheel_entries w). now < deadline e#}"
proof -
  have "\<forall>e \<in># mset ex. deadline e \<le> now" using assms by (simp add: advanced_def)
  moreover have "\<forall>e \<in># mset (wheel_entries w'). now < deadline e"
    using assms wheel_inv_future [of w'] by (auto simp: advanced_def)
  moreover have "mset (wheel_entries w) = mset ex + mset (wheel_entries w')"
    using assms by (simp add: advanced_def)
  ultimately show "mset ex = {#e \<in># mset (wheel_entries w). deadline e \<le> now#}"
    and "mset (wheel_entries w') = {#e \<in># mset (wheel_entries w). now < deadline e#}"
    by (auto simp: filter_mset_eq_conv intro!: multiset_eqI)
      (metis count_filter_mset count_union filter_mset_cong filter_mset_True not_less)+
qed

lemma advance_to_ok:
  assumes inv: "wheel_inv w" and range: "in_range now"
  shows "\<exists>w' ex. advance_to w now = Inr (w', ex) \<and> wheel_inv w' \<and> cursor w' = max (cursor w) now \<and>
           mset ex = {#e \<in># mset (wheel_entries w). deadline e \<le> now#} \<and>
           mset (wheel_entries w') = {#e \<in># mset (wheel_entries w). now < deadline e#} \<and>
           sorted (map deadline ex)"
proof (cases "now \<le> cursor w")
  case True
  then have "\<forall>e \<in># mset (wheel_entries w). now < deadline e"
    using wheel_inv_future [OF inv] by fastforce
  then have "{#e \<in># mset (wheel_entries w). deadline e \<le> now#} = {#}"
    and "{#e \<in># mset (wheel_entries w). now < deadline e#} = mset (wheel_entries w)"
    by (fastforce simp: filter_mset_eq_conv)+
  with True inv show ?thesis by (simp add: advance_to_def max_absorb1)
next
  case False
  show ?thesis
  proof (cases "count w = 0")
    case True
    moreover have "max (cursor w) now = now" using False by simp
    ultimately show ?thesis
      using False inv wheel_inv_jump [OF inv True] by (simp add: advance_to_def wheel_inv_count)
  next
    case busy: False
    have "cursor w \<le> now" using False linear by blast
    then obtain w' ex where *: "advance_loop now w [] = Inr (w', ex)" "advanced now w w' ex"
      using advance_loop_ok [OF inv _ range, of "[]"] by auto
    then show ?thesis
      using False busy advanced_filter [OF *(2)] \<open>cursor w \<le> now\<close>
      by (auto simp: advance_to_def advanced_def max_absorb2)
  qed
qed

section \<open>The earliest deadline\<close>

lemma fold_min_deadline:
  "fold min_deadline es (Some m) = Some (Min (insert m (deadline ` set es)))"
proof (induction es arbitrary: m)
  case Nil
  then show ?case by simp
next
  case (Cons e es)
  have "Min (insert (min m (deadline e)) (deadline ` set es)) =
      Min (insert m (insert (deadline e) (deadline ` set es)))"
    by (cases "es = []") (simp_all add: min.assoc)
  with Cons show ?case by (simp add: min_deadline_def)
qed

lemma fold_min_deadline_None:
  "fold min_deadline es None = (if es = [] then None else Some (Min (deadline ` set es)))"
  by (cases es) (simp_all add: min_deadline_def fold_min_deadline)

lemma level_unoccupied:
  assumes "level_ok c k l" and "occupied l = 0"
  shows "concat (slots l) = []"
proof -
  have "slots l ! s = []" if "s < length (slots l)" for s
    using assms that by (auto simp: level_ok_def)
  then show ?thesis by (auto simp: in_set_conv_nth)
qed

lemma fold_levels:
  assumes "\<forall>l \<in> set ls. occupied l = 0 \<longrightarrow> concat (slots l) = []"
  shows "fold (\<lambda>l m. if occupied l = 0 then m
                     else fold (\<lambda>s m. fold min_deadline s m) (slots l) m) ls m
         = fold min_deadline (concat (map (\<lambda>l. concat (slots l)) ls)) m"
  using assms
proof (induction ls arbitrary: m)
  case Nil
  then show ?case by simp
next
  case (Cons l ls)
  have "fold min_deadline (concat (slots l)) m = (if occupied l = 0 then m
      else fold (\<lambda>s m. fold min_deadline s m) (slots l) m)"
  proof (cases "occupied l = 0")
    case True
    then have "concat (slots l) = []" using Cons.prems by simp
    with True show ?thesis by (simp del: concat_eq_Nil_conv)
  next
    case False
    then show ?thesis by (simp add: fold_concat_eq)
  qed
  with Cons show ?case by simp
qed

lemma next_tick_ok:
  assumes "wheel_inv w"
  shows "next_tick w = (if wheel_entries w = [] then None
                        else Some (Min (deadline ` set (wheel_entries w))))"
proof -
  have "\<forall>l \<in> set (levels w). occupied l = 0 \<longrightarrow> concat (slots l) = []"
    using assms by (metis wheel_inv_def levels_ok_def in_set_conv_nth level_unoccupied)
  then have "next_tick w = (if wheel_entries w = [] then None
      else fold min_deadline (wheel_entries w) None)"
    using wheel_inv_count [OF assms] by (simp add: next_tick_def fold_levels wheel_entries_def)
  then show ?thesis by (simp add: fold_min_deadline_None)
qed

section \<open>Construction and clearing\<close>

lemma level_ok_emptied:
  "length (slots l) = 64 \<Longrightarrow> level_ok c k (l\<lparr>slots := map (\<lambda>_. []) (slots l), occupied := 0\<rparr>)"
  by (simp add: level_ok_def)

lemma wheel_new_ok: "wheel_inv wheel_new" "wheel_entries wheel_new = []"
proof -
  have "concat (map (\<lambda>l. concat (slots l)) (map (\<lambda>_. level_new) [0..<LEVELS])) = []"
    by (auto simp: level_new_def)
  then show "wheel_entries wheel_new = []" by (simp add: wheel_entries_def wheel_new_def)
  then show "wheel_inv wheel_new"
    by (simp add: wheel_inv_def levels_ok_def wheel_new_def LEVELS_def)
      (simp add: level_ok_def level_new_def SLOTS_PER_LEVEL_def)
qed

lemma wheel_clear_ok:
  assumes "wheel_inv w"
  shows "wheel_inv (wheel_clear w)" and "wheel_entries (wheel_clear w) = []"
    and "cursor (wheel_clear w) = cursor w"
proof -
  show ents: "wheel_entries (wheel_clear w) = []" by (auto simp: wheel_entries_def wheel_clear_def)
  then show "wheel_inv (wheel_clear w)"
    using assms by (simp add: wheel_inv_def levels_ok_def)
      (simp add: wheel_clear_def level_ok_emptied level_ok_def)
  show "cursor (wheel_clear w) = cursor w" by (simp add: wheel_clear_def)
qed

section \<open>The interface of the timer queue\<close>

text \<open>
  What \<^verbatim>\<open>time/driver.rs\<close> relies on: a queue of entries ordered by deadline with a clock of its own.
  The laws mention the contents only as a multiset. The lemmas proved from them are the facts the
  driver and the idle loop need: a bounded sleep until \<open>next\<close> misses nothing, advancing in several
  steps delivers what one step would, an inserted entry is delivered exactly when it is due.
\<close>

locale timer_queue =
  fixes tq_insert :: "'w \<Rightarrow> entry \<Rightarrow> ('w \<times> (unit, entry) result) outcome"
    and tq_next :: "'w \<Rightarrow> u64 option"
    and tq_advance :: "'w \<Rightarrow> u64 \<Rightarrow> ('w \<times> entry list) outcome"
    and tq_clear :: "'w \<Rightarrow> 'w"
    and tq_inv :: "'w \<Rightarrow> bool"
    and tq_pending :: "'w \<Rightarrow> entry multiset"
    and tq_now :: "'w \<Rightarrow> u64"
  assumes pending_future: "tq_inv w \<Longrightarrow> e \<in># tq_pending w \<Longrightarrow> tq_now w < deadline e"
    and insert_past: "deadline e \<le> tq_now w \<Longrightarrow> tq_insert w e = Inr (w, Err e)"
    and insert_future: "tq_inv w \<Longrightarrow> in_range (tq_now w) \<Longrightarrow> tq_now w < deadline e \<Longrightarrow>
      \<exists>w'. tq_insert w e = Inr (w', Ok ()) \<and> tq_inv w' \<and> tq_now w' = tq_now w \<and>
        tq_pending w' = add_mset (clamped (tq_now w) e) (tq_pending w)"
    and advance: "tq_inv w \<Longrightarrow> in_range t \<Longrightarrow>
      \<exists>w' ex. tq_advance w t = Inr (w', ex) \<and> tq_inv w' \<and> tq_now w' = max (tq_now w) t \<and>
        mset ex = {#e \<in># tq_pending w. deadline e \<le> t#} \<and>
        tq_pending w' = {#e \<in># tq_pending w. t < deadline e#} \<and> sorted (map deadline ex)"
    and next_eq: "tq_inv w \<Longrightarrow> tq_next w =
      (if tq_pending w = {#} then None else Some (Min (deadline ` set_mset (tq_pending w))))"
    and clear: "tq_inv w \<Longrightarrow> tq_inv (tq_clear w) \<and> tq_pending (tq_clear w) = {#} \<and>
      tq_now (tq_clear w) = tq_now w"
begin

lemma next_None: "tq_inv w \<Longrightarrow> tq_next w = None \<longleftrightarrow> tq_pending w = {#}"
  by (simp add: next_eq)

lemma next_Some_le: "tq_inv w \<Longrightarrow> tq_next w = Some t \<Longrightarrow> e \<in># tq_pending w \<Longrightarrow> t \<le> deadline e"
  by (auto simp: next_eq split: if_splits)

lemma next_Some_attained:
  assumes "tq_inv w" and "tq_next w = Some t"
  obtains e where "e \<in># tq_pending w" and "deadline e = t"
proof -
  have "t \<in> deadline ` set_mset (tq_pending w)"
    using assms Min_in [of "deadline ` set_mset (tq_pending w)"]
    by (auto simp: next_eq split: if_splits)
  then show thesis using that by auto
qed

text \<open>An advance delivers something exactly when it reaches \<open>next\<close>.\<close>

lemma advance_empty_iff:
  assumes "tq_inv w" and "in_range t" and "tq_advance w t = Inr (w', ex)"
  shows "ex = [] \<longleftrightarrow> (case tq_next w of None \<Rightarrow> True | Some d \<Rightarrow> t < d)"
proof -
  have ex: "mset ex = {#e \<in># tq_pending w. deadline e \<le> t#}"
    using advance [OF assms(1,2)] assms(3) by auto
  have "ex = [] \<longleftrightarrow> (\<forall>e \<in># tq_pending w. t < deadline e)"
    using ex by (metis (no_types, lifting) filter_mset_eq_mempty_iff linorder_not_le mset_zero_iff)
  also have "\<dots> \<longleftrightarrow> (case tq_next w of None \<Rightarrow> True | Some d \<Rightarrow> t < d)"
    using assms(1) by (simp add: next_eq)
  finally show ?thesis .
qed

text \<open>Delivery of a freshly inserted entry: not before its (clamped) deadline, and then once.\<close>

lemma insert_delivery:
  assumes "tq_inv w" and "in_range (tq_now w)" and "tq_now w < deadline e" and "in_range t"
    and "tq_insert w e = Inr (w1, r)" and "tq_advance w1 t = Inr (w2, ex)"
  shows "r = Ok ()"
    and "mset ex = (if deadline (clamped (tq_now w) e) \<le> t then {#clamped (tq_now w) e#} else {#}) +
           {#x \<in># tq_pending w. deadline x \<le> t#}"
proof -
  have 1: "r = Ok ()" "tq_inv w1" "tq_pending w1 = add_mset (clamped (tq_now w) e) (tq_pending w)"
    using insert_future [OF assms(1-3)] assms(5) by auto
  then show "r = Ok ()" by simp
  show "mset ex = (if deadline (clamped (tq_now w) e) \<le> t then {#clamped (tq_now w) e#} else {#}) +
      {#x \<in># tq_pending w. deadline x \<le> t#}"
    using advance [OF 1(2) assms(4)] assms(6) 1(3) by auto
qed

end

interpretation wheel_tq: timer_queue wheel_insert next_tick advance_to wheel_clear wheel_inv
  "\<lambda>w. mset (wheel_entries w)" cursor
proof
  show "cursor w < deadline e" if "wheel_inv w" "e \<in># mset (wheel_entries w)" for w e
    using that by (simp add: wheel_inv_future)
  show "\<exists>w'. wheel_insert w e = Inr (w', Ok ()) \<and> wheel_inv w' \<and> cursor w' = cursor w \<and>
      mset (wheel_entries w') = add_mset (clamped (cursor w) e) (mset (wheel_entries w))"
    if "wheel_inv w" "in_range (cursor w)" "cursor w < deadline e" for w e
    using wheel_insert_ok [of "\<lambda>_. unat (cursor w)" w e] that by (metis wheel_inv_def)
qed (simp_all add: wheel_insert_past advance_to_ok next_tick_ok wheel_clear_ok)

section \<open>Reachable wheels\<close>

inductive wheel_reachable :: "wheel \<Rightarrow> bool" where
  reach_new: "wheel_reachable wheel_new"
| reach_insert: "wheel_reachable w \<Longrightarrow> wheel_insert w e = Inr (w', r) \<Longrightarrow> wheel_reachable w'"
| reach_advance: "wheel_reachable w \<Longrightarrow> in_range t \<Longrightarrow> advance_to w t = Inr (w', ex) \<Longrightarrow>
    wheel_reachable w'"
| reach_clear: "wheel_reachable w \<Longrightarrow> wheel_reachable (wheel_clear w)"

lemma in_range_0: "in_range 0"
  by (simp add: in_range_def unat_MAX_TICKS)

lemma in_range_max: "in_range a \<Longrightarrow> in_range b \<Longrightarrow> in_range (max a b)"
  by (simp add: max_def)

lemma wheel_reachable_inv: "wheel_reachable w \<Longrightarrow> wheel_inv w \<and> in_range (cursor w)"
proof (induction rule: wheel_reachable.induct)
  case reach_new
  show ?case using wheel_new_ok(1) in_range_0 by (simp add: wheel_new_def)
next
  case (reach_insert w e w' r)
  show ?case
  proof (cases "cursor w < deadline e")
    case True
    with reach_insert wheel_tq.insert_future [of w e] show ?thesis by auto
  next
    case False
    with reach_insert show ?thesis by (simp add: wheel_insert_past)
  qed
next
  case (reach_advance w t w' ex)
  with wheel_tq.advance [of w t] show ?case by (auto intro: in_range_max)
next
  case (reach_clear w)
  then show ?case by (simp add: wheel_clear_ok)
qed

lemma sample_wheel:
  assumes "0 < d" and "unat d < 2 ^ 36"
  shows "\<exists>w. wheel_insert wheel_new \<lparr>entry_id = i, deadline = d\<rparr> = Inr (w, Ok ()) \<and>
           wheel_reachable w \<and> wheel_inv w \<and> cursor w = 0 \<and>
           mset (wheel_entries w) = {#\<lparr>entry_id = i, deadline = d\<rparr>#}"
proof -
  let ?e = "\<lparr>entry_id = i, deadline = d\<rparr>"
  have "wheel_inv wheel_new" "cursor wheel_new = 0" "wheel_entries wheel_new = []"
    using wheel_new_ok by simp_all (simp add: wheel_new_def)
  moreover have "clamped 0 ?e = ?e"
    using assms(2) clamped_id [OF in_range_0, of ?e] by simp
  ultimately show ?thesis
    using wheel_tq.insert_future [of wheel_new ?e] assms(1) in_range_0
      wheel_reachable.reach_insert [OF reach_new, of ?e] by auto
qed

lemma sample_wheel_70:
  "\<exists>w. wheel_insert wheel_new \<lparr>entry_id = 7, deadline = 70\<rparr> = Inr (w, Ok ()) \<and>
     wheel_reachable w \<and> wheel_inv w \<and>
     mset (wheel_entries w) = {#\<lparr>entry_id = 7, deadline = 70\<rparr>#}"
  using sample_wheel [of 70 7] by auto

section \<open>Properties of the wheel\<close>

text \<open>
  Claim C1. Advancing a well-formed wheel to \<open>now\<close> returns (the tick loop terminates and does not
  panic), delivers exactly the pending entries with deadline \<open>\<le> now\<close>, in deadline order, keeps exactly
  the others, and leaves a well-formed wheel whose cursor is the later of the old cursor and \<open>now\<close>.
\<close>

theorem wheel_advance_exact:
  assumes "wheel_inv w" and "in_range now"
  shows "\<exists>w' ex. advance_to w now = Inr (w', ex) \<and> wheel_inv w' \<and> cursor w' = max (cursor w) now \<and>
           mset ex = {#e \<in># mset (wheel_entries w). deadline e \<le> now#} \<and>
           mset (wheel_entries w') = {#e \<in># mset (wheel_entries w). now < deadline e#} \<and>
           sorted (map deadline ex)"
  using assms by (rule wheel_tq.advance)

theorem wheel_advance_exact_witness:
  "\<exists>w w' ex. wheel_insert wheel_new \<lparr>entry_id = 7, deadline = 70\<rparr> = Inr (w, Ok ()) \<and>
     advance_to w 70 = Inr (w', ex) \<and> map entry_id ex = [7]"
proof -
  obtain w where w: "wheel_insert wheel_new \<lparr>entry_id = 7, deadline = 70\<rparr> = Inr (w, Ok ())"
      "wheel_inv w" "mset (wheel_entries w) = {#\<lparr>entry_id = 7, deadline = 70\<rparr>#}"
    using sample_wheel_70 by blast
  have "in_range 70" by (simp add: in_range_def unat_MAX_TICKS)
  from wheel_advance_exact [OF w(2) this] w show ?thesis by auto
qed

text \<open>
  Claim C31. Inserting an entry whose deadline lies ahead of the cursor succeeds and keeps the wheel
  well-formed; the entry waits with its deadline clamped to the wheel's range of \<open>2^36 - 1\<close> ticks, and
  a later advance delivers it, once and together with whatever else is due, exactly when it reaches
  that clamped deadline. An entry that is already due is handed back and the wheel is unchanged.
\<close>

theorem wheel_insert_delivery:
  assumes "wheel_inv w" and "in_range (cursor w)" and "in_range t"
  shows "if deadline e \<le> cursor w then wheel_insert w e = Inr (w, Err e)
         else \<exists>w1 w2 ex d. wheel_insert w e = Inr (w1, Ok ()) \<and> wheel_inv w1 \<and>
           advance_to w1 t = Inr (w2, ex) \<and>
           unat d = min (unat (deadline e)) (unat (cursor w) + 2 ^ 36 - 1) \<and>
           mset ex = (if d \<le> t then {#e\<lparr>deadline := d\<rparr>#} else {#}) +
             {#x \<in># mset (wheel_entries w). deadline x \<le> t#}"
proof (cases "deadline e \<le> cursor w")
  case True
  then show ?thesis by (simp add: wheel_insert_past)
next
  case False
  then have fut: "cursor w < deadline e" by simp
  let ?d = "deadline (clamped (cursor w) e)"
  obtain w1 where 1: "wheel_insert w e = Inr (w1, Ok ())" "wheel_inv w1"
    using wheel_tq.insert_future [OF assms(1,2) fut] by blast
  obtain w2 ex where 2: "advance_to w1 t = Inr (w2, ex)"
    using wheel_tq.advance [OF 1(2) assms(3)] by blast
  have "clamped (cursor w) e = e\<lparr>deadline := ?d\<rparr>" by (simp add: clamped_def clamp_deadline_def)
  then have "mset ex = (if ?d \<le> t then {#e\<lparr>deadline := ?d\<rparr>#} else {#}) +
      {#x \<in># mset (wheel_entries w). deadline x \<le> t#}"
    using wheel_tq.insert_delivery(2) [OF assms(1,2) fut assms(3) 1(1) 2] by simp
  with False 1 2 unat_clamped [OF assms(2), of e] show ?thesis by auto
qed

theorem wheel_insert_delivery_witness:
  "wheel_insert wheel_new \<lparr>entry_id = 7, deadline = 0\<rparr> =
     Inr (wheel_new, Err \<lparr>entry_id = 7, deadline = 0\<rparr>) \<and>
   (\<exists>w1 w2 ex. wheel_insert wheel_new \<lparr>entry_id = 7, deadline = 70\<rparr> = Inr (w1, Ok ()) \<and>
      advance_to w1 69 = Inr (w2, ex) \<and> ex = [])"
proof -
  have w: "wheel_inv wheel_new" "in_range (cursor wheel_new)" "wheel_entries wheel_new = []"
    using wheel_reachable_inv [OF reach_new] wheel_new_ok by simp_all
  have r: "in_range 69" and c: "cursor wheel_new = 0"
    by (simp_all add: in_range_def unat_MAX_TICKS wheel_new_def)
  show ?thesis
    using wheel_insert_delivery [OF w(1,2) r, of "\<lparr>entry_id = 7, deadline = 0\<rparr>"]
      wheel_insert_delivery [OF w(1,2) r, of "\<lparr>entry_id = 7, deadline = 70\<rparr>"]
    by (auto simp: c w(3) word_le_nat_alt)
qed

text \<open>
  Claim C32. \<open>next_tick\<close> is the earliest pending deadline, or \<open>None\<close> when nothing is pending, although it
  skips the levels whose occupancy mask is zero; and an advance delivers nothing exactly when it
  stops short of it, so sleeping until \<open>next_tick\<close> neither misses a timer nor wakes for none.
\<close>

theorem wheel_next_tick_earliest:
  assumes "wheel_inv w" and "in_range t" and "advance_to w t = Inr (w', ex)"
  shows "next_tick w = (if wheel_entries w = [] then None
           else Some (Min (deadline ` set (wheel_entries w)))) \<and>
         (ex = [] \<longleftrightarrow> (case next_tick w of None \<Rightarrow> True | Some d \<Rightarrow> t < d))"
  using wheel_tq.advance_empty_iff [OF assms] next_tick_ok [OF assms(1)] by simp

theorem wheel_next_tick_earliest_witness:
  "\<exists>w. wheel_insert wheel_new \<lparr>entry_id = 7, deadline = 70\<rparr> = Inr (w, Ok ()) \<and> next_tick w = Some 70"
proof -
  obtain w where w: "wheel_insert wheel_new \<lparr>entry_id = 7, deadline = 70\<rparr> = Inr (w, Ok ())"
      "wheel_inv w" "mset (wheel_entries w) = {#\<lparr>entry_id = 7, deadline = 70\<rparr>#}"
    using sample_wheel_70 by blast
  have r: "in_range 1" by (simp add: in_range_def unat_MAX_TICKS)
  obtain w' ex where "advance_to w 1 = Inr (w', ex)" using wheel_tq.advance [OF w(2) r] by blast
  from wheel_next_tick_earliest [OF w(2) r this] w show ?thesis by auto
qed

text \<open>
  No sequence of insertions, advances and clears panics: in every wheel reachable from
  \<open>Wheel::new\<close> by advancing to in-range ticks, insertion and advancing return, the counters agree with
  the contents, and everything pending lies ahead of the cursor.
\<close>

lemma wheel_reachable_no_panic:
  assumes "wheel_reachable w" and "in_range t"
  shows "(\<exists>w' r. wheel_insert w e = Inr (w', r)) \<and> (\<exists>w' ex. advance_to w t = Inr (w', ex)) \<and>
         count w = length (wheel_entries w) \<and> (\<forall>x \<in># mset (wheel_entries w). cursor w < deadline x)"
proof -
  have w: "wheel_inv w" "in_range (cursor w)" using wheel_reachable_inv [OF assms(1)] by simp_all
  have "\<exists>w' r. wheel_insert w e = Inr (w', r)"
    using wheel_tq.insert_future [OF w, of e] wheel_insert_past [of e w] by (cases "cursor w < deadline e") auto
  then show ?thesis
    using wheel_tq.advance [OF w(1) assms(2)] wheel_inv_count [OF w(1)] wheel_inv_future [OF w(1)] by auto
qed

theorem wheel_reachable_no_panic_witness:
  "\<exists>w w' ex. wheel_insert wheel_new \<lparr>entry_id = 7, deadline = 70\<rparr> = Inr (w, Ok ()) \<and>
     advance_to w 4096 = Inr (w', ex) \<and> count w = 1"
proof -
  obtain w where w: "wheel_insert wheel_new \<lparr>entry_id = 7, deadline = 70\<rparr> = Inr (w, Ok ())"
      "wheel_reachable w" "mset (wheel_entries w) = {#\<lparr>entry_id = 7, deadline = 70\<rparr>#}"
    using sample_wheel_70 by blast
  have "in_range 4096" by (simp add: in_range_def unat_MAX_TICKS)
  from wheel_reachable_no_panic [OF w(2) this] w show ?thesis by auto
qed

end
