(* ===== verification/Driver.thy ===== *)
theory Driver
  imports Wheel
begin

text \<open>
  The timer driver of \<^verbatim>\<open>src/src/time/driver.rs\<close>: the wheel, the map from entry ids to wakers, and the
  translation between instants and ticks. An instant is a number of nanoseconds; \<open>Instant::now()\<close> is
  an argument of the operations that read it. Wakers are opaque; waking one, and waking the reactor,
  are effects the operation returns in the order the code performs them. The inner mutex makes each
  operation atomic, and no operation panics while holding it (\<open>driver_reachable_no_panic\<close>), so the
  lock is never poisoned and is not part of the state.
\<close>

section \<open>Instants and ticks\<close>

definition TICK_NS :: nat where
  "TICK_NS = 1000000"

text \<open>\<open>std::time::Instant\<close> counts seconds in an \<open>i64\<close>; adding past it panics.\<close>

definition INSTANT_LIMIT :: nat where
  "INSTANT_LIMIT = 2 ^ 63 * 10 ^ 9"

definition instant_add :: "nat \<Rightarrow> nat \<Rightarrow> nat outcome" where
  "instant_add t d =
     (if t + d < INSTANT_LIMIT then Inr (t + d)
      else Inl (ExpectFailed ''overflow when adding duration to instant''))"

definition instant_to_tick_ceil :: "nat \<Rightarrow> nat \<Rightarrow> u64" where
  "instant_to_tick_ceil epoch t = u64_saturate (div_ceil (t - epoch) TICK_NS)"

definition instant_to_tick_floor :: "nat \<Rightarrow> nat \<Rightarrow> u64" where
  "instant_to_tick_floor epoch t = u64_saturate ((t - epoch) div TICK_NS)"

definition tick_to_instant :: "nat \<Rightarrow> u64 \<Rightarrow> nat outcome" where
  "tick_to_instant epoch tick = instant_add epoch (unat tick * TICK_NS)"

section \<open>The driver\<close>

record 'w driver =
  timer_wheel :: wheel
  wakers :: "u64 \<rightharpoonup> 'w"
  next_id :: u64
  epoch :: nat

datatype 'w effect = WakeReactor | WakeWaker 'w

definition driver_new :: "nat \<Rightarrow> 'w driver" where
  "driver_new now = \<lparr>timer_wheel = wheel_new, wakers = Map.empty, next_id = 0, epoch = now\<rparr>"

definition driver_register ::
  "'w driver \<Rightarrow> nat \<Rightarrow> 'w \<Rightarrow> ('w driver \<times> 'w effect list \<times> u64 option) outcome" where
  "driver_register d t waker =
     (let deadline_tick = instant_to_tick_ceil (epoch d) t;
          i = next_id d;
          d1 = d\<lparr>next_id := i + 1\<rparr>
      in obind (wheel_insert (timer_wheel d1) \<lparr>entry_id = i, deadline = deadline_tick\<rparr>) (\<lambda>(w, r).
         let d2 = d1\<lparr>timer_wheel := w\<rparr> in
         Inr (case r of
                Ok _ \<Rightarrow> (d2\<lparr>wakers := (wakers d2)(i \<mapsto> waker)\<rparr>, [WakeReactor], Some i)
              | Err _ \<Rightarrow> (d2, [WakeWaker waker], None))))"

definition driver_cancel :: "'w driver \<Rightarrow> u64 \<Rightarrow> 'w driver" where
  "driver_cancel d i = d\<lparr>wakers := (wakers d)(i := None)\<rparr>"

definition next_deadline :: "'w driver \<Rightarrow> nat option outcome" where
  "next_deadline d =
     (case next_tick (timer_wheel d) of
        None \<Rightarrow> Inr None
      | Some tick \<Rightarrow> obind (tick_to_instant (epoch d) tick) (\<lambda>t. Inr (Some t)))"

fun fire_entries :: "entry list \<Rightarrow> (u64 \<rightharpoonup> 'w) \<Rightarrow> 'w list \<times> (u64 \<rightharpoonup> 'w)" where
  "fire_entries [] m = ([], m)"
| "fire_entries (e # es) m =
     (case m (entry_id e) of
        Some w \<Rightarrow> (let (ws, m') = fire_entries es (m(entry_id e := None)) in (w # ws, m'))
      | None \<Rightarrow> fire_entries es m)"

definition driver_advance :: "'w driver \<Rightarrow> nat \<Rightarrow> ('w driver \<times> 'w effect list \<times> nat) outcome" where
  "driver_advance d now =
     (let now_tick = instant_to_tick_floor (epoch d) now in
      obind (advance_to (timer_wheel d) now_tick) (\<lambda>(w, drained).
      let (expired, m) = fire_entries drained (wakers d) in
      Inr (d\<lparr>timer_wheel := w, wakers := m\<rparr>, map WakeWaker expired, length expired)))"

definition driver_clear :: "'w driver \<Rightarrow> 'w driver" where
  "driver_clear d = d\<lparr>timer_wheel := wheel_clear (timer_wheel d), wakers := Map.empty\<rparr>"

section \<open>Rounding\<close>

lemma TICK_NS_pos: "0 < TICK_NS"
  by (simp add: TICK_NS_def)

text \<open>
  The deadline is rounded up and the clock down, so a deadline tick is reached only after the
  deadline has passed, and at the latest one tick after it.
\<close>

lemma tick_reached_imp:
  assumes "instant_to_tick_ceil ep t \<le> instant_to_tick_floor ep now"
    and "unat (instant_to_tick_floor ep now) < 2 ^ 64 - 1" and "ep \<le> now"
  shows "t \<le> now"
proof -
  have fl: "unat (instant_to_tick_floor ep now) = (now - ep) div TICK_NS"
    using assms(2) by (simp add: instant_to_tick_floor_def unat_u64_saturate)
  have "div_ceil (t - ep) TICK_NS \<le> (now - ep) div TICK_NS"
    using assms(1,2) fl
    by (simp add: word_le_nat_alt instant_to_tick_ceil_def unat_u64_saturate)
  then have "t - ep \<le> (now - ep) div TICK_NS * TICK_NS"
    by (simp add: div_ceil_le_iff TICK_NS_pos)
  also have "\<dots> \<le> now - ep" by simp
  finally show ?thesis using assms(3) by simp
qed

lemma tick_reached_if:
  assumes "t + TICK_NS \<le> now + 1"
  shows "instant_to_tick_ceil ep t \<le> instant_to_tick_floor ep now"
proof -
  have "t - ep \<le> (now - ep) div TICK_NS * TICK_NS"
  proof (cases "t \<le> ep")
    case False
    have "now - ep < (now - ep) div TICK_NS * TICK_NS + TICK_NS"
      using dividend_less_div_times [OF TICK_NS_pos, of "now - ep"] by (simp add: add.commute)
    moreover have "t - ep + TICK_NS \<le> Suc (now - ep)" using assms False TICK_NS_pos by simp
    ultimately show ?thesis by simp
  qed simp
  then have "div_ceil (t - ep) TICK_NS \<le> (now - ep) div TICK_NS"
    by (simp add: div_ceil_le_iff TICK_NS_pos)
  then show ?thesis
    by (simp add: word_le_nat_alt instant_to_tick_ceil_def instant_to_tick_floor_def unat_u64_saturate)
qed

lemma tick_to_instant_floor:
  assumes "tick_to_instant ep tick = Inr t"
  shows "instant_to_tick_floor ep t = tick" and "instant_to_tick_ceil ep t = tick"
proof -
  have "t - ep = unat tick * TICK_NS"
    using assms by (auto simp: tick_to_instant_def instant_add_def split: if_splits)
  then show "instant_to_tick_floor ep t = tick" and "instant_to_tick_ceil ep t = tick"
    using TICK_NS_pos unat_u64_less [of tick]
    by (simp_all add: instant_to_tick_floor_def instant_to_tick_ceil_def div_ceil_def u64_saturate_def)
qed

section \<open>Firing\<close>

lemma map_filter_cong: "(\<And>x. x \<in> set xs \<Longrightarrow> f x = g x) \<Longrightarrow> List.map_filter f xs = List.map_filter g xs"
  by (induction xs) (auto split: option.splits)

lemma fire_entries_eq:
  "distinct (map entry_id es) \<Longrightarrow>
     fire_entries es m = (List.map_filter (\<lambda>e. m (entry_id e)) es,
                          \<lambda>i. if i \<in> entry_id ` set es then None else m i)"
proof (induction es arbitrary: m)
  case Nil
  then show ?case by simp
next
  case (Cons e es)
  have "List.map_filter (\<lambda>x. (m(entry_id e := None)) (entry_id x)) es =
      List.map_filter (\<lambda>x. m (entry_id x)) es"
    using Cons.prems by (intro map_filter_cong) (metis distinct.simps(2) fun_upd_other imageI list.simps(9) set_map)
  with Cons show ?case
    by (auto simp: fun_eq_iff split: option.splits)
qed

lemma mset_map_filter:
  "mset (List.map_filter f xs) = image_mset (\<lambda>x. the (f x)) {#x \<in># mset xs. f x \<noteq> None#}"
  by (simp add: List.map_filter_def comp_def)

section \<open>Invariant\<close>

text \<open>
  The ids of the entries in the wheel are distinct and were all handed out before, and every stored
  waker belongs to an entry of the wheel. The converse fails on purpose: a cancelled entry stays in
  the wheel without a waker.
\<close>

abbreviation pending_entries :: "'w driver \<Rightarrow> entry list" where
  "pending_entries d \<equiv> wheel_entries (timer_wheel d)"

abbreviation driver_cursor :: "'w driver \<Rightarrow> u64" where
  "driver_cursor d \<equiv> cursor (timer_wheel d)"

definition driver_inv :: "'w driver \<Rightarrow> bool" where
  "driver_inv d \<longleftrightarrow>
     wheel_inv (timer_wheel d) \<and> in_range (driver_cursor d) \<and>
     distinct (map entry_id (pending_entries d)) \<and>
     (\<forall>e \<in> set (pending_entries d). entry_id e < next_id d) \<and>
     dom (wakers d) \<subseteq> entry_id ` set (pending_entries d)"

lemma driver_new_inv: "driver_inv (driver_new now)"
  using wheel_new_ok wheel_reachable_inv [OF reach_new] by (simp add: driver_inv_def driver_new_def)

lemma driver_cancel_inv: "driver_inv d \<Longrightarrow> driver_inv (driver_cancel d i)"
  by (auto simp: driver_inv_def driver_cancel_def)

lemma driver_clear_inv: "driver_inv d \<Longrightarrow> driver_inv (driver_clear d)"
  using wheel_clear_ok [of "timer_wheel d"] by (simp add: driver_inv_def driver_clear_def)

lemma driver_register_past:
  assumes "driver_inv d" and "instant_to_tick_ceil (epoch d) t \<le> driver_cursor d"
    and "unat (next_id d) + 1 < 2 ^ 64"
  shows "driver_register d t w = Inr (d\<lparr>next_id := next_id d + 1\<rparr>, [WakeWaker w], None)"
    and "driver_inv (d\<lparr>next_id := next_id d + 1\<rparr>)"
proof -
  show "driver_register d t w = Inr (d\<lparr>next_id := next_id d + 1\<rparr>, [WakeWaker w], None)"
    using assms(2) by (simp add: driver_register_def wheel_insert_past Let_def)
  have "next_id d < next_id d + 1"
    using assms(3) unat_plus_word [of "next_id d" 1] by (simp add: word_less_nat_alt)
  then show "driver_inv (d\<lparr>next_id := next_id d + 1\<rparr>)"
    using assms(1) by (auto simp: driver_inv_def)
qed

lemma driver_register_future:
  assumes inv: "driver_inv d" and fut: "driver_cursor d < instant_to_tick_ceil (epoch d) t"
    and ids: "unat (next_id d) + 1 < 2 ^ 64"
  obtains wh where
    "driver_register d t w = Inr (d\<lparr>timer_wheel := wh, wakers := (wakers d)(next_id d \<mapsto> w),
       next_id := next_id d + 1\<rparr>, [WakeReactor], Some (next_id d))"
    and "driver_inv (d\<lparr>timer_wheel := wh, wakers := (wakers d)(next_id d \<mapsto> w),
       next_id := next_id d + 1\<rparr>)"
    and "cursor wh = driver_cursor d"
    and "mset (wheel_entries wh) = add_mset (clamped (driver_cursor d)
       \<lparr>entry_id = next_id d, deadline = instant_to_tick_ceil (epoch d) t\<rparr>) (mset (pending_entries d))"
proof -
  let ?e = "\<lparr>entry_id = next_id d, deadline = instant_to_tick_ceil (epoch d) t\<rparr>"
  obtain wh where wh: "wheel_insert (timer_wheel d) ?e = Inr (wh, Ok ())" "wheel_inv wh"
      "cursor wh = driver_cursor d"
      "mset (wheel_entries wh) = add_mset (clamped (driver_cursor d) ?e) (mset (pending_entries d))"
    using wheel_tq.insert_future [of "timer_wheel d" ?e] inv fut by (auto simp: driver_inv_def)
  let ?d = "d\<lparr>timer_wheel := wh, wakers := (wakers d)(next_id d \<mapsto> w), next_id := next_id d + 1\<rparr>"
  have reg: "driver_register d t w = Inr (?d, [WakeReactor], Some (next_id d))"
    using wh(1) by (simp add: driver_register_def Let_def)
  have eid: "entry_id (clamped (driver_cursor d) ?e) = next_id d"
    by (simp add: clamped_def clamp_deadline_def)
  have ents: "set (wheel_entries wh) = insert (clamped (driver_cursor d) ?e) (set (pending_entries d))"
    using wh(4) by (metis set_mset_add_mset_insert set_mset_mset)
  have old: "\<forall>e \<in> set (pending_entries d). entry_id e < next_id d"
    and less: "next_id d < next_id d + 1"
    using inv ids unat_plus_word [of "next_id d" 1] by (auto simp: driver_inv_def word_less_nat_alt)
  have "mset (map entry_id (wheel_entries wh)) = mset (next_id d # map entry_id (pending_entries d))"
    using wh(4) eid by simp
  then have "distinct (map entry_id (wheel_entries wh)) =
      distinct (next_id d # map entry_id (pending_entries d))" by (rule mset_eq_imp_distinct_iff)
  then have "distinct (map entry_id (wheel_entries wh))"
    using inv old by (auto simp: driver_inv_def)
  moreover have "\<forall>e \<in> set (wheel_entries wh). entry_id e < next_id d + 1"
    using old less eid unfolding ents by (metis insertE less_trans)
  moreover have "dom (wakers ?d) \<subseteq> entry_id ` set (wheel_entries wh)"
    using inv eid unfolding ents driver_inv_def by auto
  ultimately have "driver_inv ?d"
    using inv wh(2,3) by (simp add: driver_inv_def)
  with reg wh(3,4) that show thesis by blast
qed

lemma driver_register_Some:
  assumes inv: "driver_inv d" and ids: "unat (next_id d) + 1 < 2 ^ 64"
    and reg: "driver_register d t w = Inr (d1, effs, Some i)"
  obtains wh where "d1 = d\<lparr>timer_wheel := wh, wakers := (wakers d)(next_id d \<mapsto> w),
        next_id := next_id d + 1\<rparr>"
    and "driver_inv d1" and "effs = [WakeReactor]" and "i = next_id d"
    and "mset (wheel_entries wh) = add_mset (clamped (driver_cursor d)
       \<lparr>entry_id = next_id d, deadline = instant_to_tick_ceil (epoch d) t\<rparr>) (mset (pending_entries d))"
    and "driver_cursor d < instant_to_tick_ceil (epoch d) t"
proof -
  have "\<not> instant_to_tick_ceil (epoch d) t \<le> driver_cursor d"
    using driver_register_past(1) [OF inv _ ids, of t w] reg by auto
  then have fut: "driver_cursor d < instant_to_tick_ceil (epoch d) t" by (simp add: not_le)
  show thesis
  proof (rule driver_register_future [OF inv fut ids, of w])
    fix wh
    assume a: "driver_register d t w = Inr (d\<lparr>timer_wheel := wh, wakers := (wakers d)(next_id d \<mapsto> w),
       next_id := next_id d + 1\<rparr>, [WakeReactor], Some (next_id d))"
      "driver_inv (d\<lparr>timer_wheel := wh, wakers := (wakers d)(next_id d \<mapsto> w),
       next_id := next_id d + 1\<rparr>)"
      "mset (wheel_entries wh) = add_mset (clamped (driver_cursor d)
       \<lparr>entry_id = next_id d, deadline = instant_to_tick_ceil (epoch d) t\<rparr>) (mset (pending_entries d))"
    show thesis using a reg fut by (intro that [of wh]) simp_all
  qed
qed

lemma driver_advance_ok:
  assumes inv: "driver_inv d" and range: "in_range (instant_to_tick_floor (epoch d) now)"
  obtains d' ws where "driver_advance d now = Inr (d', map WakeWaker ws, length ws)"
    and "driver_inv d'" and "epoch d' = epoch d" and "next_id d' = next_id d"
    and "mset (pending_entries d') =
      {#e \<in># mset (pending_entries d). instant_to_tick_floor (epoch d) now < deadline e#}"
    and "mset ws = image_mset (\<lambda>e. the (wakers d (entry_id e)))
      {#e \<in># mset (pending_entries d).
         deadline e \<le> instant_to_tick_floor (epoch d) now \<and> wakers d (entry_id e) \<noteq> None#}"
    and "wakers d' = (\<lambda>i. if \<exists>e \<in> set (pending_entries d). entry_id e = i \<and>
        deadline e \<le> instant_to_tick_floor (epoch d) now then None else wakers d i)"
proof -
  let ?t = "instant_to_tick_floor (epoch d) now"
  obtain wh ex where adv: "advance_to (timer_wheel d) ?t = Inr (wh, ex)"
    and wh: "wheel_inv wh" "cursor wh = max (driver_cursor d) ?t"
      "mset (wheel_entries wh) = {#e \<in># mset (pending_entries d). ?t < deadline e#}"
    and ex: "mset ex = {#e \<in># mset (pending_entries d). deadline e \<le> ?t#}"
    using wheel_tq.advance [of "timer_wheel d" ?t] inv range by (auto simp: driver_inv_def)
  have dist: "distinct (map entry_id (pending_entries d))" using inv by (simp add: driver_inv_def)
  have "mset (ex @ wheel_entries wh) = mset (pending_entries d)"
    using ex wh(3) multiset_partition [of "mset (pending_entries d)" "\<lambda>e. deadline e \<le> ?t"]
    by (simp add: not_le)
  then have "mset (map entry_id (ex @ wheel_entries wh)) = mset (map entry_id (pending_entries d))"
    by (metis mset_map)
  then have dists: "distinct (map entry_id (ex @ wheel_entries wh))"
    using dist by (metis mset_eq_imp_distinct_iff)
  have sex: "set ex = {e \<in> set (pending_entries d). deadline e \<le> ?t}"
    and swh: "set (wheel_entries wh) = {e \<in> set (pending_entries d). ?t < deadline e}"
    using arg_cong [OF ex, of set_mset] arg_cong [OF wh(3), of set_mset] by auto
  let ?ws = "List.map_filter (\<lambda>e. wakers d (entry_id e)) ex"
  let ?m = "\<lambda>i. if i \<in> entry_id ` set ex then None else wakers d i"
  let ?d = "d\<lparr>timer_wheel := wh, wakers := ?m\<rparr>"
  have "driver_advance d now = Inr (?d, map WakeWaker ?ws, length ?ws)"
    using adv dists by (simp add: driver_advance_def fire_entries_eq)
  moreover have "dom ?m \<subseteq> entry_id ` set (wheel_entries wh)"
  proof
    fix i assume "i \<in> dom ?m"
    then have i: "i \<notin> entry_id ` set ex" "i \<in> dom (wakers d)" by (auto split: if_splits)
    then obtain e where e: "e \<in> set (pending_entries d)" "entry_id e = i"
      using inv by (auto simp: driver_inv_def)
    with i(1) have "\<not> deadline e \<le> ?t" unfolding sex by auto
    with e show "i \<in> entry_id ` set (wheel_entries wh)" unfolding swh by (auto simp: not_le)
  qed
  then have "driver_inv ?d"
    using inv wh(1,2) range dists swh by (auto simp: driver_inv_def intro: in_range_max)
  moreover have "mset ?ws = image_mset (\<lambda>e. the (wakers d (entry_id e)))
      {#e \<in># mset (pending_entries d). deadline e \<le> ?t \<and> wakers d (entry_id e) \<noteq> None#}"
    by (simp add: mset_map_filter ex filter_filter_mset)
  moreover have "?m = (\<lambda>i. if \<exists>e \<in> set (pending_entries d). entry_id e = i \<and> deadline e \<le> ?t
      then None else wakers d i)" unfolding sex by (auto simp: fun_eq_iff)
  ultimately show thesis using that [of ?d ?ws] wh(3) by simp
qed

section \<open>Ownership of wakers\<close>

definition timer_wakers :: "'w driver \<Rightarrow> 'w multiset" where
  "timer_wakers d = image_mset (\<lambda>e. the (wakers d (entry_id e)))
     {#e \<in># mset (pending_entries d). wakers d (entry_id e) \<noteq> None#}"

text \<open>Advancing neither loses nor duplicates a waker: those not woken belong to timers still pending.\<close>

lemma driver_advance_conserves:
  assumes inv: "driver_inv d"
    and pend: "mset (pending_entries d') = {#e \<in># mset (pending_entries d). t < deadline e#}"
    and wk: "wakers d' = (\<lambda>i. if \<exists>e \<in> set (pending_entries d). entry_id e = i \<and> deadline e \<le> t then None else wakers d i)"
  shows "image_mset (\<lambda>e. the (wakers d (entry_id e))) {#e \<in># mset (pending_entries d).
     deadline e \<le> t \<and> wakers d (entry_id e) \<noteq> None#} + timer_wakers d' = timer_wakers d"
proof -
  let ?M = "mset (pending_entries d)" and ?g = "\<lambda>d e. the (wakers d (entry_id e))"
  have inj: "inj_on entry_id (set (pending_entries d))" using inv by (simp add: driver_inv_def distinct_map)
  have same: "wakers d' (entry_id e) = wakers d (entry_id e)" if "e \<in># ?M" "t < deadline e" for e
  proof -
    have "\<not> (\<exists>x \<in> set (pending_entries d). entry_id x = entry_id e \<and> deadline x \<le> t)"
      using that inj_onD [OF inj, of _ e] by fastforce
    then show ?thesis unfolding wk by (auto simp del: bex_simps)
  qed
  have "timer_wakers d' = image_mset (?g d') {#e \<in># {#e \<in># ?M. t < deadline e#}. wakers d' (entry_id e) \<noteq> None#}"
    by (simp add: timer_wakers_def pend)
  also have "\<dots> = image_mset (?g d) {#e \<in># {#e \<in># ?M. t < deadline e#}. wakers d (entry_id e) \<noteq> None#}"
  proof -
    have "{#e \<in># {#e \<in># ?M. t < deadline e#}. wakers d' (entry_id e) \<noteq> None#} =
        {#e \<in># {#e \<in># ?M. t < deadline e#}. wakers d (entry_id e) \<noteq> None#}"
      by (rule filter_mset_cong) (simp_all add: same)
    then show ?thesis by simp (rule image_mset_cong, simp add: same)
  qed
  finally show ?thesis
    using multiset_partition [of "{#e \<in># ?M. wakers d (entry_id e) \<noteq> None#}" "\<lambda>e. deadline e \<le> t"]
    by (simp add: timer_wakers_def filter_filter_mset conj_commute not_le flip: image_mset_union)
qed

section \<open>Reachable drivers\<close>

text \<open>
  Ids are handed out by a wrapping counter; registration is part of the reachable behaviour as long
  as it has not wrapped, that is for the first \<open>2^64 - 1\<close> timers.
\<close>

inductive driver_reachable :: "'w driver \<Rightarrow> bool" where
  reach_driver_new: "driver_reachable (driver_new now)"
| reach_register: "driver_reachable d \<Longrightarrow> unat (next_id d) + 1 < 2 ^ 64 \<Longrightarrow>
    driver_register d t w = Inr (d', effs, r) \<Longrightarrow> driver_reachable d'"
| reach_cancel: "driver_reachable d \<Longrightarrow> driver_reachable (driver_cancel d i)"
| reach_driver_advance: "driver_reachable d \<Longrightarrow> in_range (instant_to_tick_floor (epoch d) now) \<Longrightarrow>
    driver_advance d now = Inr (d', effs, n) \<Longrightarrow> driver_reachable d'"
| reach_driver_clear: "driver_reachable d \<Longrightarrow> driver_reachable (driver_clear d)"

lemma driver_register_total:
  assumes "driver_inv d" and "unat (next_id d) + 1 < 2 ^ 64"
  obtains d' effs r where "driver_register d t w = Inr (d', effs, r)" and "driver_inv d'"
proof (cases "instant_to_tick_ceil (epoch d) t \<le> driver_cursor d")
  case True
  then show thesis using driver_register_past [OF assms(1) True assms(2)] that by blast
next
  case False
  then show thesis using driver_register_future [OF assms(1) _ assms(2), of t w] that by (metis not_le)
qed

lemma driver_reachable_inv: "driver_reachable d \<Longrightarrow> driver_inv d"
proof (induction rule: driver_reachable.induct)
  case (reach_register d t w d' effs r)
  with driver_register_total [of d t w] show ?case by (metis Inr_inject Pair_inject)
next
  case (reach_driver_advance d now d' effs n)
  with driver_advance_ok [of d now] show ?case by (metis Inr_inject Pair_inject)
qed (simp_all add: driver_new_inv driver_cancel_inv driver_clear_inv)

lemma next_deadline_bound:
  assumes "driver_inv d" and "next_deadline d = Inr (Some t)" and "epoch d \<le> now"
    and "in_range (instant_to_tick_floor (epoch d) now)"
  shows "t \<le> now \<longleftrightarrow> (\<exists>e \<in> set (pending_entries d). deadline e \<le> instant_to_tick_floor (epoch d) now)"
proof -
  let ?f = "instant_to_tick_floor (epoch d) now"
  obtain k where k: "next_tick (timer_wheel d) = Some k" "tick_to_instant (epoch d) k = Inr t"
    using assms(2) by (auto simp: next_deadline_def outcome_simps split: option.splits)
  have inv: "wheel_inv (timer_wheel d)" using assms(1) by (simp add: driver_inv_def)
  have "t = epoch d + unat k * TICK_NS"
    using k(2) by (auto simp: tick_to_instant_def instant_add_def split: if_splits)
  moreover have "unat ?f = (now - epoch d) div TICK_NS"
    using assms(4) by (simp add: in_range_def instant_to_tick_floor_def unat_u64_saturate unat_MAX_TICKS)
  ultimately have "t \<le> now \<longleftrightarrow> k \<le> ?f"
    using assms(3) TICK_NS_pos
    by (simp add: word_le_nat_alt less_eq_div_iff_mult_less_eq le_diff_conv2 add.commute)
  also have "\<dots> \<longleftrightarrow> (\<exists>e \<in> set (pending_entries d). deadline e \<le> ?f)"
    using wheel_tq.next_Some_le [OF inv k(1)] wheel_tq.next_Some_attained [OF inv k(1)]
    by (metis order_trans set_mset_mset)
  finally show ?thesis .
qed

lemma sample_driver:
  "\<exists>d. driver_register (driver_new 0) 70000000 w = Inr (d, [WakeReactor], Some 0) \<and>
     driver_inv d \<and> wakers d = [0 \<mapsto> w] \<and> epoch d = 0 \<and> next_id d = 1 \<and> driver_cursor d = 0 \<and>
     mset (pending_entries d) = {#\<lparr>entry_id = 0, deadline = 70\<rparr>#}"
proof -
  let ?d = "driver_new 0"
  have d: "driver_cursor ?d = 0" "epoch ?d = 0" "next_id ?d = 0" "wakers ?d = Map.empty"
      "pending_entries ?d = []"
    using wheel_new_ok(2) by (simp_all add: driver_new_def) (simp add: wheel_new_def)
  have tick: "instant_to_tick_ceil 0 70000000 = 70"
    by (simp add: instant_to_tick_ceil_def u64_saturate_def div_ceil_def TICK_NS_def)
  have clamp: "clamped 0 \<lparr>entry_id = 0, deadline = 70\<rparr> = \<lparr>entry_id = 0, deadline = 70\<rparr>"
    by (rule clamped_id [OF in_range_0]) simp
  have fut: "driver_cursor ?d < instant_to_tick_ceil (epoch ?d) 70000000"
    and ids: "unat (next_id ?d) + 1 < 2 ^ 64" by (simp_all add: d tick)
  show ?thesis
    by (rule driver_register_future [OF driver_new_inv fut ids, of w])
      (auto simp: d tick clamp)
qed

lemma in_range_floor: "now div TICK_NS < 2 ^ 63 \<Longrightarrow> in_range (instant_to_tick_floor 0 now)"
  by (simp add: in_range_def instant_to_tick_floor_def unat_u64_saturate unat_MAX_TICKS)

text \<open>
  Cancelling commutes with advancing, and takes the cancelled timer's waker out of what is fired.
\<close>

lemma filter_mset_entry_id:
  assumes "distinct (map entry_id es)" and "x \<in> set es"
  shows "{#e \<in># mset es. entry_id e = entry_id x \<and> P e#} = (if P x then {#x#} else {#})"
  using assms by (induction es) (auto simp: image_iff)

lemma due_split:
  assumes "driver_inv d" and "wakers d i = Some w"
  shows "image_mset (\<lambda>e. the (wakers d (entry_id e)))
       {#e \<in># mset (pending_entries d). entry_id e = i \<and> deadline e \<le> k \<and> wakers d (entry_id e) \<noteq> None#} =
     (if \<exists>e \<in> set (pending_entries d). entry_id e = i \<and> deadline e \<le> k then {#w#} else {#})"
proof -
  have dist: "distinct (map entry_id (pending_entries d))" using assms(1) by (simp add: driver_inv_def)
  obtain x where x: "x \<in> set (pending_entries d)" "entry_id x = i"
    using assms by (auto simp: driver_inv_def)
  have "(\<exists>e \<in> set (pending_entries d). entry_id e = i \<and> deadline e \<le> k) \<longleftrightarrow> deadline x \<le> k"
    using x dist by (metis distinct_map inj_onD)
  then show ?thesis
    using filter_mset_entry_id [OF dist x(1), of "\<lambda>e. deadline e \<le> k \<and> wakers d (entry_id e) \<noteq> None"]
      x(2) assms(2) by simp
qed

lemma driver_cancel_due:
  assumes "driver_inv d"
  shows "image_mset (\<lambda>e. the (wakers d (entry_id e)))
       {#e \<in># mset (pending_entries d). deadline e \<le> k \<and> wakers d (entry_id e) \<noteq> None#} =
     image_mset (\<lambda>e. the (wakers (driver_cancel d i) (entry_id e)))
       {#e \<in># mset (pending_entries d). deadline e \<le> k \<and> wakers (driver_cancel d i) (entry_id e) \<noteq> None#} +
     (case wakers d i of None \<Rightarrow> {#}
      | Some w \<Rightarrow> if \<exists>e \<in> set (pending_entries d). entry_id e = i \<and> deadline e \<le> k then {#w#} else {#})"
  (is "_ = ?rest + ?gone")
proof -
  let ?A = "{#e \<in># mset (pending_entries d). deadline e \<le> k \<and> wakers d (entry_id e) \<noteq> None#}"
  let ?f = "\<lambda>e. the (wakers d (entry_id e))"
  have "?A = {#e \<in># ?A. entry_id e \<noteq> i#} + {#e \<in># ?A. entry_id e = i#}"
    using multiset_partition [of ?A "\<lambda>e. entry_id e \<noteq> i"] by simp
  then have "image_mset ?f ?A = image_mset ?f {#e \<in># ?A. entry_id e \<noteq> i#} + image_mset ?f {#e \<in># ?A. entry_id e = i#}"
    by (metis image_mset_union)
  moreover have "image_mset ?f {#e \<in># ?A. entry_id e \<noteq> i#} = ?rest"
  proof -
    have "{#e \<in># ?A. entry_id e \<noteq> i#} = {#e \<in># mset (pending_entries d).
        deadline e \<le> k \<and> wakers (driver_cancel d i) (entry_id e) \<noteq> None#}" (is "_ = ?B")
      unfolding filter_filter_mset by (rule filter_mset_cong) (auto simp: driver_cancel_def)
    moreover have "image_mset ?f ?B = ?rest"
      by (rule image_mset_cong) (auto simp: driver_cancel_def split: if_splits)
    ultimately show ?thesis by simp
  qed
  moreover have "image_mset ?f {#e \<in># ?A. entry_id e = i#} = ?gone"
  proof (cases "wakers d i")
    case None
    then show ?thesis by (auto simp: filter_filter_mset)
  next
    case (Some w)
    then show ?thesis using due_split [OF assms Some, of k] by (simp add: filter_filter_mset conj_commute conj_left_commute)
  qed
  ultimately show ?thesis by simp
qed

lemma driver_cancel_advance:
  assumes "driver_inv d" and "in_range (instant_to_tick_floor (epoch d) now)"
  shows "\<exists>d' ws ws'. driver_advance d now = Inr (d', map WakeWaker ws, length ws) \<and>
     driver_advance (driver_cancel d i) now = Inr (driver_cancel d' i, map WakeWaker ws', length ws') \<and>
     mset ws = mset ws' + (case wakers d i of None \<Rightarrow> {#}
       | Some w \<Rightarrow> if \<exists>e \<in> set (pending_entries d). entry_id e = i \<and>
             deadline e \<le> instant_to_tick_floor (epoch d) now then {#w#} else {#})"
proof -
  let ?c = "driver_cancel d i" and ?k = "instant_to_tick_floor (epoch d) now"
  have c: "epoch ?c = epoch d" "timer_wheel ?c = timer_wheel d" by (simp_all add: driver_cancel_def)
  obtain d' ws where a: "driver_advance d now = Inr (d', map WakeWaker ws, length ws)"
    "mset ws = image_mset (\<lambda>e. the (wakers d (entry_id e)))
       {#e \<in># mset (pending_entries d). deadline e \<le> ?k \<and> wakers d (entry_id e) \<noteq> None#}"
    "wakers d' = (\<lambda>i. if \<exists>e \<in> set (pending_entries d). entry_id e = i \<and> deadline e \<le> ?k
       then None else wakers d i)" "epoch d' = epoch d" "next_id d' = next_id d"
    by (rule driver_advance_ok [OF assms]) (rule that)
  obtain d2 ws' where b: "driver_advance ?c now = Inr (d2, map WakeWaker ws', length ws')"
    "mset ws' = image_mset (\<lambda>e. the (wakers ?c (entry_id e)))
       {#e \<in># mset (pending_entries d). deadline e \<le> ?k \<and> wakers ?c (entry_id e) \<noteq> None#}"
    "wakers d2 = (\<lambda>i. if \<exists>e \<in> set (pending_entries d). entry_id e = i \<and> deadline e \<le> ?k
       then None else wakers ?c i)" "epoch d2 = epoch d" "next_id d2 = next_id ?c"
    by (rule driver_advance_ok [OF driver_cancel_inv [OF assms(1)], of i now, unfolded c])
      (rule assms(2), rule that)
  have "timer_wheel d2 = timer_wheel d'"
    using a(1) b(1) by (auto simp: driver_advance_def c Let_def obind_def split: sum.splits prod.splits)
  moreover have "wakers d2 = wakers (driver_cancel d' i)"
  proof
    fix x
    show "wakers d2 x = wakers (driver_cancel d' i) x"
      unfolding b(3) driver_cancel_def by (cases "x = i") (auto simp: a(3))
  qed
  ultimately have "d2 = driver_cancel d' i"
    using a(4,5) b(4,5) by (intro driver.equality) (simp_all add: driver_cancel_def)
  then show ?thesis
    using a(1) b(1) driver_cancel_due [OF assms(1), of ?k i, folded a(2) b(2)]
    by (intro exI [of _ d'] exI [of _ ws] exI [of _ ws'] conjI) simp_all
qed

lemma next_deadline_total:
  assumes "epoch d + 2 ^ 64 * TICK_NS \<le> INSTANT_LIMIT"
  obtains r where "next_deadline d = Inr r"
proof (cases "next_tick (timer_wheel d)")
  case (Some k)
  have "unat k * TICK_NS < 2 ^ 64 * TICK_NS"
    by (rule mult_strict_right_mono [OF unat_u64_less TICK_NS_pos])
  with assms have "epoch d + unat k * TICK_NS < INSTANT_LIMIT" by linarith
  then have "tick_to_instant (epoch d) k = Inr (epoch d + unat k * TICK_NS)"
    by (simp add: tick_to_instant_def instant_add_def)
  then show thesis using that Some by (simp add: next_deadline_def)
qed (use that in \<open>simp add: next_deadline_def\<close>)

section \<open>Properties of the driver\<close>

text \<open>
  Advancing the driver to \<open>now\<close> returns; it wakes exactly the wakers of the entries that are
  due and were not cancelled, each once, reports their number, forgets them, keeps every other timer,
  and preserves the driver's invariant.
\<close>

lemma driver_advance_fires:
  assumes "driver_inv d" and "in_range (instant_to_tick_floor (epoch d) now)"
  shows "\<exists>d' ws. driver_advance d now = Inr (d', map WakeWaker ws, length ws) \<and> driver_inv d' \<and>
     mset ws = image_mset (\<lambda>e. the (wakers d (entry_id e)))
       {#e \<in># mset (pending_entries d).
          deadline e \<le> instant_to_tick_floor (epoch d) now \<and> wakers d (entry_id e) \<noteq> None#} \<and>
     wakers d' = (\<lambda>i. if \<exists>e \<in> set (pending_entries d). entry_id e = i \<and>
        deadline e \<le> instant_to_tick_floor (epoch d) now then None else wakers d i) \<and>
     mset (pending_entries d') =
       {#e \<in># mset (pending_entries d). instant_to_tick_floor (epoch d) now < deadline e#}"
proof -
  show ?thesis by (rule driver_advance_ok [OF assms]) blast
qed

theorem driver_advance_fires_witness:
  "\<exists>d d'. driver_register (driver_new 0) 70000000 ''w'' = Inr (d, [WakeReactor], Some 0) \<and>
     driver_advance d 71000000 = Inr (d', [WakeWaker ''w''], 1)"
proof -
  obtain d where d: "driver_register (driver_new 0) 70000000 ''w'' = Inr (d, [WakeReactor], Some 0)"
      "driver_inv d" "wakers d = [0 \<mapsto> ''w'']" "epoch d = 0"
      "mset (pending_entries d) = {#\<lparr>entry_id = 0, deadline = 70\<rparr>#}" using sample_driver [of "''w''"] by blast
  have r: "in_range (instant_to_tick_floor (epoch d) 71000000)"
    unfolding d(4) by (rule in_range_floor) (simp add: TICK_NS_def)
  have t: "instant_to_tick_floor 0 71000000 = 71"
    by (simp add: instant_to_tick_floor_def u64_saturate_def TICK_NS_def)
  obtain d' ws where adv: "driver_advance d 71000000 = Inr (d', map WakeWaker ws, length ws)"
    and "mset ws = image_mset (\<lambda>e. the (wakers d (entry_id e)))
       {#e \<in># mset (pending_entries d).
          deadline e \<le> instant_to_tick_floor (epoch d) 71000000 \<and> wakers d (entry_id e) \<noteq> None#}"
    using driver_advance_fires [OF d(2) r] by metis
  then have "mset ws = {#''w''#}" by (simp add: d t)
  then have "ws = [''w'']" by (simp only: mset_single_iff)
  with adv d(1) show ?thesis by auto
qed

text \<open>
  What an advance does to one pending entry: its waker leaves the table exactly when its deadline
  is due, and is then among the wakers handed out.
\<close>

lemma driver_advance_entry:
  assumes "driver_inv d" and "e \<in> set (pending_entries d)" and "wakers d (entry_id e) = Some w"
    and "in_range (instant_to_tick_floor (epoch d) now)"
    and "driver_advance d now = Inr (d', effs, n)"
  shows "wakers d' (entry_id e) = None \<longleftrightarrow> deadline e \<le> instant_to_tick_floor (epoch d) now"
    and "deadline e \<le> instant_to_tick_floor (epoch d) now \<Longrightarrow> WakeWaker w \<in> set effs"
proof -
  let ?f = "instant_to_tick_floor (epoch d) now"
  let ?due = "{#e \<in># mset (pending_entries d). deadline e \<le> ?f \<and> wakers d (entry_id e) \<noteq> None#}"
  obtain d2 ws where adv: "driver_advance d now = Inr (d2, map WakeWaker ws, length ws)"
    and ws: "mset ws = image_mset (\<lambda>e. the (wakers d (entry_id e))) ?due"
    and left: "wakers d2 = (\<lambda>i. if \<exists>e \<in> set (pending_entries d). entry_id e = i \<and> deadline e \<le> ?f
       then None else wakers d i)"
    by (rule driver_advance_ok [OF assms(1,4)]) (rule that)
  have eq: "d' = d2" "effs = map WakeWaker ws" using adv assms(5) by auto
  have only: "x = e" if "x \<in> set (pending_entries d)" "entry_id x = entry_id e" for x
    using that assms(1,2) by (auto simp: driver_inv_def distinct_map inj_on_def)
  show "wakers d' (entry_id e) = None \<longleftrightarrow> deadline e \<le> ?f"
    unfolding eq(1) left using assms(2,3) only by auto
  assume "deadline e \<le> ?f"
  then have "e \<in># ?due" using assms(2,3) by simp
  then have "the (wakers d (entry_id e)) \<in># mset ws"
    unfolding ws set_image_mset by (rule imageI)
  then show "WakeWaker w \<in> set effs" using assms(3) eq(2) by simp
qed

text \<open>
  Claim C9. A timer registered for instant \<open>t\<close> within the wheel's range is never fired by an advance
  before \<open>t\<close>, and is fired by every advance at least one tick minus a nanosecond after \<open>t\<close>; registering it
  wakes the reactor and stores its waker under the returned id.
\<close>

theorem driver_timer_window:
  assumes "driver_inv d" and "unat (next_id d) + 1 < 2 ^ 64"
    and "driver_register d t w = Inr (d1, effs, Some i)"
    and "unat (instant_to_tick_ceil (epoch d) t) < unat (driver_cursor d) + 2 ^ 36"
    and "driver_advance d1 now = Inr (d2, effs2, n)"
    and "in_range (instant_to_tick_floor (epoch d) now)" and "epoch d \<le> now"
  shows "effs = [WakeReactor] \<and> wakers d1 i = Some w \<and>
         (wakers d2 i = None \<longrightarrow> t \<le> now \<and> WakeWaker w \<in> set effs2) \<and>
         (t + TICK_NS \<le> now + 1 \<longrightarrow> wakers d2 i = None)"
proof -
  let ?k = "instant_to_tick_ceil (epoch d) t" and ?f = "instant_to_tick_floor (epoch d) now"
  let ?e = "\<lparr>entry_id = next_id d, deadline = ?k\<rparr>"
  obtain wh where d1: "d1 = d\<lparr>timer_wheel := wh, wakers := (wakers d)(next_id d \<mapsto> w),
        next_id := next_id d + 1\<rparr>" "driver_inv d1" "effs = [WakeReactor]" "i = next_id d"
    and wh: "mset (wheel_entries wh) =
        add_mset (clamped (driver_cursor d) ?e) (mset (pending_entries d))"
    by (rule driver_register_Some [OF assms(1-3)])
  have "clamped (driver_cursor d) ?e = ?e"
    using clamped_id [of "driver_cursor d" ?e] assms(1,4) by (simp add: driver_inv_def)
  then have "?e \<in># mset (pending_entries d1)" using wh d1(1) by simp
  then have e: "?e \<in> set (pending_entries d1)" by simp
  have w: "wakers d1 i = Some w" and ep: "epoch d1 = epoch d" using d1(1,4) by simp_all
  have "wakers d1 (entry_id ?e) = Some w" using w d1(4) by simp
  note adv = driver_advance_entry [OF d1(2) e this _ assms(5), unfolded ep, OF assms(6)]
  have fired: "wakers d2 i = None \<longleftrightarrow> ?k \<le> ?f" and woken: "?k \<le> ?f \<Longrightarrow> WakeWaker w \<in> set effs2"
    using adv d1(4) by simp_all
  have "t \<le> now" if "?k \<le> ?f"
    using tick_reached_imp [OF that _ assms(7)] assms(6) by (simp add: in_range_def unat_MAX_TICKS)
  then show ?thesis using fired woken d1(3) w tick_reached_if [of t now "epoch d"] by blast
qed

theorem driver_timer_window_witness:
  "\<exists>d1 d2 effs2 n. driver_register (driver_new 0) 70000000 ''w'' = Inr (d1, [WakeReactor], Some 0) \<and>
     driver_advance d1 71000000 = Inr (d2, effs2, n) \<and> WakeWaker ''w'' \<in> set effs2"
proof -
  obtain d1 where d1: "driver_register (driver_new 0) 70000000 ''w'' = Inr (d1, [WakeReactor], Some 0)"
      "driver_inv d1" "epoch d1 = 0" using sample_driver [of "''w''"] by blast
  have r: "in_range (instant_to_tick_floor 0 71000000)"
    by (rule in_range_floor) (simp add: TICK_NS_def)
  obtain d2 effs2 n where adv: "driver_advance d1 71000000 = Inr (d2, effs2, n)"
    using driver_advance_ok [OF d1(2), of 71000000] r d1(3) by metis
  have n: "epoch (driver_new 0 :: string driver) = 0" "next_id (driver_new 0 :: string driver) = 0"
      "driver_cursor (driver_new 0 :: string driver) = 0"
    by (simp_all add: driver_new_def wheel_new_def)
  have b: "unat (next_id (driver_new 0 :: string driver)) + 1 < 2 ^ 64"
      "unat (instant_to_tick_ceil (epoch (driver_new 0 :: string driver)) 70000000) <
        unat (driver_cursor (driver_new 0 :: string driver)) + 2 ^ 36"
      "in_range (instant_to_tick_floor (epoch (driver_new 0 :: string driver)) 71000000)"
      "epoch (driver_new 0 :: string driver) \<le> 71000000"
    using r by (simp_all add: n instant_to_tick_ceil_def unat_u64_saturate div_ceil_def TICK_NS_def)
  from driver_timer_window [OF driver_new_inv b(1) d1(1) b(2) adv b(3,4)] d1(1) adv
  show ?thesis by (auto simp: TICK_NS_def)
qed

text \<open>
  Cancelling a timer takes effect exactly on that timer: an advance after the cancellation
  fires what the advance without it fires, less the cancelled timer's waker when it was due, and
  leaves the driver the cancelled image of the one the plain advance leaves.
\<close>

lemma driver_cancel_exact:
  assumes "driver_inv d" and "in_range (instant_to_tick_floor (epoch d) now)"
  shows "\<exists>d' ws ws'. driver_advance d now = Inr (d', map WakeWaker ws, length ws) \<and>
     driver_advance (driver_cancel d i) now = Inr (driver_cancel d' i, map WakeWaker ws', length ws') \<and>
     mset ws = mset ws' + (case wakers d i of None \<Rightarrow> {#}
       | Some w \<Rightarrow> if \<exists>e \<in> set (pending_entries d). entry_id e = i \<and>
             deadline e \<le> instant_to_tick_floor (epoch d) now then {#w#} else {#})"
  by (rule driver_cancel_advance [OF assms])

theorem driver_cancel_exact_witness:
  "\<exists>d d'. driver_register (driver_new 0) 70000000 ''w'' = Inr (d, [WakeReactor], Some 0) \<and>
     driver_advance (driver_cancel d 0) 71000000 = Inr (d', [], 0)"
proof -
  obtain d where d: "driver_register (driver_new 0) 70000000 ''w'' = Inr (d, [WakeReactor], Some 0)"
      "driver_inv d" "wakers d = [0 \<mapsto> ''w'']" "epoch d = 0"
      "mset (pending_entries d) = {#\<lparr>entry_id = 0, deadline = 70\<rparr>#}"
    using sample_driver [of "''w''"] by blast
  have r: "in_range (instant_to_tick_floor (epoch d) 71000000)"
    unfolding d(4) by (rule in_range_floor) (simp add: TICK_NS_def)
  have t: "instant_to_tick_floor 0 71000000 = 71"
    by (simp add: instant_to_tick_floor_def u64_saturate_def TICK_NS_def)
  have set: "set (pending_entries d) = {\<lparr>entry_id = 0, deadline = 70\<rparr>}"
    using arg_cong [OF d(5), of set_mset] by simp
  obtain d1 ws ws' where a: "driver_advance d 71000000 = Inr (d1, map WakeWaker ws, length ws)"
    "driver_advance (driver_cancel d 0) 71000000 = Inr (driver_cancel d1 0, map WakeWaker ws', length ws')"
    "mset ws = mset ws' + {#''w''#}"
    using driver_cancel_exact [OF d(2) r, of 0] by (auto simp: d(3,4) set t)
  obtain d2 vs where b: "driver_advance d 71000000 = Inr (d2, map WakeWaker vs, length vs)"
    "mset vs = image_mset (\<lambda>e. the (wakers d (entry_id e)))
       {#e \<in># mset (pending_entries d).
          deadline e \<le> instant_to_tick_floor (epoch d) 71000000 \<and> wakers d (entry_id e) \<noteq> None#}"
    by (rule driver_advance_ok [OF d(2) r]) (rule that)
  from b(2) have "size (mset vs) = 1" by (simp add: d(3,4,5) t)
  then have "length ws' = 0" using a(1,3) b(1) by (metis Inr_inject Pair_inject add_diff_cancel_right' diff_self_eq_0 size_mset size_single size_union)
  with a(2) d(1) show ?thesis by auto
qed

text \<open>
  Claim C33. The deadline the driver reports bounds every sleep of the worker that polls: with no
  deadline reported nothing is pending, and otherwise the reported instant has passed exactly when
  an advance at that moment has an entry to drain.
\<close>

theorem driver_next_deadline:
  assumes "driver_inv d" and "next_deadline d = Inr r" and "epoch d \<le> now"
    and "in_range (instant_to_tick_floor (epoch d) now)"
  shows "case r of
      None \<Rightarrow> pending_entries d = [] \<and> wakers d = Map.empty
    | Some t \<Rightarrow> t \<le> now \<longleftrightarrow>
        (\<exists>d' effs n. driver_advance d now = Inr (d', effs, n) \<and>
           length (pending_entries d') < length (pending_entries d))"
proof (cases r)
  case None
  have "next_tick (timer_wheel d) = None"
    using assms(2) None by (auto simp: next_deadline_def outcome_simps split: option.splits)
  then have "pending_entries d = []"
    using wheel_tq.next_None [of "timer_wheel d"] assms(1) by (simp add: driver_inv_def)
  then show ?thesis using None assms(1) by (auto simp: driver_inv_def)
next
  case (Some t)
  let ?f = "instant_to_tick_floor (epoch d) now"
  obtain d' ws where a: "driver_advance d now = Inr (d', map WakeWaker ws, length ws)"
    "mset (pending_entries d') = {#e \<in># mset (pending_entries d). ?f < deadline e#}"
    by (rule driver_advance_ok [OF assms(1,4)]) (rule that)
  have "length (pending_entries d') = length (filter (\<lambda>e. ?f < deadline e) (pending_entries d))"
    using a(2) by (metis mset_filter size_mset)
  then have "length (pending_entries d') < length (pending_entries d) \<longleftrightarrow>
      (\<exists>e \<in> set (pending_entries d). deadline e \<le> ?f)"
    by (metis length_filter_less length_filter_le filter_True le_neq_implies_less nat_less_le not_le)
  then show ?thesis
    using next_deadline_bound [OF assms(1) _ assms(3,4)] assms(2) Some a(1) by auto
qed

theorem driver_next_deadline_witness:
  "\<exists>d. driver_register (driver_new 0) 70000000 ''w'' = Inr (d, [WakeReactor], Some 0) \<and>
     (\<exists>t. next_deadline d = Inr (Some t) \<and> t \<le> 71000000)"
proof -
  obtain d where d: "driver_register (driver_new 0) 70000000 ''w'' = Inr (d, [WakeReactor], Some 0)"
      "driver_inv d" "wakers d = [0 \<mapsto> ''w'']" "epoch d = 0"
      "mset (pending_entries d) = {#\<lparr>entry_id = 0, deadline = 70\<rparr>#}"
    using sample_driver [of "''w''"] by blast
  have r: "in_range (instant_to_tick_floor (epoch d) 71000000)" and ep: "epoch d \<le> 71000000"
    unfolding d(4) by (rule in_range_floor) (simp_all add: TICK_NS_def)
  have t: "instant_to_tick_floor (epoch d) 71000000 = 71"
    by (simp add: d(4) instant_to_tick_floor_def u64_saturate_def TICK_NS_def)
  obtain d' ws where a: "driver_advance d 71000000 = Inr (d', map WakeWaker ws, length ws)"
    "mset (pending_entries d') = {#e \<in># mset (pending_entries d).
       instant_to_tick_floor (epoch d) 71000000 < deadline e#}"
    by (rule driver_advance_ok [OF d(2) r]) (rule that)
  have len: "length (pending_entries d') < length (pending_entries d)"
    using arg_cong [OF a(2), of size] arg_cong [OF d(5), of size] d(5) t by auto
  obtain q where q: "next_deadline d = Inr q"
    by (rule next_deadline_total [of d]) (simp add: d(4) TICK_NS_def INSTANT_LIMIT_def)
  from driver_next_deadline [OF d(2) q ep r] a(1) len q d(1) show ?thesis
    by (cases q) (auto simp: d(3))
qed

text \<open>
  No sequence of driver operations panics: from every reachable driver, registering,
  advancing and asking for the next deadline all return, with the invariant kept.
\<close>

lemma driver_reachable_no_panic:
  assumes "driver_reachable d"
  shows "driver_inv d \<and>
     (unat (next_id d) + 1 < 2 ^ 64 \<longrightarrow> (\<exists>d' effs r. driver_register d t w = Inr (d', effs, r) \<and> driver_inv d')) \<and>
     (in_range (instant_to_tick_floor (epoch d) now) \<longrightarrow>
        (\<exists>d' effs n. driver_advance d now = Inr (d', effs, n) \<and> driver_inv d')) \<and>
     (epoch d + 2 ^ 64 * TICK_NS \<le> INSTANT_LIMIT \<longrightarrow> (\<exists>r. next_deadline d = Inr r))"
proof (intro conjI impI)
  show inv: "driver_inv d" by (rule driver_reachable_inv [OF assms])
  show "\<exists>d' effs r. driver_register d t w = Inr (d', effs, r) \<and> driver_inv d'"
    if "unat (next_id d) + 1 < 2 ^ 64" by (rule driver_register_total [OF inv that, of t w]) blast
  show "\<exists>d' effs n. driver_advance d now = Inr (d', effs, n) \<and> driver_inv d'"
    if "in_range (instant_to_tick_floor (epoch d) now)" by (rule driver_advance_ok [OF inv that]) blast
  show "\<exists>r. next_deadline d = Inr r" if "epoch d + 2 ^ 64 * TICK_NS \<le> INSTANT_LIMIT"
    by (rule next_deadline_total [OF that]) blast
qed

theorem driver_reachable_no_panic_witness:
  "\<exists>d' effs n. driver_advance (driver_new 0 :: string driver) 5000000 = Inr (d', effs, n)"
proof -
  have "in_range (instant_to_tick_floor (epoch (driver_new 0 :: string driver)) 5000000)"
    using in_range_floor [of 5000000] by (simp add: driver_new_def TICK_NS_def)
  with driver_reachable_no_panic [OF reach_driver_new, of 0 0 "''w''" 5000000] show ?thesis by blast
qed

text \<open>
  A cancelled timer keeps its wheel entry: after the only timer is cancelled no waker is
  left, and yet the driver still reports the cancelled timer's deadline, so the polling worker
  wakes up for it.
\<close>

lemma driver_cancel_keeps_deadline:
  "\<exists>d. driver_register (driver_new 0) 70000000 w = Inr (d, [WakeReactor], Some 0) \<and>
     wakers (driver_cancel d 0) = Map.empty \<and>
     next_deadline (driver_cancel d 0) = Inr (Some 70000000)"
proof -
  obtain d where d: "driver_register (driver_new 0) 70000000 w = Inr (d, [WakeReactor], Some 0)"
      "driver_inv d" "wakers d = [0 \<mapsto> w]" "epoch d = 0"
      "mset (pending_entries d) = {#\<lparr>entry_id = 0, deadline = 70\<rparr>#}"
    using sample_driver [of w] by blast
  have inv: "wheel_inv (timer_wheel d)" using d(2) by (simp add: driver_inv_def)
  have "next_tick (timer_wheel d) \<noteq> None"
    using wheel_tq.next_None [OF inv] d(5) by auto
  then obtain k where k: "next_tick (timer_wheel d) = Some k" by blast
  then have "k = 70" using wheel_tq.next_Some_attained [OF inv k] d(5) by auto
  with k have "next_deadline (driver_cancel d 0) = Inr (Some 70000000)"
    by (simp add: next_deadline_def driver_cancel_def tick_to_instant_def instant_add_def d(4)
        TICK_NS_def INSTANT_LIMIT_def)
  moreover have "wakers (driver_cancel d 0) = Map.empty" by (simp add: driver_cancel_def d(3))
  ultimately show ?thesis using d(1) by blast
qed

end
