(* ===== verification/Sleep.thy ===== *)
theory Sleep
  imports Driver
begin

text \<open>
  The futures of \<^verbatim>\<open>src/src/time/mod.rs\<close>: \<open>sleep\<close> and \<open>timeout\<close>, polled against the driver that the
  thread context holds. Each reading of \<open>Instant::now()\<close> is an argument, and so is the context's
  driver slot (\<open>None\<close> when no \<open>DriverGuard\<close> is installed). The future inside a \<open>timeout\<close> is user code:
  its poll function is an argument that may change the driver and have effects of its own.
\<close>

section \<open>Sleep\<close>

record sleep =
  sleep_deadline :: nat
  sleep_entry :: "u64 option"

definition sleep_new :: "nat \<Rightarrow> nat \<Rightarrow> sleep outcome" where
  "sleep_new now dur =
     obind (instant_add now dur) (\<lambda>t. Inr \<lparr>sleep_deadline = t, sleep_entry = None\<rparr>)"

definition with_current_driver ::
  "'w driver option \<Rightarrow> ('w driver \<Rightarrow> ('w driver \<times> 'r) outcome) \<Rightarrow> ('w driver option \<times> 'r) outcome" where
  "with_current_driver slot f =
     (case slot of
        None \<Rightarrow> Inl (ExpectFailed ''no nanorun timer driver installed on this thread'')
      | Some d \<Rightarrow> obind (f d) (\<lambda>(d', r). Inr (Some d', r)))"

definition try_with_current_driver ::
  "'w driver option \<Rightarrow> ('w driver \<Rightarrow> 'w driver) \<Rightarrow> 'w driver option" where
  "try_with_current_driver slot f = map_option f slot"

definition sleep_poll ::
  "nat \<Rightarrow> 'w driver option \<Rightarrow> sleep \<Rightarrow> 'w \<Rightarrow>
     (unit poll \<times> sleep \<times> 'w driver option \<times> 'w effect list) outcome" where
  "sleep_poll now slot s waker =
     (if sleep_deadline s \<le> now then Inr (Ready (), s, slot, [])
      else if sleep_entry s = None
      then obind (with_current_driver slot (\<lambda>d.
             obind (driver_register d (sleep_deadline s) waker) (\<lambda>(d', effs, r). Inr (d', effs, r))))
           (\<lambda>(slot', effs, r). Inr (Pending, s\<lparr>sleep_entry := r\<rparr>, slot', effs))
      else Inr (Pending, s, slot, []))"

definition sleep_drop :: "'w driver option \<Rightarrow> sleep \<Rightarrow> 'w driver option" where
  "sleep_drop slot s =
     (case sleep_entry s of
        Some i \<Rightarrow> try_with_current_driver slot (\<lambda>d. driver_cancel d i)
      | None \<Rightarrow> slot)"

section \<open>Timeout\<close>

record 'f timeout =
  inner_future :: 'f
  timeout_sleep :: sleep

definition timeout_new :: "nat \<Rightarrow> nat \<Rightarrow> 'f \<Rightarrow> 'f timeout outcome" where
  "timeout_new now dur f =
     obind (instant_add now dur) (\<lambda>t.
       Inr \<lparr>inner_future = f, timeout_sleep = \<lparr>sleep_deadline = t, sleep_entry = None\<rparr>\<rparr>)"

datatype elapsed = Elapsed

type_synonym ('f, 'a, 'w) poll_fun =
  "'w driver option \<Rightarrow> 'f \<Rightarrow> 'w \<Rightarrow> ('a poll \<times> 'f \<times> 'w driver option \<times> 'w effect list) outcome"

definition timeout_poll ::
  "('f, 'a, 'w) poll_fun \<Rightarrow> nat \<Rightarrow> ('f timeout, ('a, elapsed) result, 'w) poll_fun" where
  "timeout_poll inner now slot t waker =
     obind (inner slot (inner_future t) waker) (\<lambda>(r, f, slot1, effs1).
       let t1 = t\<lparr>inner_future := f\<rparr> in
       case r of
         Ready v \<Rightarrow> Inr (Ready (Ok v), t1, slot1, effs1)
       | Pending \<Rightarrow>
           obind (sleep_poll now slot1 (timeout_sleep t1) waker) (\<lambda>(rs, s, slot2, effs2).
             let t2 = t1\<lparr>timeout_sleep := s\<rparr> in
             case rs of
               Ready _ \<Rightarrow> Inr (Ready (Err Elapsed), t2, slot2, effs1 @ effs2)
             | Pending \<Rightarrow> Inr (Pending, t2, slot2, effs1 @ effs2)))"

section \<open>Polling a sleep\<close>

lemma sleep_poll_ready: "sleep_deadline s \<le> now \<Longrightarrow> sleep_poll now slot s w = Inr (Ready (), s, slot, [])"
  by (simp add: sleep_poll_def)

lemma sleep_poll_registered:
  "now < sleep_deadline s \<Longrightarrow> sleep_entry s = Some i \<Longrightarrow> sleep_poll now slot s w = Inr (Pending, s, slot, [])"
  by (simp add: sleep_poll_def)

lemma sleep_poll_register:
  "now < sleep_deadline s \<Longrightarrow> sleep_entry s = None \<Longrightarrow>
     sleep_poll now (Some d) s w =
       obind (driver_register d (sleep_deadline s) w) (\<lambda>(d', effs, r).
         Inr (Pending, s\<lparr>sleep_entry := r\<rparr>, Some d', effs))"
  by (cases "driver_register d (sleep_deadline s) w") (auto simp: sleep_poll_def with_current_driver_def)

text \<open>
  A waker that the driver stores for an entry is fired by an advance that reaches the entry.
\<close>

lemma driver_advance_wakes:
  assumes inv: "driver_inv d" and range: "in_range (instant_to_tick_floor (epoch d) now)"
    and e: "e \<in> set (pending_entries d)" and due: "deadline e \<le> instant_to_tick_floor (epoch d) now"
    and w: "wakers d (entry_id e) = Some w"
  obtains d' effs n where "driver_advance d now = Inr (d', effs, n)" and "WakeWaker w \<in> set effs"
    and "wakers d' (entry_id e) = None"
proof (rule driver_advance_ok [OF inv range])
  fix d' ws
  assume a: "driver_advance d now = Inr (d', map WakeWaker ws, length ws)"
    and ws: "mset ws = image_mset (\<lambda>e. the (wakers d (entry_id e)))
      {#e \<in># mset (pending_entries d).
         deadline e \<le> instant_to_tick_floor (epoch d) now \<and> wakers d (entry_id e) \<noteq> None#}"
    and m: "wakers d' = (\<lambda>i. if \<exists>e \<in> set (pending_entries d). entry_id e = i \<and>
        deadline e \<le> instant_to_tick_floor (epoch d) now then None else wakers d i)"
  have mem: "e \<in># {#e \<in># mset (pending_entries d).
      deadline e \<le> instant_to_tick_floor (epoch d) now \<and> wakers d (entry_id e) \<noteq> None#}"
    using e due w by simp
  have "the (wakers d (entry_id e)) \<in># mset ws"
    unfolding ws set_image_mset by (rule imageI [OF mem])
  then have "WakeWaker w \<in> set (map WakeWaker ws)" using w by simp
  moreover have "wakers d' (entry_id e) = None" unfolding m using e due by auto
  ultimately show thesis by (rule that [OF a])
qed

text \<open>
  The states a sleep can be in after any polls, on any threads and at any times, with the wakers of
  those polls.
\<close>

inductive sleep_history :: "sleep \<Rightarrow> 'w list \<Rightarrow> sleep \<Rightarrow> bool" for s0 where
  history_new: "sleep_history s0 [] s0"
| history_poll: "sleep_history s0 ws s \<Longrightarrow> sleep_poll now slot s w = Inr (r, s', slot', effs) \<Longrightarrow>
    sleep_history s0 (w # ws) s'"

lemma sleep_poll_deadline:
  assumes "sleep_poll now slot s w = Inr (r, s', slot', effs)"
  shows "sleep_deadline s' = sleep_deadline s" and "r = Ready () \<longleftrightarrow> sleep_deadline s \<le> now"
  using assms by (auto simp: sleep_poll_def obind_def split: if_splits sum.splits)

lemma sleep_history_deadline: "sleep_history s0 ws s \<Longrightarrow> sleep_deadline s = sleep_deadline s0"
  by (induction rule: sleep_history.induct) (auto simp: sleep_poll_deadline)

lemma sleep_poll_pending:
  assumes "driver_inv d" and "unat (next_id d) + 1 < 2 ^ 64" and "now < sleep_deadline s"
  shows "\<exists>s' d' effs. sleep_poll now (Some d) s w = Inr (Pending, s', Some d', effs) \<and>
    (sleep_entry s' \<noteq> None \<or> WakeWaker w \<in> set effs)"
proof (cases "sleep_entry s")
  case (Some i)
  then show ?thesis using assms(3) by (auto simp: sleep_poll_registered)
next
  case None
  show ?thesis
  proof (cases "instant_to_tick_ceil (epoch d) (sleep_deadline s) \<le> driver_cursor d")
    case True
    then show ?thesis
      using driver_register_past(1) [OF assms(1) True assms(2), of w] assms(3) None
      by (simp add: sleep_poll_register)
  next
    case False
    then have fut: "driver_cursor d < instant_to_tick_ceil (epoch d) (sleep_deadline s)" by (simp add: not_le)
    show ?thesis
      by (rule driver_register_future [OF assms(1) fut assms(2), of w])
        (use assms(3) None in \<open>simp add: sleep_poll_register\<close>)
  qed
qed

section \<open>A sleep beyond the wheel's range\<close>

definition far_deadline :: nat where
  "far_deadline = 2 ^ 37 * TICK_NS"

definition near_clock :: nat where
  "near_clock = (2 ^ 36 - 1) * TICK_NS"

lemma far_driver:
  obtains d where "driver_register (driver_new 0) far_deadline w = Inr (d, [WakeReactor], Some 0)"
    and "driver_inv d" and "wakers d = [0 \<mapsto> w]" and "epoch d = 0"
    and "mset (pending_entries d) = {#\<lparr>entry_id = 0, deadline = 2 ^ 36 - 1\<rparr>#}"
proof -
  let ?d = "driver_new 0 :: 'a driver"
  have d: "driver_cursor ?d = 0" "epoch ?d = 0" "next_id ?d = 0" "wakers ?d = Map.empty"
      "pending_entries ?d = []"
    using wheel_new_ok(2) by (simp_all add: driver_new_def) (simp add: wheel_new_def)
  have tick: "instant_to_tick_ceil 0 far_deadline = 2 ^ 37"
    by (simp add: instant_to_tick_ceil_def u64_saturate_def div_ceil_def TICK_NS_def far_deadline_def)
  have clamp: "clamped 0 \<lparr>entry_id = 0, deadline = 2 ^ 37\<rparr> = \<lparr>entry_id = 0, deadline = 2 ^ 36 - 1\<rparr>"
    by (simp add: clamped_def clamp_deadline_def MAX_TICKS_def LEVEL_BITS_def LEVELS_def word_less_nat_alt)
  have fut: "driver_cursor ?d < instant_to_tick_ceil (epoch ?d) far_deadline"
    and ids: "unat (next_id ?d) + 1 < 2 ^ 64" by (simp_all only: d tick) simp_all
  show thesis
    by (rule driver_register_future [OF driver_new_inv fut ids, of w])
      (rule that, auto simp: d tick clamp [simplified])
qed

text \<open>The driver after one sleep of 70 ms, what it fires, and what it fires once the id is cancelled.\<close>

lemma sample_sleep:
  obtains d d2 d3 where
    "sleep_poll 0 (Some (driver_new 0)) \<lparr>sleep_deadline = 70000000, sleep_entry = None\<rparr> w =
       Inr (Pending, \<lparr>sleep_deadline = 70000000, sleep_entry = Some 0\<rparr>, Some d, [WakeReactor])"
    and "driver_inv d" and "epoch d = 0" and "wakers d = [0 \<mapsto> w]"
    and "mset (pending_entries d) = {#\<lparr>entry_id = 0, deadline = 70\<rparr>#}"
    and "driver_advance d 71000000 = Inr (d2, [WakeWaker w], 1)"
    and "driver_advance (driver_cancel d 0) 71000000 = Inr (d3, [], 0)"
proof -
  obtain d where d: "driver_register (driver_new 0) 70000000 w = Inr (d, [WakeReactor], Some 0)"
      "driver_inv d" "wakers d = [0 \<mapsto> w]" "epoch d = 0"
      "mset (pending_entries d) = {#\<lparr>entry_id = 0, deadline = 70\<rparr>#}"
    using sample_driver [of w] by blast
  have r: "in_range (instant_to_tick_floor (epoch d) 71000000)"
    unfolding d(4) by (rule in_range_floor) (simp add: TICK_NS_def)
  have t: "instant_to_tick_floor 0 71000000 = 71"
    by (simp add: instant_to_tick_floor_def u64_saturate_def TICK_NS_def)
  obtain d2 ws where a: "driver_advance d 71000000 = Inr (d2, map WakeWaker ws, length ws)"
    "mset ws = image_mset (\<lambda>e. the (wakers d (entry_id e)))
       {#e \<in># mset (pending_entries d).
          deadline e \<le> instant_to_tick_floor (epoch d) 71000000 \<and> wakers d (entry_id e) \<noteq> None#}"
    by (rule driver_advance_ok [OF d(2) r]) (rule that)
  then have "mset ws = {#w#}" by (simp add: d t)
  then have ws: "ws = [w]" by (simp only: mset_single_iff)
  let ?c = "driver_cancel d 0"
  have c: "epoch ?c = 0" "wakers ?c = Map.empty" by (simp_all add: driver_cancel_def d)
  have rc: "in_range (instant_to_tick_floor (epoch ?c) 71000000)" using r by (simp add: c d)
  obtain d3 vs where b: "driver_advance ?c 71000000 = Inr (d3, map WakeWaker vs, length vs)"
    "mset vs = image_mset (\<lambda>e. the (wakers ?c (entry_id e)))
       {#e \<in># mset (pending_entries ?c).
          deadline e \<le> instant_to_tick_floor (epoch ?c) 71000000 \<and> wakers ?c (entry_id e) \<noteq> None#}"
    by (rule driver_advance_ok [OF driver_cancel_inv [OF d(2)] rc]) (rule that)
  then have vs: "vs = []" by (simp add: c)
  show thesis
    by (rule that [of d d2 d3]) (use d a(1) b(1) in \<open>simp_all add: sleep_poll_register ws vs\<close>)
qed

section \<open>Properties of the timer futures\<close>

text \<open>
  Claim C10. A sleep polled before its deadline is woken and then resolves, provided that the deadline lies within
  the wheel's range of \<open>2^36\<close> ticks past the driver's cursor and that the timer ids are not used up: the first
  poll hands its waker to the driver, which either fires it at once or fires it on the first advance a tick after
  the deadline, and a poll at that time is ready.
\<close>

theorem sleep_wakes:
  assumes inv: "driver_inv d" and ids: "unat (next_id d) + 1 < 2 ^ 64"
    and new: "sleep_entry s = None" "now < sleep_deadline s"
    and near: "unat (instant_to_tick_ceil (epoch d) (sleep_deadline s)) < unat (driver_cursor d) + 2 ^ 36"
    and later: "sleep_deadline s + TICK_NS \<le> later + 1" "in_range (instant_to_tick_floor (epoch d) later)"
  shows "\<exists>s1 d1 effs. sleep_poll now (Some d) s w = Inr (Pending, s1, Some d1, effs) \<and>
     (if instant_to_tick_ceil (epoch d) (sleep_deadline s) \<le> driver_cursor d then effs = [WakeWaker w]
      else effs = [WakeReactor] \<and>
        (\<exists>d2 effs2 n. driver_advance d1 later = Inr (d2, effs2, n) \<and> WakeWaker w \<in> set effs2)) \<and>
     sleep_poll later slot s1 w' = Inr (Ready (), s1, slot, [])"
proof (cases "instant_to_tick_ceil (epoch d) (sleep_deadline s) \<le> driver_cursor d")
  case True
  have "sleep_deadline s \<le> later" using later(1) TICK_NS_pos by simp
  then show ?thesis
    using driver_register_past(1) [OF inv True ids, of w] True new
    by (simp add: sleep_poll_register sleep_poll_ready)
next
  case False
  let ?k = "instant_to_tick_ceil (epoch d) (sleep_deadline s)"
  let ?e = "\<lparr>entry_id = next_id d, deadline = ?k\<rparr>"
  have fut: "driver_cursor d < ?k" using False by (simp add: not_le)
  have ready: "sleep_deadline s \<le> later" using later(1) TICK_NS_pos by simp
  have unclamped: "clamped (driver_cursor d) ?e = ?e"
    using clamped_id [of "driver_cursor d" ?e] inv near by (simp add: driver_inv_def)
  show ?thesis
  proof (rule driver_register_future [OF inv fut ids, of w])
    fix wh
    let ?d1 = "d\<lparr>timer_wheel := wh, wakers := (wakers d)(next_id d \<mapsto> w), next_id := next_id d + 1\<rparr>"
    assume reg: "driver_register d (sleep_deadline s) w = Inr (?d1, [WakeReactor], Some (next_id d))"
      and inv1: "driver_inv ?d1"
      and m: "mset (wheel_entries wh) = add_mset (clamped (driver_cursor d) ?e) (mset (pending_entries d))"
    have e: "?e \<in> set (pending_entries ?d1)"
      using m unclamped by (metis driver.select_convs(1) driver.surjective driver.update_convs(1,2,3)
          set_mset_mset union_single_eq_member)
    have r: "in_range (instant_to_tick_floor (epoch ?d1) later)" using later(2) by simp
    have due: "deadline ?e \<le> instant_to_tick_floor (epoch ?d1) later"
      using tick_reached_if [OF later(1), of "epoch d"] by simp
    have w: "wakers ?d1 (entry_id ?e) = Some w" by simp
    obtain d2 effs2 n where "driver_advance ?d1 later = Inr (d2, effs2, n)" "WakeWaker w \<in> set effs2"
      by (rule driver_advance_wakes [OF inv1 r e due w])
    then show ?thesis using reg new False ready
      by (intro exI [of _ "s\<lparr>sleep_entry := Some (next_id d)\<rparr>"] exI [of _ ?d1] exI [of _ "[WakeReactor]"])
        (auto simp: sleep_poll_register sleep_poll_ready)
  qed
qed

theorem sleep_wakes_witness:
  "\<exists>s1 d1 d2 effs2 n. sleep_poll 0 (Some (driver_new 0)) \<lparr>sleep_deadline = 70000000, sleep_entry = None\<rparr> ''w'' =
       Inr (Pending, s1, Some d1, [WakeReactor]) \<and>
     driver_advance d1 71000000 = Inr (d2, effs2, n) \<and> WakeWaker ''w'' \<in> set effs2 \<and>
     sleep_poll 71000000 (Some d2) s1 ''w'' = Inr (Ready (), s1, Some d2, [])"
proof -
  let ?d = "driver_new 0 :: string driver" and ?s = "\<lparr>sleep_deadline = 70000000, sleep_entry = None\<rparr>"
  have n: "epoch ?d = 0" "next_id ?d = 0" "driver_cursor ?d = 0"
    by (simp_all add: driver_new_def wheel_new_def)
  have tick: "instant_to_tick_ceil 0 70000000 = 70"
    by (simp add: instant_to_tick_ceil_def u64_saturate_def div_ceil_def TICK_NS_def)
  have r: "in_range (instant_to_tick_floor (epoch ?d) 71000000)"
    unfolding n(1) by (rule in_range_floor) (simp add: TICK_NS_def)
  have hyps: "unat (next_id ?d) + 1 < 2 ^ 64" "sleep_entry ?s = None" "0 < sleep_deadline ?s"
      "unat (instant_to_tick_ceil (epoch ?d) (sleep_deadline ?s)) < unat (driver_cursor ?d) + 2 ^ 36"
      "sleep_deadline ?s + TICK_NS \<le> 71000000 + 1"
    by (simp_all add: n tick TICK_NS_def)
  have future: "\<not> instant_to_tick_ceil (epoch ?d) (sleep_deadline ?s) \<le> driver_cursor ?d"
    by (simp add: n tick)
  obtain s1 d1 effs where a: "sleep_poll 0 (Some ?d) ?s ''w'' = Inr (Pending, s1, Some d1, effs) \<and>
    (effs = [WakeReactor] \<and>
      (\<exists>d2 effs2 n. driver_advance d1 71000000 = Inr (d2, effs2, n) \<and> WakeWaker ''w'' \<in> set effs2)) \<and>
    sleep_poll 71000000 (None :: string driver option) s1 ''w'' = Inr (Ready (), s1, None, [])"
    using sleep_wakes [OF driver_new_inv hyps r, of "''w''" None "''w''", unfolded if_not_P [OF future]]
    by - (elim exE, erule that)
  then have "sleep_deadline s1 \<le> 71000000"
    using sleep_poll_deadline(2) [OF a [THEN conjunct2, THEN conjunct2]] by simp
  then have "sleep_poll 71000000 (Some d2) s1 ''w'' = Inr (Ready (), s1, Some d2, [])" for d2 :: "string driver"
    by (rule sleep_poll_ready)
  with a show ?thesis by blast
qed

text \<open>
  Claim C35. A sleep never resolves early: however often, on whatever threads and with whatever
  wakers it has been polled, a poll returns ready exactly when the clock has reached the time of the
  call plus the duration.
\<close>

theorem sleep_never_early:
  assumes "sleep_new start dur = Inr s0" and "sleep_history s0 ws s"
    and "sleep_poll now slot s w = Inr (r, s', slot', effs)"
  shows "r = Ready () \<longleftrightarrow> start + dur \<le> now"
proof -
  have "sleep_deadline s0 = start + dur"
    using assms(1) by (auto simp: sleep_new_def instant_add_def split: if_splits)
  then show ?thesis
    using sleep_poll_deadline(2) [OF assms(3)] sleep_history_deadline [OF assms(2)] by simp
qed

theorem sleep_never_early_witness:
  "\<exists>s0 s. sleep_new 5 10 = Inr s0 \<and> sleep_history s0 [''w''] s \<and>
     sleep_poll 15 (None :: string driver option) s ''v'' = Inr (Ready (), s, None, [])"
proof -
  let ?s = "\<lparr>sleep_deadline = 15, sleep_entry = None\<rparr>"
  have new: "sleep_new 5 10 = Inr ?s" by (simp add: sleep_new_def instant_add_def INSTANT_LIMIT_def)
  obtain d effs r where "driver_register (driver_new 0) 15 ''w'' = Inr (d, effs, r)"
    by (rule driver_register_total [OF driver_new_inv, of 0 15 "''w''"]) (simp add: driver_new_def)
  then have p: "sleep_poll 7 (Some (driver_new 0)) ?s ''w'' = Inr (Pending, ?s\<lparr>sleep_entry := r\<rparr>, Some d, effs)"
    by (simp add: sleep_poll_register)
  have h: "sleep_history ?s [''w''] (?s\<lparr>sleep_entry := r\<rparr>)"
    by (rule history_poll [OF history_new p])
  have "sleep_poll 15 (None :: string driver option) (?s\<lparr>sleep_entry := r\<rparr>) ''v'' =
      Inr (Ready (), ?s\<lparr>sleep_entry := r\<rparr>, None, [])" by (simp add: sleep_poll_ready)
  with sleep_never_early [OF new h this] new h show ?thesis by blast
qed

text \<open>
  Claim C39. There is a sleep that is lost: one of \<open>2^37\<close> milliseconds, longer than the wheel's range of \<open>2^36\<close>
  ticks. The wheel fires its clamped entry early; the poll this causes finds the deadline still ahead and an entry id present,
  so it does not register again: the sleep is pending with no timer and no waker left anywhere.
\<close>

theorem sleep_clamped_lost:
  "\<exists>s d1 d2 n. sleep_new 0 far_deadline = Inr \<lparr>sleep_deadline = far_deadline, sleep_entry = None\<rparr> \<and>
     sleep_poll 0 (Some (driver_new 0)) \<lparr>sleep_deadline = far_deadline, sleep_entry = None\<rparr> w =
       Inr (Pending, s, Some d1, [WakeReactor]) \<and>
     driver_advance d1 near_clock = Inr (d2, [WakeWaker w], n) \<and>
     sleep_poll near_clock (Some d2) s w = Inr (Pending, s, Some d2, []) \<and>
     pending_entries d2 = [] \<and> wakers d2 = Map.empty"
proof (rule far_driver [of w])
  fix d
  assume d: "driver_register (driver_new 0) far_deadline w = Inr (d, [WakeReactor], Some 0)"
    "driver_inv d" "wakers d = [0 \<mapsto> w]" "epoch d = 0"
    "mset (pending_entries d) = {#\<lparr>entry_id = 0, deadline = 2 ^ 36 - 1\<rparr>#}"
  let ?s = "\<lparr>sleep_deadline = far_deadline, sleep_entry = None\<rparr>"
  have before: "near_clock < far_deadline" "0 < far_deadline"
    by (simp_all add: near_clock_def far_deadline_def TICK_NS_def)
  have tick: "instant_to_tick_floor 0 near_clock = 2 ^ 36 - 1"
    by (simp add: instant_to_tick_floor_def near_clock_def u64_saturate_def TICK_NS_def)
  have r: "in_range (instant_to_tick_floor (epoch d) near_clock)"
    unfolding d(4) by (rule in_range_floor) (simp add: near_clock_def TICK_NS_def)
  obtain d2 ws where a: "driver_advance d near_clock = Inr (d2, map WakeWaker ws, length ws)"
    "driver_inv d2"
    "mset (pending_entries d2) = {#e \<in># mset (pending_entries d).
       instant_to_tick_floor (epoch d) near_clock < deadline e#}"
    "mset ws = image_mset (\<lambda>e. the (wakers d (entry_id e))) {#e \<in># mset (pending_entries d).
       deadline e \<le> instant_to_tick_floor (epoch d) near_clock \<and> wakers d (entry_id e) \<noteq> None#}"
    by (rule driver_advance_ok [OF d(2) r]) (rule that)
  have "mset ws = {#w#}" using a(4) by (simp add: d(3,4,5) tick)
  then have ws: "ws = [w]" by (simp only: mset_single_iff)
  have "mset (pending_entries d2) = {#}" using a(3) by (simp add: d(3,4,5) tick)
  then have none: "pending_entries d2 = []" by simp
  then have "wakers d2 = Map.empty" using a(2) by (simp add: driver_inv_def)
  moreover have "sleep_new 0 far_deadline = Inr ?s"
    by (simp add: sleep_new_def instant_add_def far_deadline_def TICK_NS_def INSTANT_LIMIT_def)
  moreover have "sleep_poll 0 (Some (driver_new 0)) ?s w =
      Inr (Pending, ?s\<lparr>sleep_entry := Some 0\<rparr>, Some d, [WakeReactor])"
    using d(1) before by (simp add: sleep_poll_register)
  moreover have "sleep_poll near_clock (Some d2) (?s\<lparr>sleep_entry := Some 0\<rparr>) w =
      Inr (Pending, ?s\<lparr>sleep_entry := Some 0\<rparr>, Some d2, [])"
    using before by (intro sleep_poll_registered) simp_all
  ultimately show ?thesis using a(1) none unfolding ws by auto
qed

text \<open>
  Dropping a sleep cancels exactly its own timer when the thread's driver is the one it
  registered with: a later advance fires every due timer but this one.
\<close>

lemma sleep_drop_cancels:
  assumes "driver_inv d" and "in_range (instant_to_tick_floor (epoch d) now)"
    and "sleep_entry s = Some i" and "wakers d i = Some w"
  shows "\<exists>d1 d' ws ws'. sleep_drop (Some d) s = Some d1 \<and>
     driver_advance d now = Inr (d', map WakeWaker ws, length ws) \<and>
     driver_advance d1 now = Inr (driver_cancel d' i, map WakeWaker ws', length ws') \<and>
     mset ws = mset ws' + (if \<exists>e \<in> set (pending_entries d). entry_id e = i \<and>
             deadline e \<le> instant_to_tick_floor (epoch d) now then {#w#} else {#})"
  using driver_cancel_advance [OF assms(1,2), of i] assms(3,4)
  by (auto simp: sleep_drop_def try_with_current_driver_def)

theorem sleep_drop_cancels_witness:
  "\<exists>d1 d2. sleep_drop (Some d1) \<lparr>sleep_deadline = 70000000, sleep_entry = Some 0\<rparr> = Some d2 \<and>
     wakers d1 0 = Some ''w'' \<and> (\<exists>d3 ws. driver_advance d2 71000000 = Inr (d3, map WakeWaker ws, length ws))"
proof (rule sample_sleep [of "''w''"])
  fix d :: "string driver"
  assume d: "driver_inv d" "epoch d = 0" "wakers d = [0 \<mapsto> ''w'']"
  have r: "in_range (instant_to_tick_floor (epoch d) 71000000)"
    unfolding d(2) by (rule in_range_floor) (simp add: TICK_NS_def)
  let ?s = "\<lparr>sleep_deadline = 70000000, sleep_entry = Some 0\<rparr>"
  have w: "wakers d 0 = Some ''w''" and s: "sleep_entry ?s = Some 0" by (simp_all add: d)
  from sleep_drop_cancels [OF d(1) r s w] w show ?thesis by blast
qed

text \<open>
  Polling a registered sleep with a new waker does not replace the stored one: the driver
  is left as it was, and the advance at the deadline wakes the waker of the first poll only.
\<close>

lemma sleep_repoll_stale_waker:
  "\<exists>s d d2. sleep_poll 0 (Some (driver_new 0)) \<lparr>sleep_deadline = 70000000, sleep_entry = None\<rparr> w =
       Inr (Pending, s, Some d, [WakeReactor]) \<and>
     sleep_poll 1000000 (Some d) s w' = Inr (Pending, s, Some d, []) \<and>
     driver_advance d 71000000 = Inr (d2, [WakeWaker w], 1)"
proof (rule sample_sleep [of w])
  fix d d2
  let ?s = "\<lparr>sleep_deadline = 70000000, sleep_entry = Some 0\<rparr>"
  assume "sleep_poll 0 (Some (driver_new 0)) \<lparr>sleep_deadline = 70000000, sleep_entry = None\<rparr> w =
       Inr (Pending, ?s, Some d, [WakeReactor])"
    and "driver_advance d 71000000 = Inr (d2, [WakeWaker w], 1)"
  moreover have "sleep_poll 1000000 (Some d) ?s w' = Inr (Pending, ?s, Some d, [])"
    by (rule sleep_poll_registered) simp_all
  ultimately show ?thesis by blast
qed

text \<open>
  Entry ids are only unique within one driver, and a dropped sleep cancels its id at the
  driver of the dropping thread: a sleep registered with one runtime and dropped on a worker of
  another takes away a timer of that other runtime, which then never fires.
\<close>

lemma sleep_drop_foreign_driver:
  "\<exists>sA dA dB dB' d2 d3.
     sleep_poll 0 (Some (driver_new 0)) \<lparr>sleep_deadline = 70000000, sleep_entry = None\<rparr> wA =
       Inr (Pending, sA, Some dA, [WakeReactor]) \<and>
     sleep_poll 0 (Some (driver_new 0)) \<lparr>sleep_deadline = 70000000, sleep_entry = None\<rparr> wB =
       Inr (Pending, sA, Some dB, [WakeReactor]) \<and>
     driver_advance dB 71000000 = Inr (d2, [WakeWaker wB], 1) \<and>
     sleep_drop (Some dB) sA = Some dB' \<and>
     driver_advance dB' 71000000 = Inr (d3, [], 0)"
proof -
  let ?s = "\<lparr>sleep_deadline = 70000000, sleep_entry = Some 0\<rparr>"
  obtain dA where A: "sleep_poll 0 (Some (driver_new 0)) \<lparr>sleep_deadline = 70000000, sleep_entry = None\<rparr> wA =
       Inr (Pending, ?s, Some dA, [WakeReactor])" by (rule sample_sleep [of wA])
  obtain dB d2 d3 where B: "sleep_poll 0 (Some (driver_new 0))
       \<lparr>sleep_deadline = 70000000, sleep_entry = None\<rparr> wB = Inr (Pending, ?s, Some dB, [WakeReactor])"
     "driver_advance dB 71000000 = Inr (d2, [WakeWaker wB], 1)"
     "driver_advance (driver_cancel dB 0) 71000000 = Inr (d3, [], 0)"
    by (rule sample_sleep [of wB])
  have "sleep_drop (Some dB) ?s = Some (driver_cancel dB 0)"
    by (simp add: sleep_drop_def try_with_current_driver_def)
  with A B show ?thesis by blast
qed

text \<open>
  Claim C36. A timeout polls its inner future first and looks at the clock only when that is pending:
  a ready inner future wins at any time, without the timer being touched; otherwise the timeout is
  elapsed exactly when its deadline has passed, and a pending timeout leaves a registered timer or
  has woken its waker.
\<close>

theorem timeout_poll_outcome:
  assumes "inner slot (inner_future t) w = Inr (r, f, Some d, effs1)"
    and "driver_inv d" and "unat (next_id d) + 1 < 2 ^ 64"
  shows "case r of
      Ready v \<Rightarrow> timeout_poll inner now slot t w = Inr (Ready (Ok v), t\<lparr>inner_future := f\<rparr>, Some d, effs1)
    | Pending \<Rightarrow>
        if sleep_deadline (timeout_sleep t) \<le> now
        then timeout_poll inner now slot t w = Inr (Ready (Err Elapsed), t\<lparr>inner_future := f\<rparr>, Some d, effs1)
        else \<exists>s d' effs2. timeout_poll inner now slot t w =
               Inr (Pending, t\<lparr>inner_future := f, timeout_sleep := s\<rparr>, Some d', effs1 @ effs2) \<and>
             (sleep_entry s \<noteq> None \<or> WakeWaker w \<in> set effs2)"
proof (cases r)
  case (Ready v)
  then show ?thesis using assms(1) by (simp add: timeout_poll_def)
next
  case Pending
  show ?thesis
  proof (cases "sleep_deadline (timeout_sleep t) \<le> now")
    case True
    then show ?thesis using assms(1) Pending by (simp add: timeout_poll_def sleep_poll_ready)
  next
    case False
    then obtain s d' effs2 where
      "sleep_poll now (Some d) (timeout_sleep t) w = Inr (Pending, s, Some d', effs2)"
      "sleep_entry s \<noteq> None \<or> WakeWaker w \<in> set effs2"
      using sleep_poll_pending [OF assms(2,3)] by (metis not_le)
    with False Pending assms(1) show ?thesis by (auto simp: timeout_poll_def)
  qed
qed

theorem timeout_poll_outcome_witness:
  "timeout_poll (\<lambda>slot f w. Inr (Ready (42 :: int), f, slot, [])) 99 (Some (driver_new 0 :: string driver))
     \<lparr>inner_future = (), timeout_sleep = \<lparr>sleep_deadline = 0, sleep_entry = None\<rparr>\<rparr> ''w'' =
   Inr (Ready (Ok 42), \<lparr>inner_future = (), timeout_sleep = \<lparr>sleep_deadline = 0, sleep_entry = None\<rparr>\<rparr>,
        Some (driver_new 0), [])"
  using timeout_poll_outcome [where inner = "\<lambda>slot f w. Inr (Ready (42 :: int), f, slot, [])"
      and slot = "Some (driver_new 0 :: string driver)"
      and t = "\<lparr>inner_future = (), timeout_sleep = \<lparr>sleep_deadline = 0, sleep_entry = None\<rparr>\<rparr>"
      and w = "''w''" and now = 99 and r = "Ready 42" and f = "()" and d = "driver_new 0" and ?effs1.0 = "[]",
      OF _ driver_new_inv]
  by (simp add: driver_new_def)

end
