(* ===== verification/Task.thy ===== *)
theory Task
  imports Prelude
begin

text \<open>
  A spawned task: \<^verbatim>\<open>src/src/task/raw.rs\<close>, \<^verbatim>\<open>src/src/task/join.rs\<close>, \<^verbatim>\<open>src/src/waker/mod.rs\<close> and
  \<^verbatim>\<open>src/src/task/yield_now.rs\<close>. The header's state word, the join waker slot, the stage cell and the strong count
  are the shared state. Every function that touches them is cut at its accesses to shared state: a
  program counter says which access comes next, and one step function per call (\<open>poll_step\<close> for
  \<open>poll_fn\<close>, \<open>sched_step\<close> for \<open>schedule_fn\<close>, \<open>join_step\<close> for the \<open>JoinHandle\<close>) performs it. A system has
  any number of such calls in flight, and they interleave freely. Atomic operations are sequentially
  consistent here: all of them are read-modify-writes and loads of the one state word, whose
  modification order is total, and the cell and the waker slot are only used under that word's
  acquire/release pairs and the slot's mutex.
\<close>

unbundle bit_operations_syntax

section \<open>State bits\<close>

definition NOTIFIED :: u64 where "NOTIFIED = push_bit 0 1"
definition RUNNING :: u64 where "RUNNING = push_bit 1 1"
definition COMPLETE :: u64 where "COMPLETE = push_bit 2 1"
definition JOIN_INTEREST :: u64 where "JOIN_INTEREST = push_bit 3 1"
definition JOIN_WAKER :: u64 where "JOIN_WAKER = push_bit 4 1"

lemmas state_bit_defs = NOTIFIED_def RUNNING_def COMPLETE_def JOIN_INTEREST_def JOIN_WAKER_def

named_theorems state_bits

lemma and_mask_eq_0 [state_bits]:
  "s AND NOTIFIED = 0 \<longleftrightarrow> \<not> bit s 0" "s AND RUNNING = 0 \<longleftrightarrow> \<not> bit s 1" "s AND COMPLETE = 0 \<longleftrightarrow> \<not> bit s 2"
  "s AND JOIN_INTEREST = 0 \<longleftrightarrow> \<not> bit s 3" "s AND JOIN_WAKER = 0 \<longleftrightarrow> \<not> bit s 4" for s :: u64
  using and_exp_eq_0_iff_not_bit [of s 0] and_exp_eq_0_iff_not_bit [of s 1] and_exp_eq_0_iff_not_bit [of s 2]
    and_exp_eq_0_iff_not_bit [of s 3] and_exp_eq_0_iff_not_bit [of s 4]
  by (simp_all add: state_bit_defs push_bit_eq_mult)

lemma and_idle_mask_eq_0 [state_bits]:
  "s AND (RUNNING OR NOTIFIED OR COMPLETE) = 0 \<longleftrightarrow> \<not> bit s 0 \<and> \<not> bit s 1 \<and> \<not> bit s 2" for s :: u64
proof -
  have "s AND (RUNNING OR NOTIFIED OR COMPLETE) = (s AND RUNNING) OR (s AND NOTIFIED) OR (s AND COMPLETE)"
    by (simp add: bit.conj_disj_distrib)
  then show ?thesis by (auto simp: and_mask_eq_0 or_eq_0_iff)
qed

lemma bit_single: "k < 64 \<Longrightarrow> bit (push_bit k 1 :: u64) n \<longleftrightarrow> n = k"
  by (auto simp: bit_exp_iff)

lemma bit_mask [state_bits]:
  "bit NOTIFIED n \<longleftrightarrow> n = 0" "bit RUNNING n \<longleftrightarrow> n = 1" "bit COMPLETE n \<longleftrightarrow> n = 2"
  "bit JOIN_INTEREST n \<longleftrightarrow> n = 3" "bit JOIN_WAKER n \<longleftrightarrow> n = 4"
  unfolding state_bit_defs by (rule bit_single, simp)+

lemma bit_set [state_bits]: "bit (s OR x) n \<longleftrightarrow> bit s n \<or> bit x n" for s :: u64
  by (simp add: bit_or_iff)

lemma bit_clear [state_bits]: "bit (s AND NOT x) n \<longleftrightarrow> bit s n \<and> \<not> bit x n" for s :: u64
  using bit_imp_possible_bit [of s n] by (auto simp: bit_and_iff bit_not_iff)

section \<open>The task\<close>

datatype ('f, 'o) stage = StagePending 'f | StageReady 'o | StageEmpty

record ('f, 'o, 'w) task =
  state :: u64
  join_waker :: "'w option"
  stage :: "('f, 'o) stage"
  strong :: nat

definition spawn_raw :: "'f \<Rightarrow> ('f, 'o, 'w) task" where
  "spawn_raw f = \<lparr>state = NOTIFIED OR JOIN_INTEREST, join_waker = None, stage = StagePending f, strong = 1 + 1\<rparr>"

definition clone_ref :: "('f, 'o, 'w) task \<Rightarrow> ('f, 'o, 'w) task" where
  "clone_ref t = t\<lparr>strong := strong t + 1\<rparr>"

definition drop_ref :: "('f, 'o, 'w) task \<Rightarrow> ('f, 'o, 'w) task" where
  "drop_ref t = t\<lparr>strong := strong t - 1\<rparr>"

text \<open>
  What a call does to the outside: hand the task to the scheduler's queue, ring the reactor if the driving
  worker is parked in it, unpark one worker, or wake the joiner's waker.
\<close>

datatype 'w task_effect = NoEffect | Enqueue | WakeDriver | UnparkOne | WakeJoin 'w

subsection \<open>\<open>poll_fn\<close>\<close>

text \<open>The user's future returns ready or pending, or unwinds.\<close>

datatype 'o polled = FutReady 'o | FutPending | FutPanic

text \<open>
  \<open>spurious\<close> says that the weak exchange fails for no reason. \<open>seen\<close> is the shutdown flag that \<open>Spawner::schedule\<close>
  read: when it is set the task is dropped, and otherwise it is pushed and the call goes on to ring the driver
  and unpark a worker.
\<close>

datatype ('o, 'w) poll_pc =
    PLoad | PLoop u64 | PBuildWaker | PPoll | PWriteOutput 'o | PSetComplete
  | PClearRunning u64 | PFinish u64 | PWake 'w | PClearPending | PReschedule
  | PWakeDriver | PUnparkOne | PDropWaker | PDropArc

fun poll_step ::
  "bool \<Rightarrow> bool \<Rightarrow> ('f \<Rightarrow> 'f \<times> 'o polled) \<Rightarrow> ('f, 'o, 'w) task \<Rightarrow> ('o, 'w) poll_pc \<Rightarrow>
     (('f, 'o, 'w) task \<times> ('o, 'w) poll_pc option \<times> 'w task_effect) outcome" where
  "poll_step spurious seen fut t PLoad = Inr (t, Some (PLoop (state t)), NoEffect)"
| "poll_step spurious seen fut t (PLoop s) =
     (if s AND RUNNING \<noteq> 0 \<or> s AND COMPLETE \<noteq> 0 then Inr (t, Some PDropArc, NoEffect)
      else let new = (s OR RUNNING) AND NOT NOTIFIED in
        if state t = s \<and> \<not> spurious then Inr (t\<lparr>state := new\<rparr>, Some PBuildWaker, NoEffect)
        else Inr (t, Some (PLoop (state t)), NoEffect))"
| "poll_step spurious seen fut t PBuildWaker = Inr (clone_ref t, Some PPoll, NoEffect)"
| "poll_step spurious seen fut t PPoll =
     (case stage t of
        StagePending f \<Rightarrow>
          let (f', r) = fut f; t' = t\<lparr>stage := StagePending f'\<rparr> in
          (case r of
             FutReady out \<Rightarrow> Inr (t', Some (PWriteOutput out), NoEffect)
           | FutPending \<Rightarrow> Inr (t', Some PClearPending, NoEffect)
           | FutPanic \<Rightarrow> Inr (t', Some PDropWaker, NoEffect))
      | _ \<Rightarrow> Inl (UnreachableCode ''polled task with no pending future''))"
| "poll_step spurious seen fut t (PWriteOutput out) = Inr (t\<lparr>stage := StageReady out\<rparr>, Some PSetComplete, NoEffect)"
| "poll_step spurious seen fut t PSetComplete =
     (let prev = state t; merged = prev OR COMPLETE in
      Inr (t\<lparr>state := prev OR COMPLETE\<rparr>, Some (PClearRunning merged), NoEffect))"
| "poll_step spurious seen fut t (PClearRunning merged) =
     Inr (t\<lparr>state := state t AND NOT RUNNING\<rparr>, Some (PFinish merged), NoEffect)"
| "poll_step spurious seen fut t (PFinish merged) =
     (if merged AND JOIN_INTEREST = 0 then Inr (t\<lparr>stage := StageEmpty\<rparr>, Some PDropWaker, NoEffect)
      else if merged AND JOIN_WAKER \<noteq> 0
      then (case join_waker t of
              Some w \<Rightarrow> Inr (t\<lparr>join_waker := None\<rparr>, Some (PWake w), NoEffect)
            | None \<Rightarrow> Inr (t\<lparr>join_waker := None\<rparr>, Some PDropWaker, NoEffect))
      else Inr (t, Some PDropWaker, NoEffect))"
| "poll_step spurious seen fut t (PWake w) = Inr (t, Some PDropWaker, WakeJoin w)"
| "poll_step spurious seen fut t PClearPending =
     (let prev = state t; t' = t\<lparr>state := prev AND NOT RUNNING\<rparr> in
      if prev AND NOTIFIED \<noteq> 0 then Inr (t', Some PReschedule, NoEffect)
      else Inr (t', Some PDropWaker, NoEffect))"
| "poll_step spurious seen fut t PReschedule =
     Inr (clone_ref t, Some (if seen then PDropWaker else PWakeDriver), Enqueue)"
| "poll_step spurious seen fut t PWakeDriver = Inr (t, Some PUnparkOne, WakeDriver)"
| "poll_step spurious seen fut t PUnparkOne = Inr (t, Some PDropWaker, UnparkOne)"
| "poll_step spurious seen fut t PDropWaker = Inr (drop_ref t, Some PDropArc, NoEffect)"
| "poll_step spurious seen fut t PDropArc = Inr (drop_ref t, None, NoEffect)"

subsection \<open>\<open>schedule_fn\<close> and the waker's vtable\<close>

text \<open>
  The call owns the reference it was given until it drops it or the push hands it to the queue. After the push
  it is still inside \<open>Spawner::schedule\<close>, whose \<open>&self\<close> is the \<open>Spawner\<close> in the task's allocation: at \<open>SWakeDriver\<close> and
  \<open>SUnparkOne\<close> the call reads that allocation and owns no reference to it.
\<close>

datatype sched_pc = SNotify | SPush | SWakeDriver | SUnparkOne | SDropArc

fun sched_step ::
  "bool \<Rightarrow> ('f, 'o, 'w) task \<Rightarrow> sched_pc \<Rightarrow> ('f, 'o, 'w) task \<times> sched_pc option \<times> 'w task_effect" where
  "sched_step seen t SNotify =
     (let prev = state t; t' = t\<lparr>state := prev OR NOTIFIED\<rparr> in
      if prev AND (RUNNING OR NOTIFIED OR COMPLETE) = 0 then (t', Some SPush, NoEffect)
      else (t', Some SDropArc, NoEffect))"
| "sched_step seen t SPush = (t, if seen then None else Some SWakeDriver, Enqueue)"
| "sched_step seen t SWakeDriver = (t, Some SUnparkOne, WakeDriver)"
| "sched_step seen t SUnparkOne = (t, None, UnparkOne)"
| "sched_step seen t SDropArc = (drop_ref t, None, NoEffect)"

text \<open>
  The four entries of the waker's vtable. Waking consumes the waker's reference in a call of
  \<open>schedule_fn\<close>; waking by reference first bumps the count for that call.
\<close>

definition task_clone :: "('f, 'o, 'w) task \<Rightarrow> ('f, 'o, 'w) task" where
  "task_clone t = clone_ref t"

definition task_wake :: "('f, 'o, 'w) task \<Rightarrow> ('f, 'o, 'w) task \<times> sched_pc" where
  "task_wake t = (t, SNotify)"

definition task_wake_by_ref :: "('f, 'o, 'w) task \<Rightarrow> ('f, 'o, 'w) task \<times> sched_pc" where
  "task_wake_by_ref t = (clone_ref t, SNotify)"

definition task_drop :: "('f, 'o, 'w) task \<Rightarrow> ('f, 'o, 'w) task" where
  "task_drop t = drop_ref t"

subsection \<open>\<open>JoinHandle\<close>\<close>

definition try_take_output :: "('f, 'o, 'w) task \<Rightarrow> ('f, 'o, 'w) task \<times> 'o option" where
  "try_take_output t =
     (if state t AND COMPLETE = 0 then (t, None)
      else (t\<lparr>stage := StageEmpty\<rparr>, case stage t of StageReady out \<Rightarrow> Some out | _ \<Rightarrow> None))"

definition clear_join_interest :: "('f, 'o, 'w) task \<Rightarrow> ('f, 'o, 'w) task \<times> bool" where
  "clear_join_interest t =
     (let prev = state t in (t\<lparr>state := prev AND NOT JOIN_INTEREST\<rparr>, prev AND COMPLETE \<noteq> 0))"

text \<open>
  \<open>JIdle\<close> is a fresh handle, \<open>JParked w\<close> one whose last poll returned pending with waker \<open>w\<close>. \<open>JTaken\<close> is
  a handle whose output was taken (its \<open>raw\<close> is \<open>None\<close>), \<open>JGone\<close> a dropped one.
\<close>

datatype ('o, 'w) join_pc =
    JIdle | JPoll 'w | JInstall 'w | JSetBit 'w | JRecheck 'w | JParked 'w
  | JTake | JReleaseTaken 'o | JTaken | JDropInterest | JDropOutput | JReleaseDropped | JGone

fun join_step :: "('f, 'o, 'w) task \<Rightarrow> ('o, 'w) join_pc \<Rightarrow> (('f, 'o, 'w) task \<times> ('o, 'w) join_pc) outcome" where
  "join_step t (JPoll w) = Inr (t, if state t AND COMPLETE \<noteq> 0 then JTake else JInstall w)"
| "join_step t (JInstall w) = Inr (t\<lparr>join_waker := Some w\<rparr>, JSetBit w)"
| "join_step t (JSetBit w) = Inr (t\<lparr>state := state t OR JOIN_WAKER\<rparr>, JRecheck w)"
| "join_step t (JRecheck w) = Inr (t, if state t AND COMPLETE \<noteq> 0 then JTake else JParked w)"
| "join_step t JTake =
     (case try_take_output t of
        (t', Some out) \<Rightarrow> Inr (t', JReleaseTaken out)
      | (_, None) \<Rightarrow> Inl (ExpectFailed ''JoinHandle polled after output was already taken''))"
| "join_step t (JReleaseTaken out) = Inr (drop_ref t, JTaken)"
| "join_step t JDropInterest =
     (let (t', complete) = clear_join_interest t in
      Inr (t', if complete then JDropOutput else JReleaseDropped))"
| "join_step t JDropOutput = Inr (t\<lparr>stage := StageEmpty\<rparr>, JReleaseDropped)"
| "join_step t JReleaseDropped = Inr (drop_ref t, JGone)"
| "join_step t pc = Inr (t, pc)"

text \<open>A handle is at rest when none of its functions is executing; only then can one be called.\<close>

fun join_at_rest :: "('o, 'w) join_pc \<Rightarrow> bool" where
  "join_at_rest JIdle = True"
| "join_at_rest (JParked _) = True"
| "join_at_rest JTaken = True"
| "join_at_rest JGone = True"
| "join_at_rest _ = False"

text \<open>Entry points of a handle: awaiting it and dropping it.\<close>

fun join_poll :: "'w \<Rightarrow> ('o, 'w) join_pc \<Rightarrow> ('o, 'w) join_pc outcome option" where
  "join_poll w JIdle = Some (Inr (JPoll w))"
| "join_poll w (JParked _) = Some (Inr (JPoll w))"
| "join_poll w JTaken = Some (Inl (ExpectFailed ''JoinHandle polled after completion''))"
| "join_poll w _ = None"

fun join_drop :: "('o, 'w) join_pc \<Rightarrow> ('o, 'w) join_pc option" where
  "join_drop JIdle = Some JDropInterest"
| "join_drop (JParked _) = Some JDropInterest"
| "join_drop JTaken = Some JGone"
| "join_drop _ = None"

section \<open>A task in its system\<close>

text \<open>
  The calls in flight on one task, the references to it that wait in a run queue or in wakers, and a
  record of what happened: the joiner's wakers that were woken, the outputs produced, delivered by
  the join handle and discarded, whether the future unwound, and whether the runtime's shutdown
  dropped the task's queue entry.
\<close>

record ('f, 'o, 'w) tsys =
  the_task :: "('f, 'o, 'w) task"
  run_queue :: nat
  waker_refs :: nat
  polls :: "('o, 'w) poll_pc multiset"
  scheds :: "sched_pc multiset"
  joiner :: "('o, 'w) join_pc"
  woken :: "'w list"
  produced :: "'o list"
  delivered :: "'o list"
  discarded :: "'o list"
  unwound :: bool
  drained :: bool

definition task_system :: "'f \<Rightarrow> ('f, 'o, 'w) tsys" where
  "task_system f = \<lparr>the_task = spawn_raw f, run_queue = 1, waker_refs = 0, polls = {#}, scheds = {#},
     joiner = JIdle, woken = [], produced = [], delivered = [], discarded = [], unwound = False, drained = False\<rparr>"

definition apply_effect :: "'w task_effect \<Rightarrow> ('f, 'o, 'w) tsys \<Rightarrow> ('f, 'o, 'w) tsys" where
  "apply_effect e s = (case e of
     NoEffect \<Rightarrow> s
   | Enqueue \<Rightarrow> s\<lparr>run_queue := run_queue s + 1\<rparr>
   | WakeDriver \<Rightarrow> s
   | UnparkOne \<Rightarrow> s
   | WakeJoin w \<Rightarrow> s\<lparr>woken := w # woken s\<rparr>)"

definition stage_output :: "('f, 'o, 'w) task \<Rightarrow> 'o list" where
  "stage_output t = (case stage t of StageReady out \<Rightarrow> [out] | _ \<Rightarrow> [])"

fun next_calls :: "'a option \<Rightarrow> 'a multiset" where
  "next_calls None = {#}"
| "next_calls (Some pc) = {#pc#}"

inductive task_step :: "('f, 'o, 'w) tsys \<Rightarrow> ('f, 'o, 'w) tsys \<Rightarrow> bool" where
  pop: "run_queue s = Suc n \<Longrightarrow> task_step s (s\<lparr>run_queue := n, polls := add_mset PLoad (polls s)\<rparr>)"
| drain: "run_queue s = Suc n \<Longrightarrow>
    task_step s (s\<lparr>run_queue := n, the_task := drop_ref (the_task s), drained := True\<rparr>)"
| poll: "polls s = add_mset pc M \<Longrightarrow>
    poll_step spurious seen fut (the_task s) pc = Inr (t, next, e) \<Longrightarrow>
    task_step s (apply_effect e (s\<lparr>the_task := t, polls := M + next_calls next,
      produced := (case pc of PWriteOutput out \<Rightarrow> out # produced s | _ \<Rightarrow> produced s),
      discarded := (case pc of PFinish _ \<Rightarrow>
          if stage t = StageEmpty then stage_output (the_task s) @ discarded s else discarded s
        | _ \<Rightarrow> discarded s),
      unwound := (unwound s \<or> (pc = PPoll \<and> next = Some PDropWaker))\<rparr>))"
| sched: "scheds s = add_mset pc M \<Longrightarrow> sched_step seen (the_task s) pc = (t, next, e) \<Longrightarrow>
    task_step s (apply_effect e (s\<lparr>the_task := t, scheds := M + next_calls next\<rparr>))"
| waker_clone: "waker_refs s > 0 \<or> PPoll \<in># polls s \<Longrightarrow>
    task_step s (s\<lparr>the_task := task_clone (the_task s), waker_refs := waker_refs s + 1\<rparr>)"
| waker_wake: "waker_refs s = Suc n \<Longrightarrow> task_wake (the_task s) = (t, pc) \<Longrightarrow>
    task_step s (s\<lparr>the_task := t, waker_refs := n, scheds := add_mset pc (scheds s)\<rparr>)"
| waker_wake_by_ref: "waker_refs s > 0 \<or> PPoll \<in># polls s \<Longrightarrow> task_wake_by_ref (the_task s) = (t, pc) \<Longrightarrow>
    task_step s (s\<lparr>the_task := t, scheds := add_mset pc (scheds s)\<rparr>)"
| waker_drop: "waker_refs s = Suc n \<Longrightarrow>
    task_step s (s\<lparr>the_task := task_drop (the_task s), waker_refs := n\<rparr>)"
| join_begin: "join_poll w (joiner s) = Some (Inr pc) \<Longrightarrow> task_step s (s\<lparr>joiner := pc\<rparr>)"
| join_drop: "join_drop (joiner s) = Some pc \<Longrightarrow> task_step s (s\<lparr>joiner := pc\<rparr>)"
| join: "\<not> join_at_rest (joiner s) \<Longrightarrow> join_step (the_task s) (joiner s) = Inr (t, pc) \<Longrightarrow>
    task_step s (s\<lparr>the_task := t, joiner := pc,
      delivered := (case pc of JReleaseTaken out \<Rightarrow> out # delivered s | _ \<Rightarrow> delivered s),
      discarded := (if joiner s = JDropOutput then stage_output (the_task s) @ discarded s else discarded s)\<rparr>)"

inductive task_reachable :: "'f \<Rightarrow> ('f, 'o, 'w) tsys \<Rightarrow> bool" for f where
  start: "task_reachable f (task_system f)"
| step: "task_reachable f s \<Longrightarrow> task_step s s' \<Longrightarrow> task_reachable f s'"

section \<open>Invariants\<close>

text \<open>
  A token is a right to poll the task: a queue entry, a call of \<open>poll_fn\<close> that has not yet taken
  \<open>RUNNING\<close>, or a call that is about to enqueue. A call is critical while it holds \<open>RUNNING\<close>.
\<close>

fun poll_token :: "('o, 'w) poll_pc \<Rightarrow> nat" where
  "poll_token PLoad = 1"
| "poll_token (PLoop _) = 1"
| "poll_token PReschedule = 1"
| "poll_token _ = 0"

fun sched_token :: "sched_pc \<Rightarrow> nat" where
  "sched_token SPush = 1"
| "sched_token _ = 0"

fun poll_critical :: "('o, 'w) poll_pc \<Rightarrow> nat" where
  "poll_critical PBuildWaker = 1"
| "poll_critical PPoll = 1"
| "poll_critical (PWriteOutput _) = 1"
| "poll_critical PSetComplete = 1"
| "poll_critical (PClearRunning _) = 1"
| "poll_critical PClearPending = 1"
| "poll_critical _ = 0"

fun poll_refs :: "('o, 'w) poll_pc \<Rightarrow> nat" where
  "poll_refs PLoad = 1"
| "poll_refs (PLoop _) = 1"
| "poll_refs PBuildWaker = 1"
| "poll_refs PDropArc = 1"
| "poll_refs _ = 2"

fun sched_refs :: "sched_pc \<Rightarrow> nat" where
  "sched_refs SNotify = 1"
| "sched_refs SPush = 1"
| "sched_refs SDropArc = 1"
| "sched_refs _ = 0"

fun join_refs :: "('o, 'w) join_pc \<Rightarrow> nat" where
  "join_refs JTaken = 0"
| "join_refs JGone = 0"
| "join_refs _ = 1"

abbreviation notified :: "('f, 'o, 'w) tsys \<Rightarrow> bool" where "notified s \<equiv> bit (state (the_task s)) 0"
abbreviation running :: "('f, 'o, 'w) tsys \<Rightarrow> bool" where "running s \<equiv> bit (state (the_task s)) 1"
abbreviation completed :: "('f, 'o, 'w) tsys \<Rightarrow> bool" where "completed s \<equiv> bit (state (the_task s)) 2"
abbreviation join_interest :: "('f, 'o, 'w) tsys \<Rightarrow> bool" where "join_interest s \<equiv> bit (state (the_task s)) 3"
abbreviation join_waker_bit :: "('f, 'o, 'w) tsys \<Rightarrow> bool" where "join_waker_bit s \<equiv> bit (state (the_task s)) 4"

definition tokens :: "('f, 'o, 'w) tsys \<Rightarrow> nat" where
  "tokens s = run_queue s + (\<Sum>pc\<in>#polls s. poll_token pc) + (\<Sum>pc\<in>#scheds s. sched_token pc)"

definition critical :: "('f, 'o, 'w) tsys \<Rightarrow> nat" where
  "critical s = (\<Sum>pc\<in>#polls s. poll_critical pc)"

definition loop_ok :: "('o, 'w) poll_pc \<Rightarrow> bool" where
  "loop_ok pc = (case pc of PLoop l \<Rightarrow> bit l 0 \<and> \<not> bit l 1 \<and> \<not> bit l 2 | _ \<Rightarrow> True)"

fun completing :: "('o, 'w) poll_pc \<Rightarrow> bool" where
  "completing (PClearRunning _) = True"
| "completing _ = False"

definition inv_tokens :: "('f, 'o, 'w) tsys \<Rightarrow> bool" where
  "inv_tokens s \<longleftrightarrow>
     tokens s = (if notified s \<and> \<not> running s \<and> \<not> completed s \<and> \<not> drained s then 1 else 0) \<and>
     critical s = (if running s \<and> \<not> unwound s then 1 else 0) \<and>
     (drained s \<longrightarrow> notified s \<and> \<not> running s \<and> \<not> completed s) \<and>
     (unwound s \<longrightarrow> running s \<and> \<not> completed s) \<and>
     (\<forall>pc \<in># polls s. loop_ok pc) \<and>
     (\<forall>pc \<in># polls s. completing pc \<longrightarrow> completed s) \<and>
     (completed s \<longrightarrow> (\<forall>pc \<in># polls s. poll_critical pc \<noteq> 0 \<longrightarrow> completing pc))"

lemma inv_tokens_start: "inv_tokens (task_system f)"
  by (simp add: inv_tokens_def task_system_def spawn_raw_def tokens_def critical_def state_bits)

lemmas waker_defs = task_clone_def task_wake_def task_wake_by_ref_def task_drop_def

lemmas task_simps = apply_effect_def clone_ref_def drop_ref_def state_bits tokens_def critical_def loop_ok_def
  waker_defs try_take_output_def clear_join_interest_def

text \<open>Most steps change none of what this invariant speaks of.\<close>

lemma completing_critical: "completing pc \<Longrightarrow> poll_critical pc \<noteq> 0"
  by (cases pc) simp_all

lemma inv_tokens_token:
  assumes "inv_tokens s" and "pc \<in># polls s" and "poll_token pc = 1"
  shows "notified s \<and> \<not> running s \<and> \<not> completed s"
proof -
  obtain M where "polls s = add_mset pc M" using assms(2) by (auto dest: multi_member_split)
  then have "tokens s \<noteq> 0" using assms(3) by (simp add: tokens_def)
  moreover have "tokens s = (if notified s \<and> \<not> running s \<and> \<not> completed s \<and> \<not> drained s then 1 else 0)"
    using assms(1) unfolding inv_tokens_def by blast
  ultimately show ?thesis by (auto split: if_splits)
qed

lemma inv_tokens_critical:
  assumes "inv_tokens s" and "pc \<in># polls s" and "poll_critical pc = 1"
  shows "running s \<and> \<not> unwound s \<and> (completed s \<longleftrightarrow> completing pc)"
proof -
  obtain M where "polls s = add_mset pc M" using assms(2) by (auto dest: multi_member_split)
  then have "critical s \<noteq> 0" using assms(3) by (simp add: critical_def)
  moreover have "critical s = (if running s \<and> \<not> unwound s then 1 else 0)"
    using assms(1) unfolding inv_tokens_def by blast
  moreover have "completed s \<longleftrightarrow> completing pc"
    using assms unfolding inv_tokens_def by (metis zero_neq_one)
  ultimately show ?thesis by (auto split: if_splits)
qed

lemma inv_tokens_runningD:
  assumes "inv_tokens s" and "running s" and "\<not> unwound s"
  shows "tokens s = 0" "critical s = 1" "\<not> drained s" "\<forall>pc \<in># polls s. loop_ok pc"
    "\<forall>pc \<in># polls s. completing pc \<longrightarrow> completed s"
  using assms unfolding inv_tokens_def by auto

lemma inv_tokens_frame:
  assumes inv: "inv_tokens s"
    and eqs: "notified s' = notified s" "running s' = running s" "completed s' = completed s"
      "drained s' = drained s" "unwound s' = unwound s" "tokens s' = tokens s" "critical s' = critical s"
    and pcs: "\<And>pc. pc \<in># polls s' \<Longrightarrow>
      pc \<in># polls s \<or> loop_ok pc \<and> (poll_critical pc = 0 \<or> \<not> completed s \<and> \<not> completing pc)"
  shows "inv_tokens s'"
proof -
  have "loop_ok pc \<and> (completing pc \<longrightarrow> completed s) \<and>
      (completed s \<and> poll_critical pc \<noteq> 0 \<longrightarrow> completing pc)" if "pc \<in># polls s'" for pc
    using pcs [OF that] inv completing_critical [of pc] by (auto simp: inv_tokens_def)
  then show ?thesis using inv unfolding inv_tokens_def eqs by blast
qed

lemma inv_tokens_poll:
  assumes inv: "inv_tokens s" and pc: "polls s = add_mset pc M"
    and st: "poll_step spurious seen fut (the_task s) pc = Inr (t, next, e)"
  shows "inv_tokens (apply_effect e (s\<lparr>the_task := t, polls := M + next_calls next,
      produced := p, discarded := d, unwound := (unwound s \<or> (pc = PPoll \<and> next = Some PDropWaker))\<rparr>))"
    (is "inv_tokens ?s'")
proof -
  have mem: "pc \<in># polls s" using pc by simp
  note tok = inv_tokens_token [OF inv mem] and crit = inv_tokens_critical [OF inv mem]
  show ?thesis
  proof (cases pc)
    case (PLoop l)
    then show ?thesis using inv pc st tok by (auto simp: inv_tokens_def task_simps Let_def split: if_splits)
  next
    case PSetComplete
    then show ?thesis using inv pc st crit by (auto simp: inv_tokens_def task_simps Let_def split: if_splits)
  next
    case (PClearRunning m)
    then show ?thesis using inv pc st crit by (auto simp: inv_tokens_def task_simps Let_def split: if_splits)
  next
    case PClearPending
    then show ?thesis using inv pc st crit by (auto simp: inv_tokens_def task_simps Let_def split: if_splits)
  next
    case PPoll
    show ?thesis
    proof (cases "next = Some PDropWaker")
      case True
      have r: "running s" "\<not> unwound s" "\<not> completed s" using PPoll crit by simp_all
      note d = inv_tokens_runningD [OF inv r(1,2)]
      have st': "state t = state (the_task s)" "e = NoEffect"
        using st True unfolding PPoll by (auto simp: Let_def split: stage.splits polled.splits prod.splits)
      have "tokens ?s' = 0" "critical ?s' = 0"
        using d(1,2) pc PPoll True st' by (simp_all add: task_simps)
      moreover have "loop_ok pc' \<and> \<not> completing pc'" if "pc' \<in># polls ?s'" for pc'
        using that d(4,5) r(3) pc PPoll True st' by (auto simp: task_simps)
      ultimately show ?thesis
        using r d(3) st' PPoll True by (simp add: inv_tokens_def apply_effect_def)
    next
      case False
      then show ?thesis
        by (intro inv_tokens_frame [OF inv])
          (use PPoll pc st crit in \<open>auto simp: task_simps Let_def split: stage.splits polled.splits prod.splits\<close>)
    qed
  qed (intro inv_tokens_frame [OF inv];
       use pc st tok crit in \<open>auto simp: task_simps split: if_splits option.splits\<close>)+
qed

lemma inv_tokens_sched:
  assumes inv: "inv_tokens s" and pc: "scheds s = add_mset pc M"
    and st: "sched_step seen (the_task s) pc = (t, next, e)"
  shows "inv_tokens (apply_effect e (s\<lparr>the_task := t, scheds := M + next_calls next\<rparr>))"
proof (cases pc)
  case SNotify
  with inv pc st show ?thesis
    by (auto simp: inv_tokens_def task_simps Let_def split: if_splits)
qed (intro inv_tokens_frame [OF inv]; use pc st in \<open>auto simp: task_simps split: if_splits\<close>)+

lemma inv_tokens_step:
  assumes "task_step s s'" and inv: "inv_tokens s"
  shows "inv_tokens s'"
  using assms(1)
proof cases
  case (pop n)
  then show ?thesis by (intro inv_tokens_frame [OF inv]) (auto simp: task_simps)
next
  case (drain n)
  then show ?thesis using inv by (auto simp: inv_tokens_def task_simps split: if_splits)
next
  case (poll pc M spurious seen fut t "next" e)
  then show ?thesis using inv_tokens_poll [OF inv] by simp
next
  case (sched pc M seen t "next" e)
  then show ?thesis using inv_tokens_sched [OF inv] by simp
next
  case (join t pc)
  show ?thesis unfolding join(1)
    by (intro inv_tokens_frame [OF inv];
        cases "joiner s") (use join(2,3) in \<open>auto simp: task_simps Let_def split: if_splits stage.splits\<close>)
qed (intro inv_tokens_frame [OF inv]; auto simp: task_simps)+

subsection \<open>The strong count\<close>

definition inv_refs :: "('f, 'o, 'w) tsys \<Rightarrow> bool" where
  "inv_refs s \<longleftrightarrow> strong (the_task s) =
     run_queue s + waker_refs s + (\<Sum>pc\<in>#polls s. poll_refs pc) + (\<Sum>pc\<in>#scheds s. sched_refs pc) + join_refs (joiner s)"

lemma join_poll_refs: "join_poll w j = Some (Inr pc) \<Longrightarrow> join_refs pc = join_refs j"
  by (cases j) auto

lemma join_drop_refs: "join_drop j = Some pc \<Longrightarrow> join_refs pc = join_refs j"
  by (cases j) auto

lemma inv_refs_poll:
  assumes "inv_refs s" and pc: "polls s = add_mset pc M"
    and st: "poll_step spurious seen fut (the_task s) pc = Inr (t, next, e)"
  shows "inv_refs (apply_effect e (s\<lparr>the_task := t, polls := M + next_calls next,
      produced := p, discarded := d, unwound := u\<rparr>))"
  using assms
  by (cases pc) (auto simp: inv_refs_def task_simps Let_def
      split: if_splits stage.splits polled.splits option.splits prod.splits)

lemma inv_refs_step:
  assumes "task_step s s'" and inv: "inv_refs s"
  shows "inv_refs s'"
  using assms(1)
proof cases
  case (poll pc M spurious seen fut t "next" e)
  then show ?thesis using inv_refs_poll [OF inv] by simp
next
  case (sched pc M seen t "next" e)
  then show ?thesis using inv
    by (cases pc) (auto simp: inv_refs_def task_simps Let_def split: if_splits)
next
  case (join_begin w pc)
  then show ?thesis using inv by (simp add: inv_refs_def join_poll_refs)
next
  case (join_drop pc)
  then show ?thesis using inv by (simp add: inv_refs_def join_drop_refs)
next
  case (join t pc)
  then show ?thesis using inv
    by (cases "joiner s") (auto simp: inv_refs_def task_simps Let_def split: if_splits stage.splits)
qed (use inv in \<open>auto simp: inv_refs_def task_simps\<close>)

subsection \<open>The stage cell and the join handle\<close>

fun fin_mask :: "('o, 'w) poll_pc \<Rightarrow> u64 option" where
  "fin_mask (PClearRunning m) = Some m"
| "fin_mask (PFinish m) = Some m"
| "fin_mask _ = None"

definition fin_masks :: "('o, 'w) poll_pc multiset \<Rightarrow> u64 multiset" where
  "fin_masks M = image_mset (\<lambda>pc. the (fin_mask pc)) {#pc \<in># M. fin_mask pc \<noteq> None#}"

lemma fin_masks_simps [simp]:
  "fin_masks {#} = {#}" "fin_masks (M + N) = fin_masks M + fin_masks N"
  "fin_masks (add_mset pc M) = (case fin_mask pc of None \<Rightarrow> fin_masks M | Some m \<Rightarrow> add_mset m (fin_masks M))"
  by (auto simp: fin_masks_def split: option.splits)

definition finishers :: "('f, 'o, 'w) tsys \<Rightarrow> u64 multiset" where
  "finishers s = fin_masks (polls s)"

fun join_attached :: "('o, 'w) join_pc \<Rightarrow> bool" where
  "join_attached JDropOutput = False"
| "join_attached JReleaseDropped = False"
| "join_attached (JReleaseTaken _) = False"
| "join_attached JTaken = False"
| "join_attached JGone = False"
| "join_attached _ = True"

fun join_took :: "('o, 'w) join_pc \<Rightarrow> bool" where
  "join_took (JReleaseTaken _) = True"
| "join_took JTaken = True"
| "join_took _ = False"

fun join_dropped :: "('o, 'w) join_pc \<Rightarrow> bool" where
  "join_dropped JReleaseDropped = True"
| "join_dropped JGone = True"
| "join_dropped _ = False"

text \<open>
  Before completion the cell holds the future, except between the write of the output and the setting
  of \<open>COMPLETE\<close>. After completion the cell is owned by the join handle while it is attached, and by
  the completing call if the handle was dropped before.
\<close>

definition inv_stage :: "('f, 'o, 'w) tsys \<Rightarrow> bool" where
  "inv_stage s \<longleftrightarrow>
     (if PSetComplete \<in># polls s \<or> completed s
      then \<exists>out. produced s = [out] \<and> stage (the_task s) \<in> {StageReady out, StageEmpty} \<and>
             mset (stage_output (the_task s)) + mset (delivered s) + mset (discarded s) = {#out#}
      else produced s = [] \<and> (\<exists>f. stage (the_task s) = StagePending f) \<and>
             delivered s = [] \<and> discarded s = []) \<and>
     (PSetComplete \<in># polls s \<longrightarrow> (\<exists>out. stage (the_task s) = StageReady out))"

definition inv_cell :: "('f, 'o, 'w) tsys \<Rightarrow> bool" where
  "inv_cell s \<longleftrightarrow>
     size (finishers s) \<le> (if completed s then 1 else 0) \<and>
     (completed s \<longrightarrow>
        (if join_attached (joiner s) \<or> joiner s = JDropOutput \<or> (\<exists>m \<in># finishers s. \<not> bit m 3)
         then \<exists>out. stage (the_task s) = StageReady out else stage (the_task s) = StageEmpty)) \<and>
     (\<forall>m \<in># finishers s. \<not> bit m 3 \<longrightarrow> join_dropped (joiner s)) \<and>
     (join_attached (joiner s) \<or> join_took (joiner s) \<longrightarrow> join_interest s) \<and>
     (joiner s \<in> {JDropOutput, JReleaseDropped} \<longrightarrow> \<not> join_interest s) \<and>
     (joiner s = JGone \<and> \<not> completed s \<longrightarrow> \<not> join_interest s) \<and>
     (joiner s \<in> {JTake, JDropOutput} \<or> join_took (joiner s) \<longrightarrow> completed s)"

lemma critical_unique:
  assumes "inv_tokens s" and "polls s = add_mset pc M" and "poll_critical pc = 1" and "pc' \<in># M"
  shows "poll_critical pc' = 0"
proof -
  have "critical s \<le> 1" using assms(1) unfolding inv_tokens_def by auto
  then have "(\<Sum>x\<in>#M. poll_critical x) = 0" using assms(2,3) by (simp add: critical_def)
  then show ?thesis using assms(4) by simp
qed

lemma critical_unique_complete:
  assumes "inv_tokens s" and "polls s = add_mset pc M" and "poll_critical pc = 1"
  shows "PSetComplete \<notin># M"
  using critical_unique [OF assms] by fastforce

lemma completed_no_set_complete:
  assumes "inv_tokens s" and "completed s"
  shows "PSetComplete \<notin># polls s"
proof
  assume "PSetComplete \<in># polls s"
  with assms have "completing (PSetComplete :: ('b, 'c) poll_pc)"
    unfolding inv_tokens_def by (metis poll_critical.simps(4) zero_neq_one)
  then show False by simp
qed

lemma inv_stage_frame:
  assumes "inv_stage s" and "PSetComplete \<in># polls s' \<longleftrightarrow> PSetComplete \<in># polls s"
    and "completed s' = completed s" and "stage (the_task s') = stage (the_task s)"
    and "produced s' = produced s" "delivered s' = delivered s" "discarded s' = discarded s"
  shows "inv_stage s'"
  using assms(1) unfolding inv_stage_def stage_output_def assms(2-) .

lemma inv_stage_poll:
  assumes inv: "inv_stage s" and tok: "inv_tokens s" and cell: "inv_cell s" and pc: "polls s = add_mset pc M"
    and st: "poll_step spurious seen fut (the_task s) pc = Inr (t, next, e)"
  shows "inv_stage (apply_effect e (s\<lparr>the_task := t, polls := M + next_calls next,
      produced := (case pc of PWriteOutput out \<Rightarrow> out # produced s | _ \<Rightarrow> produced s),
      discarded := (case pc of PFinish _ \<Rightarrow>
          if stage t = StageEmpty then stage_output (the_task s) @ discarded s else discarded s
        | _ \<Rightarrow> discarded s),
      unwound := u\<rparr>))"
proof -
  have mem: "pc \<in># polls s" using pc by simp
  note crit = inv_tokens_critical [OF tok mem] and uniq = critical_unique_complete [OF tok pc]
  show ?thesis
  proof (cases pc)
    case (PLoop l)
    then show ?thesis by (intro inv_stage_frame [OF inv])
      (use pc st inv_tokens_token [OF tok mem] in \<open>auto simp: task_simps Let_def split: if_splits\<close>)
  next
    case PPoll
    then show ?thesis using inv pc st crit uniq
      by (auto simp: inv_stage_def stage_output_def task_simps Let_def
          split: if_splits stage.splits polled.splits prod.splits)
  next
    case (PWriteOutput out)
    then show ?thesis using inv pc st crit uniq
      by (auto simp: inv_stage_def stage_output_def task_simps Let_def split: if_splits)
  next
    case PSetComplete
    then show ?thesis using inv pc st uniq
      by (auto simp: inv_stage_def stage_output_def task_simps Let_def split: if_splits)
  next
    case (PFinish m)
    then have "m \<in># finishers s" by (simp add: finishers_def pc)
    then have "completed s" using cell by (auto simp: inv_cell_def split: if_splits)
    then show ?thesis using inv pc st PFinish completed_no_set_complete [OF tok]
      by (auto simp: inv_stage_def stage_output_def task_simps split: if_splits option.splits stage.splits)
  next
    case PClearPending
    then show ?thesis by (intro inv_stage_frame [OF inv])
      (use pc st in \<open>auto simp: task_simps Let_def split: if_splits\<close>)
  qed (intro inv_stage_frame [OF inv]; use pc st in \<open>auto simp: task_simps split: if_splits\<close>)+
qed

lemma inv_stage_join:
  assumes inv: "inv_stage s" and tok: "inv_tokens s" and cell: "inv_cell s"
    and rest: "\<not> join_at_rest (joiner s)" and st: "join_step (the_task s) (joiner s) = Inr (t, pc)"
  shows "inv_stage (s\<lparr>the_task := t, joiner := pc,
      delivered := (case pc of JReleaseTaken out \<Rightarrow> out # delivered s | _ \<Rightarrow> delivered s),
      discarded := (if joiner s = JDropOutput then stage_output (the_task s) @ discarded s else discarded s)\<rparr>)"
proof (cases "joiner s \<in> {JTake, JDropOutput}")
  case True
  then have "completed s" using cell by (auto simp: inv_cell_def)
  with True inv st completed_no_set_complete [OF tok] show ?thesis
    by (auto simp: inv_stage_def stage_output_def task_simps split: if_splits stage.splits)
next
  case False
  then have "bit (state t) 2 = completed s" "stage t = stage (the_task s)" "\<not> (\<exists>out. pc = JReleaseTaken out)"
    using st rest by (cases "joiner s"; auto simp: task_simps Let_def split: if_splits)+
  then show ?thesis using False
    by (intro inv_stage_frame [OF inv]) (auto split: join_pc.splits)
qed

lemma inv_stage_step:
  assumes "task_step s s'" and inv: "inv_stage s" and tok: "inv_tokens s" and cell: "inv_cell s"
  shows "inv_stage s'"
  using assms(1)
proof cases
  case (poll pc M spurious seen fut t "next" e)
  show ?thesis unfolding poll(1) by (rule inv_stage_poll [OF inv tok cell poll(2,3)])
next
  case (sched pc M seen t "next" e)
  show ?thesis unfolding sched(1)
    by (intro inv_stage_frame [OF inv]; cases pc)
      (use sched(2,3) in \<open>auto simp: task_simps Let_def split: if_splits\<close>)
next
  case (join t pc)
  show ?thesis unfolding join(1) by (rule inv_stage_join [OF inv tok cell join(2,3)])
qed (intro inv_stage_frame [OF inv]; auto simp: task_simps)+

lemma inv_cell_frame:
  assumes "inv_cell s" and "finishers s' = finishers s" and "completed s' = completed s"
    and "join_interest s' = join_interest s" and "joiner s' = joiner s"
    and "completed s \<Longrightarrow> stage (the_task s') = stage (the_task s)"
  shows "inv_cell s'"
  using assms(1,6) unfolding inv_cell_def assms(2-5) by (cases "completed s") simp_all

lemma finishers_polls: "polls s' = polls s \<Longrightarrow> finishers s' = finishers s"
  by (simp add: finishers_def)

lemma inv_cell_poll:
  assumes inv: "inv_cell s" and tok: "inv_tokens s" and stg: "inv_stage s" and pc: "polls s = add_mset pc M"
    and st: "poll_step spurious seen fut (the_task s) pc = Inr (t, next, e)"
  shows "inv_cell (apply_effect e (s\<lparr>the_task := t, polls := M + next_calls next,
      produced := p, discarded := d, unwound := u\<rparr>))"
proof -
  have mem: "pc \<in># polls s" using pc by simp
  note crit = inv_tokens_critical [OF tok mem]
  show ?thesis
  proof (cases pc)
    case (PLoop l)
    then show ?thesis by (intro inv_cell_frame [OF inv])
      (use pc st in \<open>auto simp: task_simps finishers_def Let_def split: if_splits\<close>)
  next
    case PPoll
    then show ?thesis by (intro inv_cell_frame [OF inv])
      (use pc st crit in \<open>auto simp: task_simps finishers_def Let_def split: stage.splits polled.splits prod.splits\<close>)
  next
    case (PWriteOutput out)
    then show ?thesis by (intro inv_cell_frame [OF inv])
      (use pc st crit in \<open>auto simp: task_simps finishers_def\<close>)
  next
    case PSetComplete
    then have "\<not> completed s" "finishers s = {#}" "\<exists>out. stage (the_task s) = StageReady out"
      using crit inv stg mem by (auto simp: inv_cell_def inv_stage_def)
    then show ?thesis using inv pc st PSetComplete
      by (cases "joiner s") (auto simp: inv_cell_def finishers_def task_simps Let_def)
  next
    case (PFinish m)
    then have fin: "finishers s = {#m#}" "completed s" "finishers (s\<lparr>polls := M\<rparr>) = {#}"
      using inv pc by (auto simp: inv_cell_def finishers_def split: if_splits)
    have t: "state t = state (the_task s)" "stage t = (if bit m 3 then stage (the_task s) else StageEmpty)"
      "next_calls next = {#PDropWaker#} \<or> (\<exists>w. next_calls next = {#PWake w#})" "e = NoEffect"
      using st PFinish by (auto simp: state_bits split: if_splits option.splits)
    show ?thesis using inv fin t unfolding inv_cell_def
      by (cases "bit m 3"; cases "joiner s") (auto simp: apply_effect_def finishers_def)
  next
    case PClearPending
    then show ?thesis by (intro inv_cell_frame [OF inv])
      (use pc st in \<open>auto simp: task_simps finishers_def Let_def split: if_splits\<close>)
  qed (intro inv_cell_frame [OF inv]; use pc st in \<open>auto simp: task_simps finishers_def\<close>)+
qed

lemma inv_cell_join:
  assumes inv: "inv_cell s" and rest: "\<not> join_at_rest (joiner s)"
    and st: "join_step (the_task s) (joiner s) = Inr (t, pc)"
  shows "inv_cell (s\<lparr>the_task := t, joiner := pc, delivered := d, discarded := d'\<rparr>)"
  using assms
  by (cases "joiner s") (auto simp: inv_cell_def finishers_def task_simps Let_def split: if_splits stage.splits)

lemma inv_cell_step:
  assumes "task_step s s'" and inv: "inv_cell s" and tok: "inv_tokens s" and stg: "inv_stage s"
  shows "inv_cell s'"
  using assms(1)
proof cases
  case (pop n)
  then show ?thesis by (intro inv_cell_frame [OF inv]) (auto simp: finishers_def)
next
  case (poll pc M spurious seen fut t "next" e)
  show ?thesis unfolding poll(1) by (rule inv_cell_poll [OF inv tok stg poll(2,3)])
next
  case (sched pc M seen t "next" e)
  show ?thesis unfolding sched(1)
    by (intro inv_cell_frame [OF inv] finishers_polls; cases pc)
      (use sched(2,3) in \<open>auto simp: task_simps Let_def split: if_splits\<close>)
next
  case (join_begin w pc)
  then show ?thesis using inv
    by (cases "joiner s") (auto simp: inv_cell_def finishers_def)
next
  case (join_drop pc)
  then show ?thesis using inv
    by (cases "joiner s") (auto simp: inv_cell_def finishers_def)
next
  case (join t pc)
  show ?thesis unfolding join(1) by (rule inv_cell_join [OF inv join(2,3)])
qed (intro inv_cell_frame [OF inv]; auto simp: task_simps finishers_def)+

subsection \<open>The join waker\<close>

definition inv_park :: "('f, 'o, 'w) tsys \<Rightarrow> bool" where
  "inv_park s \<longleftrightarrow>
     (\<forall>w. \<not> completed s \<and> joiner s \<in> {JSetBit w, JRecheck w, JParked w} \<longrightarrow> join_waker (the_task s) = Some w) \<and>
     (\<forall>w. \<not> completed s \<and> joiner s \<in> {JRecheck w, JParked w} \<longrightarrow> join_waker_bit s) \<and>
     (\<forall>w. completed s \<and> joiner s = JParked w \<longrightarrow> w \<in> set (woken s) \<or> PWake w \<in># polls s \<or>
        (\<exists>m \<in># finishers s. bit m 3 \<and> bit m 4) \<and> join_waker (the_task s) = Some w)"

lemma inv_park_frame:
  assumes "inv_park s" and "completed s' = completed s" and "joiner s' = joiner s"
    and "join_waker (the_task s') = join_waker (the_task s)" and "join_waker_bit s' = join_waker_bit s"
    and "set (woken s) \<subseteq> set (woken s')" and "finishers s' = finishers s"
    and "\<And>w. PWake w \<in># polls s \<Longrightarrow> PWake w \<in># polls s'"
  shows "inv_park s'"
  using assms(1,6,8) unfolding inv_park_def assms(2-5,7) by blast

lemma inv_park_poll:
  assumes inv: "inv_park s" and tok: "inv_tokens s" and cell: "inv_cell s" and pc: "polls s = add_mset pc M"
    and st: "poll_step spurious seen fut (the_task s) pc = Inr (t, next, e)"
  shows "inv_park (apply_effect e (s\<lparr>the_task := t, polls := M + next_calls next,
      produced := p, discarded := d, unwound := u\<rparr>))"
proof -
  have mem: "pc \<in># polls s" using pc by simp
  note crit = inv_tokens_critical [OF tok mem]
  show ?thesis
  proof (cases pc)
    case (PLoop l)
    then show ?thesis by (intro inv_park_frame [OF inv])
      (use pc st in \<open>auto simp: task_simps finishers_def Let_def split: if_splits\<close>)
  next
    case PPoll
    then show ?thesis by (intro inv_park_frame [OF inv])
      (use pc st in \<open>auto simp: task_simps finishers_def Let_def split: stage.splits polled.splits prod.splits\<close>)
  next
    case PSetComplete
    then have "\<not> completed s" using crit by simp
    moreover have "join_attached (joiner s) \<longrightarrow> join_interest s" using cell by (auto simp: inv_cell_def)
    ultimately show ?thesis using inv pc st PSetComplete
      by (auto simp: inv_park_def finishers_def task_simps Let_def)
  next
    case (PFinish m)
    then have fin: "finishers s = {#m#}" "completed s" "fin_masks M = {#}"
      using cell pc by (auto simp: inv_cell_def finishers_def split: if_splits)
    then show ?thesis using inv pc st PFinish
      by (auto simp: inv_park_def finishers_def task_simps split: if_splits option.splits)
  next
    case (PWake w)
    then show ?thesis using inv pc st by (auto simp: inv_park_def finishers_def task_simps)
  next
    case PClearPending
    then show ?thesis by (intro inv_park_frame [OF inv])
      (use pc st in \<open>auto simp: task_simps finishers_def Let_def split: if_splits\<close>)
  qed (intro inv_park_frame [OF inv]; use pc st in \<open>auto simp: task_simps finishers_def\<close>)+
qed

lemma inv_park_join:
  assumes inv: "inv_park s" and rest: "\<not> join_at_rest (joiner s)"
    and st: "join_step (the_task s) (joiner s) = Inr (t, pc)"
  shows "inv_park (s\<lparr>the_task := t, joiner := pc, delivered := d, discarded := d'\<rparr>)"
  using assms
  by (cases "joiner s") (auto simp: inv_park_def finishers_def task_simps Let_def split: if_splits stage.splits)

lemma inv_park_step:
  assumes "task_step s s'" and inv: "inv_park s" and tok: "inv_tokens s" and cell: "inv_cell s"
  shows "inv_park s'"
  using assms(1)
proof cases
  case (pop n)
  then show ?thesis by (intro inv_park_frame [OF inv]) (auto simp: finishers_def)
next
  case (poll pc M spurious seen fut t "next" e)
  show ?thesis unfolding poll(1) by (rule inv_park_poll [OF inv tok cell poll(2,3)])
next
  case (sched pc M seen t "next" e)
  show ?thesis unfolding sched(1)
    by (intro inv_park_frame [OF inv] finishers_polls; cases pc)
      (use sched(2,3) in \<open>auto simp: task_simps Let_def split: if_splits\<close>)
next
  case (join_begin w pc)
  then show ?thesis by (cases "joiner s") (auto simp: inv_park_def)
next
  case (join_drop pc)
  then show ?thesis by (cases "joiner s") (auto simp: inv_park_def)
next
  case (join t pc)
  show ?thesis unfolding join(1) by (rule inv_park_join [OF inv join(2,3)])
qed (intro inv_park_frame [OF inv]; auto simp: task_simps finishers_def)+

subsection \<open>All reachable systems\<close>

definition task_inv :: "('f, 'o, 'w) tsys \<Rightarrow> bool" where
  "task_inv s \<longleftrightarrow> inv_tokens s \<and> inv_refs s \<and> inv_stage s \<and> inv_cell s \<and> inv_park s"

lemma task_inv_start: "task_inv (task_system f)"
  by (simp add: task_inv_def inv_tokens_start)
    (simp add: inv_refs_def inv_stage_def inv_cell_def inv_park_def task_system_def spawn_raw_def
      finishers_def state_bits)

lemma task_inv_step: "task_step s s' \<Longrightarrow> task_inv s \<Longrightarrow> task_inv s'"
  unfolding task_inv_def
  by (blast intro: inv_tokens_step inv_refs_step inv_stage_step inv_cell_step inv_park_step)

lemma task_reachable_inv: "task_reachable f s \<Longrightarrow> task_inv s"
  by (induction rule: task_reachable.induct) (auto simp: task_inv_start intro: task_inv_step)

subsection \<open>A sample run\<close>

text \<open>
  One poll call or the join handle taking its next step in a system where nothing else is in flight.
\<close>

definition poll_alone :: "('f \<Rightarrow> 'f \<times> 'o polled) \<Rightarrow> ('o, 'w) poll_pc \<Rightarrow> ('f, 'o, 'w) tsys \<Rightarrow> ('f, 'o, 'w) tsys" where
  "poll_alone fut pc s = (case poll_step False False fut (the_task s) pc of
     Inl _ \<Rightarrow> s
   | Inr (t, next, e) \<Rightarrow> apply_effect e (s\<lparr>the_task := t, polls := next_calls next,
      produced := (case pc of PWriteOutput out \<Rightarrow> out # produced s | _ \<Rightarrow> produced s),
      discarded := (case pc of PFinish _ \<Rightarrow>
          if stage t = StageEmpty then stage_output (the_task s) @ discarded s else discarded s
        | _ \<Rightarrow> discarded s),
      unwound := (unwound s \<or> (pc = PPoll \<and> next = Some PDropWaker))\<rparr>))"

lemma reachable_poll_alone:
  assumes "task_reachable f s" and "polls s = {#pc#}"
  shows "task_reachable f (poll_alone fut pc s)"
proof (cases "poll_step False False fut (the_task s) pc")
  case (Inl p)
  then show ?thesis using assms(1) by (simp add: poll_alone_def)
next
  case (Inr r)
  obtain t "next" e where "r = (t, next, e)" by (cases r)
  then have st: "poll_step False False fut (the_task s) pc = Inr (t, next, e)" using Inr by simp
  show ?thesis
    using task_reachable.step [OF assms(1) task_step.poll [of s pc "{#}", OF _ st]] assms(2)
    by (simp add: poll_alone_def st split del: if_split)
qed

definition join_alone :: "('f, 'o, 'w) tsys \<Rightarrow> ('f, 'o, 'w) tsys" where
  "join_alone s = (case join_step (the_task s) (joiner s) of
     Inl _ \<Rightarrow> s
   | Inr (t, pc) \<Rightarrow> s\<lparr>the_task := t, joiner := pc,
      delivered := (case pc of JReleaseTaken out \<Rightarrow> out # delivered s | _ \<Rightarrow> delivered s),
      discarded := (if joiner s = JDropOutput then stage_output (the_task s) @ discarded s else discarded s)\<rparr>)"

lemma reachable_join_alone:
  assumes "task_reachable f s" and "\<not> join_at_rest (joiner s)"
  shows "task_reachable f (join_alone s)"
  using assms task_step.join [OF assms(2)]
  by (auto simp: join_alone_def split: sum.splits intro: task_reachable.step)

lemmas run_simps = waker_defs try_take_output_def clear_join_interest_def poll_alone_def join_alone_def apply_effect_def clone_ref_def drop_ref_def stage_output_def

lemma state_bit_values: "NOTIFIED = 1" "RUNNING = 2" "COMPLETE = 4" "JOIN_INTEREST = 8" "JOIN_WAKER = 16"
  by (simp_all add: state_bit_defs)

definition sample_sys ::
  "u64 \<Rightarrow> 'w option \<Rightarrow> (unit, nat) stage \<Rightarrow> nat \<Rightarrow> nat \<Rightarrow> (nat, 'w) poll_pc multiset \<Rightarrow> (nat, 'w) join_pc \<Rightarrow>
     'w list \<Rightarrow> nat list \<Rightarrow> (unit, nat, 'w) tsys" where
  "sample_sys st jw stg n q ps j wk pr = \<lparr>the_task = \<lparr>state = st, join_waker = jw, stage = stg, strong = n\<rparr>,
     run_queue = q, waker_refs = 0, polls = ps, scheds = {#}, joiner = j,
     woken = wk, produced = pr, delivered = [], discarded = [], unwound = False, drained = False\<rparr>"

lemma sample_parked: "task_reachable () (sample_sys 25 (Some w) (StagePending ()) 2 1 {#} (JParked w) [] [])"
proof -
  note [simp] = sample_sys_def run_simps state_bit_values
  have s0: "task_reachable () (sample_sys 9 None (StagePending ()) 2 1 {#} JIdle [] [])"
    using task_reachable.start [of "()"] by (simp add: task_system_def spawn_raw_def numeral_2_eq_2)
  have s1: "task_reachable () (sample_sys 9 None (StagePending ()) 2 1 {#} (JPoll w) [] [])"
    using task_reachable.step [OF s0 task_step.join_begin [of w _ "JPoll w"]] by simp
  have s2: "task_reachable () (sample_sys 9 None (StagePending ()) 2 1 {#} (JInstall w) [] [])"
    using reachable_join_alone [OF s1] by simp
  have s3: "task_reachable () (sample_sys 9 (Some w) (StagePending ()) 2 1 {#} (JSetBit w) [] [])"
    using reachable_join_alone [OF s2] by simp
  have s4: "task_reachable () (sample_sys 25 (Some w) (StagePending ()) 2 1 {#} (JRecheck w) [] [])"
    using reachable_join_alone [OF s3] by simp
  show ?thesis using reachable_join_alone [OF s4] by simp
qed

text \<open>The same system with a worker inside the future, and after the task has completed.\<close>

lemma sample_polling:
  "task_reachable () (sample_sys 26 (Some w) (StagePending ()) 3 0 {#PPoll#} (JParked w) [] [])"
proof -
  note [simp] = sample_sys_def run_simps state_bit_values
  let ?fut = "\<lambda>f :: unit. (f, FutReady (42 :: nat))" and ?P = "StagePending ()"
  have s0: "task_reachable () (sample_sys 25 (Some w) ?P 2 0 {#PLoad#} (JParked w) [] [])"
    using task_reachable.step [OF sample_parked task_step.pop [of _ 0]] by simp
  have s1: "task_reachable () (sample_sys 25 (Some w) ?P 2 0 {#PLoop 25#} (JParked w) [] [])"
    using reachable_poll_alone [OF s0, of PLoad ?fut] by simp
  have s2: "task_reachable () (sample_sys 26 (Some w) ?P 2 0 {#PBuildWaker#} (JParked w) [] [])"
    using reachable_poll_alone [OF s1, of "PLoop 25" ?fut] by simp
  show ?thesis
    using reachable_poll_alone [OF s2, of PBuildWaker ?fut] by (simp add: numeral_3_eq_3 numeral_2_eq_2)
qed

lemma sample_completed:
  "task_reachable () (sample_sys 28 None (StageReady 42) 3 0 {#PDropWaker#} (JParked w) [w] [42])"
proof -
  note [simp] = sample_sys_def run_simps state_bit_values
  let ?fut = "\<lambda>f :: unit. (f, FutReady (42 :: nat))" and ?P = "StagePending ()" and ?R = "StageReady 42"
  have s4: "task_reachable () (sample_sys 26 (Some w) ?P 3 0 {#PWriteOutput 42#} (JParked w) [] [])"
    using reachable_poll_alone [OF sample_polling [of w], of PPoll ?fut] by simp
  have s5: "task_reachable () (sample_sys 26 (Some w) ?R 3 0 {#PSetComplete#} (JParked w) [] [42])"
    using reachable_poll_alone [OF s4, of "PWriteOutput 42" ?fut] by simp
  have s6: "task_reachable () (sample_sys 30 (Some w) ?R 3 0 {#PClearRunning 30#} (JParked w) [] [42])"
    using reachable_poll_alone [OF s5, of PSetComplete ?fut] by (simp add: Let_def)
  have s7: "task_reachable () (sample_sys 28 (Some w) ?R 3 0 {#PFinish 30#} (JParked w) [] [42])"
    using reachable_poll_alone [OF s6, of "PClearRunning 30" ?fut] by simp
  have s8: "task_reachable () (sample_sys 28 None ?R 3 0 {#PWake w#} (JParked w) [] [42])"
    using reachable_poll_alone [OF s7, of "PFinish 30" ?fut] by simp
  show ?thesis using reachable_poll_alone [OF s8, of "PWake w" ?fut] by simp
qed

lemma unwound_step: "task_step s s' \<Longrightarrow> unwound s \<Longrightarrow> unwound s'"
  by (induction rule: task_step.induct) (auto simp: apply_effect_def split: task_effect.splits)

lemma reachable_steps: "task_step\<^sup>*\<^sup>* s s' \<Longrightarrow> task_reachable f s \<Longrightarrow> task_reachable f s'"
  by (induction rule: rtranclp_induct) (auto intro: task_reachable.step)

lemma poll_progress:
  assumes "task_reachable f s" and mem: "pc \<in># polls s"
  shows "\<exists>r. poll_step spurious seen fut (the_task s) pc = Inr r"
proof (cases "pc = PPoll")
  case True
  have inv: "inv_tokens s" "inv_stage s" using task_reachable_inv [OF assms(1)] by (simp_all add: task_inv_def)
  obtain M where M: "polls s = add_mset pc M" using mem by (auto dest: multi_member_split)
  have "PSetComplete \<notin># polls s" "\<not> completed s"
    using True inv_tokens_critical [OF inv(1) mem] critical_unique_complete [OF inv(1) M] by (simp_all add: M)
  then obtain g where "stage (the_task s) = StagePending g" using inv(2) by (auto simp: inv_stage_def)
  then show ?thesis using True by (auto simp: Let_def split: prod.splits polled.splits)
qed (cases pc; auto simp: Let_def split: option.splits)

lemma join_take_progress:
  assumes "task_reachable f s" and "joiner s = JTake"
  obtains out where "try_take_output (the_task s) = ((the_task s)\<lparr>stage := StageEmpty\<rparr>, Some out)"
    and "stage (the_task s) = StageReady out" and "produced s = [out]"
proof -
  have inv: "inv_stage s" "inv_cell s" using task_reachable_inv [OF assms(1)] by (simp_all add: task_inv_def)
  have "completed s" using inv(2) assms(2) by (auto simp: inv_cell_def)
  moreover from this have "\<exists>out. stage (the_task s) = StageReady out"
    using inv(2) assms(2) unfolding inv_cell_def by simp
  then obtain out where "stage (the_task s) = StageReady out" by blast
  moreover from calculation have "produced s = [out]" using inv(1) by (auto simp: inv_stage_def split: if_splits)
  ultimately show thesis using that [of out] by (simp add: state_bits try_take_output_def)
qed

section \<open>Properties of a task\<close>

text \<open>
  Claim C5. In every interleaving a task is in a run queue at most once and never while it is
  running, at most one worker is inside its future, a worker that pops it always gets \<open>RUNNING\<close> at
  its first successful exchange (the bail-out of \<open>poll_fn\<close> is not taken), and no step of \<open>poll_fn\<close>
  panics.
\<close>

theorem task_exclusive:
  assumes "task_reachable f s"
  shows "run_queue s \<le> 1 \<and> critical s \<le> 1 \<and> (critical s = 1 \<longrightarrow> tokens s = 0 \<and> run_queue s = 0) \<and>
     (\<forall>l. PLoop l \<in># polls s \<longrightarrow> l AND RUNNING = 0 \<and> l AND COMPLETE = 0) \<and>
     (\<forall>pc \<in># polls s. \<forall>spurious seen fut. \<exists>r. poll_step spurious seen fut (the_task s) pc = Inr r)"
proof (intro conjI allI ballI impI)
  have inv: "inv_tokens s" "inv_stage s" using task_reachable_inv [OF assms] by (simp_all add: task_inv_def)
  have t: "tokens s = (if notified s \<and> \<not> running s \<and> \<not> completed s \<and> \<not> drained s then 1 else 0)"
    and c: "critical s = (if running s \<and> \<not> unwound s then 1 else 0)"
    using inv(1) unfolding inv_tokens_def by blast+
  have q: "run_queue s \<le> tokens s" by (simp add: tokens_def)
  show "run_queue s \<le> 1" "critical s \<le> 1" using t c q by (auto split: if_splits)
  show "tokens s = 0" "run_queue s = 0" if "critical s = 1" using t c q that by (auto split: if_splits)
  show "l AND RUNNING = 0" "l AND COMPLETE = 0" if "PLoop l \<in># polls s" for l
    using inv(1) that by (auto simp: inv_tokens_def loop_ok_def state_bits)
  show "\<exists>r. poll_step spurious seen fut (the_task s) pc = Inr r" if "pc \<in># polls s" for pc spurious seen fut
    by (rule poll_progress [OF assms that])
qed

theorem task_exclusive_witness:
  "critical (sample_sys 28 None (StageReady 42) 3 0 {#PDropWaker#} (JParked ''w'') [''w''] [42]) \<le> 1 \<and>
   (\<exists>r. poll_step False False (\<lambda>f. (f, FutPending))
      (the_task (sample_sys 28 None (StageReady 42) 3 0 {#PDropWaker#} (JParked ''w'') [''w''] [42])) PDropWaker = Inr r)"
  using task_exclusive [OF sample_completed [of "''w''"]] by (simp add: sample_sys_def)

text \<open>
  Claim C6. A wake is never lost in the life of a task, until its future unwinds or its queue entry is dropped at
  shutdown: while \<open>NOTIFIED\<close> is set on such an unfinished task, either the task is
  queued or about to be (exactly one call or queue entry holds the right to poll it), or a worker is
  inside its future and will re-queue it when the future returns pending.
\<close>

theorem task_wake_kept:
  assumes "task_reachable f s" and "notified s" and "\<not> completed s" and "\<not> unwound s" and "\<not> drained s"
  shows "if running s
     then critical s = 1 \<and>
       (PClearPending \<in># polls s \<longrightarrow>
          (\<exists>t. poll_step spurious seen fut (the_task s) PClearPending = Inr (t, Some PReschedule, NoEffect)))
     else tokens s = 1"
  using task_reachable_inv [OF assms(1)] assms(2-)
  by (auto simp: task_inv_def inv_tokens_def state_bits)

theorem task_wake_kept_witness:
  "tokens (sample_sys 25 (Some ''w'') (StagePending ()) 2 1 {#} (JParked ''w'') [] []) = 1"
  using task_wake_kept [OF sample_parked [of "''w''"]]
  by (simp add: sample_sys_def bit_numeral_rec)

text \<open>
  Claim C18. A task produces at most one output and disposes of it exactly once: at every moment it
  is in the cell, has been delivered by the join handle, or has been dropped. A join handle that
  sees \<open>COMPLETE\<close> finds the output in the cell, so awaiting it does not panic.
\<close>

theorem task_output_once:
  assumes "task_reachable f s"
  shows "length (produced s) \<le> 1 \<and>
     mset (stage_output (the_task s)) + mset (delivered s) + mset (discarded s) = mset (produced s) \<and>
     (joiner s = JTake \<longrightarrow> (\<exists>t out. join_step (the_task s) JTake = Inr (t, JReleaseTaken out) \<and> produced s = [out]))"
proof -
  have inv: "inv_stage s" using task_reachable_inv [OF assms] by (simp add: task_inv_def)
  have "length (produced s) \<le> 1"
    "mset (stage_output (the_task s)) + mset (delivered s) + mset (discarded s) = mset (produced s)"
    using inv by (auto simp: inv_stage_def stage_output_def split: if_splits)
  moreover have "\<exists>t out. join_step (the_task s) JTake = Inr (t, JReleaseTaken out) \<and> produced s = [out]"
    if "joiner s = JTake"
    by (rule join_take_progress [OF assms that]) simp
  ultimately show ?thesis by blast
qed

theorem task_output_once_witness:
  "mset (stage_output (the_task (sample_sys 28 None (StageReady 42) 3 0 {#PDropWaker#} (JParked ''w'') [''w''] [42]))) =
   {#42#}"
  using task_output_once [OF sample_completed [of "''w''"]] by (simp add: sample_sys_def)

text \<open>
  Claim C19. A parked join handle is always woken: once the task is complete, the waker of the
  handle's last pending poll has been woken, or the completing call is still going to take it from
  the slot and wake it.
\<close>

theorem task_join_wake:
  assumes "task_reachable f s" and "joiner s = JParked w" and "completed s"
  shows "w \<in> set (woken s) \<or> PWake w \<in># polls s \<or>
     (join_waker (the_task s) = Some w \<and>
      (\<exists>m. (PClearRunning m \<in># polls s \<or> PFinish m \<in># polls s) \<and>
         (\<exists>t. poll_step spurious seen fut (the_task s) (PFinish m) = Inr (t, Some (PWake w), NoEffect))))"
proof -
  have "inv_park s" using task_reachable_inv [OF assms(1)] by (simp add: task_inv_def)
  then consider "w \<in> set (woken s)" | "PWake w \<in># polls s"
    | m where "m \<in># finishers s" "bit m 3" "bit m 4" "join_waker (the_task s) = Some w"
    using assms(2,3) by (auto simp: inv_park_def)
  then show ?thesis
  proof cases
    case 3
    obtain pc where pc: "pc \<in># polls s" "fin_mask pc = Some m"
      using 3(1) by (auto simp: finishers_def fin_masks_def)
    then have "PClearRunning m \<in># polls s \<or> PFinish m \<in># polls s"
      by (cases pc) auto
    then show ?thesis using 3 by (auto simp: state_bits)
  qed blast+
qed

theorem task_join_wake_witness:
  "''w'' \<in> set (woken (sample_sys 28 None (StageReady 42) 3 0 {#PDropWaker#} (JParked ''w'') [''w''] [42]))"
  using task_join_wake [OF sample_completed [of "''w''"]]
  by (simp add: sample_sys_def bit_numeral_rec)

text \<open>
  Claim C20. The strong count of a task is exactly the number of references to it: its queue entries, its wakers,
  one or two for each call of \<open>poll_fn\<close> in flight (the call's own and, from the moment it is built until it is dropped,
  the waker's), one for each call of \<open>schedule_fn\<close> that has neither dropped its reference nor pushed it, and that of the
  join handle until it releases it. So the count reaches zero exactly when nothing but calls of \<open>schedule_fn\<close> past their
  push is left, and the cell then holds no output.
\<close>

theorem task_refcount_exact:
  assumes "task_reachable f s"
  shows "strong (the_task s) = run_queue s + waker_refs s + (\<Sum>pc\<in>#polls s. poll_refs pc) +
       size {#pc \<in># scheds s. pc \<noteq> SWakeDriver \<and> pc \<noteq> SUnparkOne#} + (if joiner s \<in> {JTaken, JGone} then 0 else 1) \<and>
     (strong (the_task s) = 0 \<longleftrightarrow> run_queue s = 0 \<and> waker_refs s = 0 \<and> polls s = {#} \<and>
        (\<forall>pc \<in># scheds s. pc \<in> {SWakeDriver, SUnparkOne}) \<and> joiner s \<in> {JTaken, JGone}) \<and>
     (strong (the_task s) = 0 \<longrightarrow> stage_output (the_task s) = [])"
proof -
  have inv: "inv_refs s" "inv_stage s" "inv_cell s" using task_reachable_inv [OF assms] by (simp_all add: task_inv_def)
  have pos: "poll_refs pc \<noteq> 0" for pc :: "('b, 'c) poll_pc" by (cases pc) simp_all
  have j: "join_refs (joiner s) = (if joiner s \<in> {JTaken, JGone} then 0 else 1)" by (cases "joiner s") simp_all
  have "sched_refs pc = (if pc \<noteq> SWakeDriver \<and> pc \<noteq> SUnparkOne then 1 else 0)" for pc by (cases pc) simp_all
  then have sc: "(\<Sum>pc\<in>#M. sched_refs pc) = size {#pc \<in># M. pc \<noteq> SWakeDriver \<and> pc \<noteq> SUnparkOne#}" for M
    by (induction M) simp_all
  have count: "strong (the_task s) = run_queue s + waker_refs s + (\<Sum>pc\<in>#polls s. poll_refs pc) +
      size {#pc \<in># scheds s. pc \<noteq> SWakeDriver \<and> pc \<noteq> SUnparkOne#} + (if joiner s \<in> {JTaken, JGone} then 0 else 1)"
    using inv(1) by (simp only: inv_refs_def j sc)
  have "(\<Sum>pc\<in>#polls s. poll_refs pc) = 0 \<longleftrightarrow> polls s = {#}"
    using pos by (cases "polls s") auto
  moreover have "size {#pc \<in># scheds s. pc \<noteq> SWakeDriver \<and> pc \<noteq> SUnparkOne#} = 0 \<longleftrightarrow>
      (\<forall>pc \<in># scheds s. pc \<in> {SWakeDriver, SUnparkOne})"
    by auto
  ultimately have eq: "strong (the_task s) = 0 \<longleftrightarrow> run_queue s = 0 \<and> waker_refs s = 0 \<and> polls s = {#} \<and>
      (\<forall>pc \<in># scheds s. pc \<in> {SWakeDriver, SUnparkOne}) \<and> joiner s \<in> {JTaken, JGone}"
    unfolding count by (auto split: if_splits)
  have "stage_output (the_task s) = []" if "strong (the_task s) = 0"
  proof (cases "completed s")
    case True
    then have "stage (the_task s) = StageEmpty"
      using inv(3) that eq by (auto simp: inv_cell_def finishers_def)
    then show ?thesis by (simp add: stage_output_def)
  next
    case False
    then show ?thesis using inv(2) that eq by (auto simp: inv_stage_def stage_output_def)
  qed
  with count eq show ?thesis by blast
qed

theorem task_refcount_exact_witness:
  "strong (the_task (sample_sys 28 None (StageReady 42) 3 0 {#PDropWaker#} (JParked ''w'') [''w''] [42])) = 2 + 1"
  using task_refcount_exact [OF sample_completed [of "''w''"]] by (simp add: sample_sys_def)

text \<open>
  Claim C38. A future that unwinds inside its poll leaves \<open>RUNNING\<close> set for good: from then on the
  task is never queued or polled again, never completes, and its join handle never finds an output.
\<close>

theorem task_unwound_stuck:
  assumes "task_reachable f s" and "unwound s" and "task_step\<^sup>*\<^sup>* s s'"
  shows "running s' \<and> \<not> completed s' \<and> tokens s' = 0 \<and> critical s' = 0 \<and> joiner s' \<noteq> JTake \<and> delivered s' = []"
proof -
  have "unwound s'" using assms(3,2) by (induction rule: rtranclp_induct) (auto intro: unwound_step)
  moreover have inv: "inv_tokens s'" "inv_stage s'" "inv_cell s'"
    using task_reachable_inv [OF reachable_steps [OF assms(3,1)]] by (simp_all add: task_inv_def)
  ultimately have r: "running s'" "\<not> completed s'" "tokens s' = 0" "critical s' = 0"
    unfolding inv_tokens_def by auto
  then have "PSetComplete \<notin># polls s'"
    by (auto simp: critical_def)
  then show ?thesis using r inv(2,3) by (auto simp: inv_stage_def inv_cell_def)
qed

theorem task_unwound_stuck_witness:
  "\<exists>s :: (unit, nat, string) tsys. task_reachable () s \<and> unwound s \<and> joiner s = JParked ''w'' \<and> (\<forall>s'. task_step\<^sup>*\<^sup>* s s' \<longrightarrow> delivered s' = [])"
proof -
  have "task_reachable () (sample_sys 26 (Some ''w'') (StagePending ()) 3 0 {#PDropWaker#} (JParked ''w'') [] []
      \<lparr>unwound := True\<rparr>)" (is "task_reachable () ?s")
    using reachable_poll_alone [OF sample_polling [of "''w''"], of PPoll "\<lambda>f. (f, FutPanic)"]
    by (simp add: sample_sys_def run_simps)
  moreover have "unwound ?s" "joiner ?s = JParked ''w''" by (simp_all add: sample_sys_def)
  moreover have "delivered s' = []" if "task_step\<^sup>*\<^sup>* ?s s'" for s'
    using task_unwound_stuck [OF calculation(1,2) that] by blast
  ultimately show ?thesis by blast
qed

section \<open>Yielding\<close>

record yield_now =
  polled_once :: bool

definition yield_now_new :: yield_now where
  "yield_now_new = \<lparr>polled_once = False\<rparr>"

text \<open>The flag in the result says whether the poll called \<open>wake_by_ref\<close> on its waker.\<close>

definition yield_poll :: "yield_now \<Rightarrow> yield_now \<times> unit polled \<times> bool" where
  "yield_poll y =
     (if polled_once y then (y, FutReady (), False)
      else (y\<lparr>polled_once := True\<rparr>, FutPending, True))"

definition yield_fut :: "yield_now \<Rightarrow> yield_now \<times> unit polled" where
  "yield_fut y = (let (y', r, _) = yield_poll y in (y', r))"

definition yield_sys ::
  "u64 \<Rightarrow> (yield_now, unit) stage \<Rightarrow> nat \<Rightarrow> nat \<Rightarrow> (unit, 'w) poll_pc multiset \<Rightarrow> sched_pc multiset \<Rightarrow>
     (yield_now, unit, 'w) tsys" where
  "yield_sys st stg n q ps sc = \<lparr>the_task = \<lparr>state = st, join_waker = None, stage = stg, strong = n\<rparr>,
     run_queue = q, waker_refs = 0, polls = ps, scheds = sc, joiner = JIdle,
     woken = [], produced = [], delivered = [], discarded = [], unwound = False, drained = False\<rparr>"

text \<open>
  A task that awaits \<open>yield_now()\<close> goes back to its run queue once: its first poll wakes
  its own waker while \<open>RUNNING\<close> is held, returns pending, and the worker re-queues the task with the
  yield passed; nothing else of the task has changed.
\<close>

lemma yield_requeues:
  "task_reachable yield_now_new (yield_sys 9 (StagePending yield_now_new) 2 1 {#} {#} :: (_, _, 'w) tsys) \<and>
   yield_poll yield_now_new = (\<lparr>polled_once = True\<rparr>, FutPending, True) \<and>
   task_reachable yield_now_new (yield_sys 9 (StagePending \<lparr>polled_once = True\<rparr>) 2 1 {#} {#} :: (_, _, 'w) tsys) \<and>
   yield_poll \<lparr>polled_once = True\<rparr> = (\<lparr>polled_once = True\<rparr>, FutReady (), False)"
proof (intro conjI)
  note [simp] = yield_sys_def run_simps state_bit_values yield_fut_def yield_poll_def yield_now_new_def
  let ?r = "task_reachable yield_now_new :: (_, _, 'w) tsys \<Rightarrow> bool"
  let ?P = "StagePending yield_now_new" and ?Q = "StagePending \<lparr>polled_once = True\<rparr>"
  show s0: "?r (yield_sys 9 ?P 2 1 {#} {#})"
    using task_reachable.start [of yield_now_new] by (simp add: task_system_def spawn_raw_def numeral_2_eq_2)
  show "yield_poll yield_now_new = (\<lparr>polled_once = True\<rparr>, FutPending, True)"
    "yield_poll \<lparr>polled_once = True\<rparr> = (\<lparr>polled_once = True\<rparr>, FutReady (), False)" by simp_all
  have s1: "?r (yield_sys 9 ?P 2 0 {#PLoad#} {#})"
    using task_reachable.step [OF s0 task_step.pop [of _ 0]] by simp
  have s2: "?r (yield_sys 9 ?P 2 0 {#PLoop 9#} {#})"
    using reachable_poll_alone [OF s1, of PLoad yield_fut] by simp
  have s3: "?r (yield_sys 10 ?P 2 0 {#PBuildWaker#} {#})"
    using reachable_poll_alone [OF s2, of "PLoop 9" yield_fut] by simp
  have s4: "?r (yield_sys 10 ?P 3 0 {#PPoll#} {#})"
    using reachable_poll_alone [OF s3, of PBuildWaker yield_fut] by (simp add: numeral_3_eq_3 numeral_2_eq_2)
  have s5: "?r (yield_sys 10 ?P 4 0 {#PPoll#} {#SNotify#})"
    using task_reachable.step [OF s4 task_step.waker_wake_by_ref] by simp
  have s6: "?r (yield_sys 11 ?P 4 0 {#PPoll#} {#SDropArc#})"
    using task_reachable.step [OF s5 task_step.sched [of _ SNotify "{#}"]] by (simp add: Let_def)
  have s7: "?r (yield_sys 11 ?P 3 0 {#PPoll#} {#})"
    using task_reachable.step [OF s6 task_step.sched [of _ SDropArc "{#}"]] by simp
  have s8: "?r (yield_sys 11 ?Q 3 0 {#PClearPending#} {#})"
    using reachable_poll_alone [OF s7, of PPoll yield_fut] by simp
  have s9: "?r (yield_sys 9 ?Q 3 0 {#PReschedule#} {#})"
    using reachable_poll_alone [OF s8, of PClearPending yield_fut] by (simp add: Let_def)
  have "?r (yield_sys 9 ?Q 4 1 {#PWakeDriver#} {#})"
    using reachable_poll_alone [OF s9, of PReschedule yield_fut] by simp
  from reachable_poll_alone [OF this, of PWakeDriver yield_fut]
  have "?r (yield_sys 9 ?Q 4 1 {#PUnparkOne#} {#})" by simp
  from reachable_poll_alone [OF this, of PUnparkOne yield_fut]
  have s10: "?r (yield_sys 9 ?Q 4 1 {#PDropWaker#} {#})" by simp
  have s11: "?r (yield_sys 9 ?Q 3 1 {#PDropArc#} {#})"
    using reachable_poll_alone [OF s10, of PDropWaker yield_fut] by simp
  show "?r (yield_sys 9 ?Q 2 1 {#} {#})"
    using reachable_poll_alone [OF s11, of PDropArc yield_fut] by simp
qed

end
