(* ===== verification/BlockOn.thy ===== *)
theory BlockOn
  imports Task
begin

text \<open>
  The loop of \<open>block_on_handle\<close> in \<^verbatim>\<open>src/src/runtime/mod.rs\<close> and its \<open>ThreadWaker\<close>, against the task's own system. The
  blocked thread owns the join handle and takes its steps one by one, as theory \<open>Task\<close> has them: the load of the
  state, the installation of the waker, the setting of its bit and the second load. Everything else that happens to
  the task, its completion step by step included, is a step of the task's system by another thread, and waking the
  thread's waker unparks it.
\<close>

unbundle bit_operations_syntax

section \<open>The loop\<close>

text \<open>\<open>BLoop\<close> is the top of the loop, \<open>BPolling\<close> a poll of the handle in progress, \<open>BPark\<close> the call of \<open>thread::park\<close>.\<close>

datatype 'o blocker_pc = BLoop | BPolling | BPark | BReturn 'o

text \<open>A waker of the task's joiner is the thread it unparks.\<close>

type_synonym thread = nat

record ('f, 'o) blocking =
  task_sys :: "('f, 'o, thread) tsys"
  unpark_token :: bool
  blocker :: "'o blocker_pc"

definition blocking_new :: "'f \<Rightarrow> ('f, 'o) blocking" where
  "blocking_new f = \<lparr>task_sys = task_system f, unpark_token = False, blocker = BLoop\<rparr>"

text \<open>
  One step of the blocked thread \<open>me\<close>; \<open>None\<close> when it cannot take one, because it is parked and has not been unparked or
  because it has returned. \<open>park\<close> may also return without an unpark.
\<close>

fun blocker_step :: "thread \<Rightarrow> bool \<Rightarrow> ('f, 'o) blocking \<Rightarrow> ('f, 'o) blocking outcome option" where
  "blocker_step me spurious s = (case blocker s of
     BLoop \<Rightarrow> map_option (\<lambda>r. obind r (\<lambda>pc. Inr (s\<lparr>task_sys := (task_sys s)\<lparr>joiner := pc\<rparr>, blocker := BPolling\<rparr>)))
       (join_poll me (joiner (task_sys s)))
   | BPolling \<Rightarrow>
       (case joiner (task_sys s) of
          JParked w \<Rightarrow> Some (Inr (s\<lparr>blocker := BPark\<rparr>))
        | _ \<Rightarrow> Some (obind (join_step (the_task (task_sys s)) (joiner (task_sys s))) (\<lambda>_.
            Inr (s\<lparr>task_sys := join_alone (task_sys s),
              blocker := (case joiner (task_sys s) of JReleaseTaken out \<Rightarrow> BReturn out | _ \<Rightarrow> BPolling)\<rparr>))))
   | BPark \<Rightarrow>
       (if unpark_token s then Some (Inr (s\<lparr>unpark_token := False, blocker := BLoop\<rparr>))
        else if spurious then Some (Inr (s\<lparr>blocker := BLoop\<rparr>)) else None)
   | BReturn v \<Rightarrow> None)"

declare blocker_step.simps [simp del]

text \<open>
  Other threads: any step of the task's system that is not one of the handle's; \<open>ThreadWaker::wake\<close> is the unpark that a
  wake of the thread's waker makes. Anyone may unpark the thread besides.
\<close>

inductive blocking_step :: "thread \<Rightarrow> ('f, 'o) blocking \<Rightarrow> ('f, 'o) blocking \<Rightarrow> bool" for me where
  blocker: "blocker_step me spurious s = Some (Inr s') \<Longrightarrow> blocking_step me s s'"
| others: "task_step (task_sys s) t \<Longrightarrow> joiner t = joiner (task_sys s) \<Longrightarrow>
    blocking_step me s (s\<lparr>task_sys := t, unpark_token := (unpark_token s \<or> woken t = me # woken (task_sys s))\<rparr>)"
| unpark: "blocking_step me s (s\<lparr>unpark_token := True\<rparr>)"

inductive blocking_reachable :: "thread \<Rightarrow> 'f \<Rightarrow> ('f, 'o) blocking \<Rightarrow> bool" for me f where
  blocking_start: "blocking_reachable me f (blocking_new f)"
| blocking_more: "blocking_reachable me f s \<Longrightarrow> blocking_step me s s' \<Longrightarrow> blocking_reachable me f s'"

section \<open>Wakes come after completion\<close>

definition inv_woken :: "('f, 'o, 'w) tsys \<Rightarrow> bool" where
  "inv_woken s \<longleftrightarrow> (woken s \<noteq> [] \<or> (\<exists>w. PWake w \<in># polls s) \<longrightarrow> completed s)"

lemma completed_kept: "task_step s s' \<Longrightarrow> completed s \<Longrightarrow> completed s'"
proof (induction rule: task_step.cases)
  case (poll s pc M spurious seen fut t "next" e)
  then show ?case
    by (cases pc) (auto simp: task_simps Let_def split: if_splits option.splits stage.splits polled.splits prod.splits)
next
  case (sched s pc M seen t "next" e)
  then show ?case by (cases pc) (auto simp: task_simps Let_def split: if_splits)
next
  case (join s t pc)
  then show ?case
    by (cases "joiner s") (auto simp: task_simps Let_def split: if_splits stage.splits)
qed (auto simp: task_simps)

lemma woken_after_completion:
  assumes "task_step s s'" and "task_inv s" and "\<not> completed s" and "woken s = []" and "\<forall>w. PWake w \<notin># polls s"
  shows "woken s' = [] \<and> (\<forall>w. PWake w \<notin># polls s')"
  using assms(1)
proof cases
  case (poll pc M spurious seen fut t "next" e)
  have "\<not> (\<exists>m. pc = PFinish m)"
    using assms(2,3) poll(2) by (auto simp: task_inv_def inv_cell_def finishers_def)
  then show ?thesis
    using assms(4,5) poll
    by (cases pc) (auto simp: task_simps Let_def split: if_splits option.splits stage.splits polled.splits prod.splits)
next
  case (sched pc M seen t "next" e)
  then show ?thesis using assms(4,5) by (cases pc) (auto simp: task_simps Let_def split: if_splits)
qed (use assms(4,5) in \<open>auto simp: task_simps\<close>)

lemma inv_woken_step: "task_step s s' \<Longrightarrow> task_inv s \<Longrightarrow> inv_woken s \<Longrightarrow> inv_woken s'"
  using completed_kept [of s s'] woken_after_completion [of s s'] by (auto simp: inv_woken_def)

lemma task_reachable_woken: "task_reachable f s \<Longrightarrow> inv_woken s"
  by (induction rule: task_reachable.induct)
    (auto simp: inv_woken_def task_system_def dest: inv_woken_step [OF _ task_reachable_inv, unfolded inv_woken_def])

lemma woken_grows: "task_step s s' \<Longrightarrow> woken s' = woken s \<or> (\<exists>w. woken s' = w # woken s)"
  by (induction rule: task_step.cases) (auto simp: apply_effect_def split: task_effect.splits)

section \<open>The invariant of the loop\<close>

text \<open>
  The handle is where the loop left it, and once the handle has parked with the thread's waker, a wake of that waker
  is a token that the next \<open>park\<close> finds.
\<close>

fun polling_at :: "thread \<Rightarrow> ('o, thread) join_pc \<Rightarrow> bool" where
  "polling_at me (JPoll w) = (w = me)"
| "polling_at me (JInstall w) = (w = me)"
| "polling_at me (JSetBit w) = (w = me)"
| "polling_at me (JRecheck w) = (w = me)"
| "polling_at me (JParked w) = (w = me)"
| "polling_at me JTake = True"
| "polling_at me (JReleaseTaken _) = True"
| "polling_at me _ = False"

definition handle_at :: "thread \<Rightarrow> ('f, 'o) blocking \<Rightarrow> bool" where
  "handle_at me s = (case blocker s of
     BLoop \<Rightarrow> joiner (task_sys s) \<in> {JIdle, JParked me}
   | BPolling \<Rightarrow> polling_at me (joiner (task_sys s))
   | BPark \<Rightarrow> joiner (task_sys s) = JParked me
   | BReturn v \<Rightarrow> joiner (task_sys s) = JTaken \<and> delivered (task_sys s) = [v])"

definition blocking_inv :: "thread \<Rightarrow> 'f \<Rightarrow> ('f, 'o) blocking \<Rightarrow> bool" where
  "blocking_inv me f s \<longleftrightarrow> task_reachable f (task_sys s) \<and> handle_at me s \<and>
     (\<forall>out. joiner (task_sys s) = JReleaseTaken out \<longrightarrow> delivered (task_sys s) = [out]) \<and>
     (joiner (task_sys s) = JParked me \<and> blocker s \<noteq> BLoop \<and> me \<in> set (woken (task_sys s)) \<longrightarrow> unpark_token s)"

lemma others_keep:
  "task_step s t \<Longrightarrow> joiner t = joiner s \<Longrightarrow> delivered t = delivered s"
proof (induction rule: task_step.cases)
  case (join s t pc)
  then show ?case by (cases "joiner s") (auto simp: Let_def split: if_splits prod.splits option.splits)
qed (auto simp: apply_effect_def split: task_effect.splits)

lemma delivered_once:
  assumes "task_reachable f s"
  shows "length (delivered s) \<le> 1"
proof -
  have "inv_stage s" using task_reachable_inv [OF assms] by (simp add: task_inv_def)
  then have "mset (stage_output (the_task s)) + mset (delivered s) + mset (discarded s) = mset (produced s)"
    "length (produced s) \<le> 1"
    by (auto simp: inv_stage_def stage_output_def split: if_splits)
  from arg_cong [OF this(1), of size] this(2) show ?thesis by simp
qed

text \<open>What a step of the handle does where the loop takes one.\<close>

lemma polling_step:
  assumes "task_reachable f s" and "polling_at me (joiner s)" and "\<not> join_at_rest (joiner s)"
    and "join_step (the_task s) (joiner s) = Inr (t, pc)"
  shows "task_reachable f (join_alone s)" "woken (join_alone s) = woken s" "polls (join_alone s) = polls s"
    "joiner (join_alone s) = pc" "completed (join_alone s) = completed s"
    "case joiner s of JReleaseTaken out \<Rightarrow> pc = JTaken \<and> delivered (join_alone s) = delivered s | _ \<Rightarrow> polling_at me pc"
    "pc = JReleaseTaken out \<Longrightarrow> delivered (join_alone s) = [out]" "pc = JParked me \<Longrightarrow> \<not> completed s"
proof -
  show r: "task_reachable f (join_alone s)" by (rule reachable_join_alone [OF assms(1,3)])
  show "woken (join_alone s) = woken s" "polls (join_alone s) = polls s" "joiner (join_alone s) = pc"
    using assms(4) by (simp_all add: join_alone_def)
  show "completed (join_alone s) = completed s"
    using assms(2-4) by (cases "joiner s") (auto simp: join_alone_def task_simps split: if_splits prod.splits option.splits stage.splits)
  show "case joiner s of JReleaseTaken out \<Rightarrow> pc = JTaken \<and> delivered (join_alone s) = delivered s | _ \<Rightarrow> polling_at me pc"
    using assms(2-4) by (cases "joiner s") (auto simp: join_alone_def split: if_splits prod.splits option.splits)
  show "delivered (join_alone s) = [out]" if "pc = JReleaseTaken out"
    using that delivered_once [OF r] assms(4) by (auto simp: join_alone_def)
  show "\<not> completed s" if "pc = JParked me"
    using that assms(2-4) by (cases "joiner s") (auto simp: state_bits split: if_splits prod.splits option.splits)
qed

lemma blocker_step_inv:
  assumes inv: "blocking_inv me f s" and st: "blocker_step me spurious s = Some (Inr s')"
  shows "blocking_inv me f s'"
proof -
  have r: "task_reachable f (task_sys s)" and h: "handle_at me s" using inv by (simp_all add: blocking_inv_def)
  show ?thesis
  proof (cases "blocker s")
    case BLoop
    then have "join_poll me (joiner (task_sys s)) = Some (Inr (JPoll me))" using h by (auto simp: handle_at_def)
    with st BLoop task_reachable.step [OF r task_step.join_begin [OF this]] show ?thesis
      by (auto simp: blocker_step.simps blocking_inv_def handle_at_def)
  next
    case BPolling
    then have p: "polling_at me (joiner (task_sys s))" using h by (simp add: handle_at_def)
    show ?thesis
    proof (cases "joiner (task_sys s) = JParked me")
      case True
      then show ?thesis using inv st BPolling by (auto simp: blocker_step.simps blocking_inv_def handle_at_def)
    next
      case False
      then have np: "\<not> join_at_rest (joiner (task_sys s))" using p by (cases "joiner (task_sys s)") auto
      then obtain t pc where js: "join_step (the_task (task_sys s)) (joiner (task_sys s)) = Inr (t, pc)"
        and s': "s' = s\<lparr>task_sys := join_alone (task_sys s),
          blocker := (case joiner (task_sys s) of JReleaseTaken out \<Rightarrow> BReturn out | _ \<Rightarrow> BPolling)\<rparr>"
        using st BPolling by (cases "joiner (task_sys s)") (auto simp: blocker_step.simps obind_eq_Inr simp del: join_step.simps)
      note k = polling_step [OF r p np js]
      have "woken (task_sys s) = []" if "pc = JParked me"
        using k(8) [OF that] task_reachable_woken [OF r] by (auto simp: inv_woken_def)
      then show ?thesis
        using inv k(1,2,4,6,7) p np s' by (cases "joiner (task_sys s)") (auto simp: blocking_inv_def handle_at_def)
    qed
  next
    case BPark
    then show ?thesis using inv st by (auto simp: blocker_step.simps blocking_inv_def handle_at_def split: if_splits)
  qed (use st in \<open>simp add: blocker_step.simps\<close>)
qed

lemma blocking_reachable_inv: "blocking_reachable me f s \<Longrightarrow> blocking_inv me f s"
proof (induction rule: blocking_reachable.induct)
  case blocking_start
  show ?case by (simp add: blocking_inv_def blocking_new_def handle_at_def task_reachable.start) (simp add: task_system_def)
next
  case (blocking_more s s')
  from blocking_more(2) show ?case
  proof cases
    case (blocker spurious)
    then show ?thesis using blocker_step_inv [OF blocking_more(3)] by blast
  next
    case (others t)
    have "me \<in> set (woken t) \<longrightarrow> me \<in> set (woken (task_sys s)) \<or> woken t = me # woken (task_sys s)"
      using woken_grows [OF others(2)] by auto
    moreover have "task_reachable f t" using task_reachable.step [OF _ others(2)] blocking_more(3) by (simp add: blocking_inv_def)
    ultimately show ?thesis
      using blocking_more(3) others(1,3) others_keep [OF others(2,3)]
      by (auto simp: blocking_inv_def handle_at_def split: blocker_pc.splits)
  next
    case unpark
    then show ?thesis using blocking_more(3) by (auto simp: blocking_inv_def handle_at_def split: blocker_pc.splits)
  qed
qed

section \<open>Progress\<close>

definition blocker_rank :: "('f, 'o) blocking \<Rightarrow> nat" where
  "blocker_rank s = (case blocker s of
     BReturn v \<Rightarrow> 0
   | BPolling \<Rightarrow> (case joiner (task_sys s) of JReleaseTaken _ \<Rightarrow> 1 | JTake \<Rightarrow> 2 | JRecheck _ \<Rightarrow> 3 | JSetBit _ \<Rightarrow> 4
       | JInstall _ \<Rightarrow> 5 | JPoll _ \<Rightarrow> 6 | _ \<Rightarrow> 9)
   | BLoop \<Rightarrow> 7
   | BPark \<Rightarrow> 8)"

lemma blocker_progress:
  assumes inv: "blocking_inv me f s" and fin: "completed (task_sys s)" "polls (task_sys s) = {#}" and "\<not> (\<exists>v. blocker s = BReturn v)"
  shows "\<exists>s'. blocker_step me spurious s = Some (Inr s') \<and> blocker_rank s' < blocker_rank s \<and>
     completed (task_sys s') \<and> polls (task_sys s') = {#}"
proof -
  have r: "task_reachable f (task_sys s)" and h: "handle_at me s" using inv by (simp_all add: blocking_inv_def)
  show ?thesis
  proof (cases "blocker s")
    case BLoop
    then have "join_poll me (joiner (task_sys s)) = Some (Inr (JPoll me))" using h by (auto simp: handle_at_def)
    then show ?thesis using BLoop fin by (simp add: blocker_step.simps blocker_rank_def)
  next
    case BPolling
    then have p: "polling_at me (joiner (task_sys s))" using h by (simp add: handle_at_def)
    show ?thesis
    proof (cases "joiner (task_sys s) = JParked me")
      case True
      then show ?thesis using BPolling fin by (simp add: blocker_step.simps blocker_rank_def)
    next
      case False
      then have np: "\<not> join_at_rest (joiner (task_sys s))" using p by (cases "joiner (task_sys s)") auto
      have take: "\<exists>t out. join_step (the_task (task_sys s)) JTake = Inr (t, JReleaseTaken out)" if "joiner (task_sys s) = JTake"
        by (rule join_take_progress [OF r that]) simp
      have "\<exists>t pc. join_step (the_task (task_sys s)) (joiner (task_sys s)) = Inr (t, pc) \<and>
          (joiner (task_sys s) = JTake \<longrightarrow> (\<exists>out. pc = JReleaseTaken out)) \<and>
          (case joiner (task_sys s) of JPoll _ \<Rightarrow> pc = JTake | JRecheck _ \<Rightarrow> pc = JTake | JInstall w \<Rightarrow> pc = JSetBit w
             | JSetBit w \<Rightarrow> pc = JRecheck w | _ \<Rightarrow> True)"
        using p np fin(1) take
        by (cases "joiner (task_sys s)") (auto simp: state_bits simp del: join_step.simps(5))
      then obtain t pc where js: "join_step (the_task (task_sys s)) (joiner (task_sys s)) = Inr (t, pc)"
        and pc: "joiner (task_sys s) = JTake \<longrightarrow> (\<exists>out. pc = JReleaseTaken out)"
          "case joiner (task_sys s) of JPoll _ \<Rightarrow> pc = JTake | JRecheck _ \<Rightarrow> pc = JTake | JInstall w \<Rightarrow> pc = JSetBit w
             | JSetBit w \<Rightarrow> pc = JRecheck w | _ \<Rightarrow> True" by blast
      note k = polling_step [OF r p np js]
      show ?thesis
        using BPolling js k(3,4,5) pc p np fin
        by (cases "joiner (task_sys s)") (auto simp: blocker_step.simps blocker_rank_def simp del: join_step.simps)
    qed
  next
    case BPark
    then have j: "joiner (task_sys s) = JParked me" using h by (simp add: handle_at_def)
    have "inv_park (task_sys s)" using task_reachable_inv [OF r] by (simp add: task_inv_def)
    then have "me \<in> set (woken (task_sys s))" using j fin by (auto simp: inv_park_def finishers_def)
    then have "unpark_token s" using inv j BPark by (simp add: blocking_inv_def)
    then show ?thesis using BPark fin by (simp add: blocker_step.simps blocker_rank_def)
  qed (use assms(4) in simp)
qed

lemma others_after_completion:
  assumes "task_reachable f s" and "completed s" and "polls s = {#}" and "task_step s t" and "joiner t = joiner s"
  shows "completed t" "polls t = {#}"
proof -
  show "completed t" by (rule completed_kept [OF assms(4,2)])
  have "inv_tokens s" using task_reachable_inv [OF assms(1)] by (simp add: task_inv_def)
  then have q: "run_queue s = 0" using assms(2) by (auto simp: inv_tokens_def tokens_def split: if_splits)
  from assms(4) show "polls t = {#}" by cases (use assms(3) q in \<open>auto simp: apply_effect_def split: task_effect.splits\<close>)
qed

section \<open>The loop returns\<close>

text \<open>A thread with number 3 that blocks on a task, parks, and is woken by the task's completion.\<close>

definition sample_blocked ::
  "bool \<Rightarrow> nat blocker_pc \<Rightarrow> (unit, nat, thread) tsys \<Rightarrow> (unit, nat) blocking" where
  "sample_blocked tok b t = \<lparr>task_sys = t, unpark_token = tok, blocker = b\<rparr>"

lemma sample_blocker:
  assumes "blocking_reachable 3 () s" and "blocker_step 3 False s = Some (Inr s')"
  shows "blocking_reachable 3 () s'"
  by (rule blocking_more [OF assms(1) blocking_step.blocker [OF assms(2)]])

lemma sample_others:
  assumes "blocking_reachable 3 () (sample_blocked tok b t)" and "polls t = {#pc#}" and "joiner (poll_alone fut pc t) = joiner t"
    and "tok' = (tok \<or> woken (poll_alone fut pc t) = 3 # woken t)"
    and "\<not> isl (poll_step False False fut (the_task t) pc)"
  shows "blocking_reachable 3 () (sample_blocked tok' b (poll_alone fut pc t))"
proof -
  obtain u "next" e where "poll_step False False fut (the_task t) pc = Inr (u, next, e)"
    using assms(5) by (cases "poll_step False False fut (the_task t) pc") auto
  then have "task_step t (poll_alone fut pc t)"
    using task_step.poll [of t pc "{#}"] assms(2) by (simp add: poll_alone_def split del: if_split)
  from blocking_more [OF assms(1) blocking_step.others [of "sample_blocked tok b t", OF _ _]] this assms(3,4)
  show ?thesis by (simp add: sample_blocked_def)
qed

lemma sample_thread_parked:
  "blocking_reachable 3 () (sample_blocked False BPark (sample_sys 25 (Some 3) (StagePending ()) 2 1 {#} (JParked 3) [] []))"
proof -
  note [simp] = sample_blocked_def sample_sys_def run_simps state_bit_values blocker_step.simps
  let ?P = "StagePending ()" and ?b = "\<lambda>b j. sample_blocked False b (sample_sys 9 None (StagePending ()) 2 1 {#} j [] [])"
  have "blocking_reachable 3 () (?b BLoop JIdle)"
    using blocking_start [of 3 "()"] by (simp add: blocking_new_def task_system_def spawn_raw_def numeral_2_eq_2)
  from sample_blocker [OF this, of "?b BPolling (JPoll 3)"] have "blocking_reachable 3 () (?b BPolling (JPoll 3))" by simp
  from sample_blocker [OF this, of "?b BPolling (JInstall 3)"] have "blocking_reachable 3 () (?b BPolling (JInstall 3))" by simp
  from sample_blocker [OF this, of "sample_blocked False BPolling (sample_sys 9 (Some 3) ?P 2 1 {#} (JSetBit 3) [] [])"]
  have "blocking_reachable 3 () (sample_blocked False BPolling (sample_sys 9 (Some 3) ?P 2 1 {#} (JSetBit 3) [] []))" by simp
  from sample_blocker [OF this, of "sample_blocked False BPolling (sample_sys 25 (Some 3) ?P 2 1 {#} (JRecheck 3) [] [])"]
  have "blocking_reachable 3 () (sample_blocked False BPolling (sample_sys 25 (Some 3) ?P 2 1 {#} (JRecheck 3) [] []))" by simp
  from sample_blocker [OF this, of "sample_blocked False BPolling (sample_sys 25 (Some 3) ?P 2 1 {#} (JParked 3) [] [])"]
  have "blocking_reachable 3 () (sample_blocked False BPolling (sample_sys 25 (Some 3) ?P 2 1 {#} (JParked 3) [] []))" by simp
  from sample_blocker [OF this, of "sample_blocked False BPark (sample_sys 25 (Some 3) ?P 2 1 {#} (JParked 3) [] [])"]
  show ?thesis by simp
qed

lemma sample_thread_woken:
  "blocking_reachable 3 () (sample_blocked True BPark (sample_sys 28 None (StageReady 42) 1 0 {#} (JParked 3) [3] [42]))"
proof -
  note [simp] = sample_sys_def run_simps state_bit_values
  let ?fut = "\<lambda>f :: unit. (f, FutReady (42 :: nat))" and ?P = "StagePending ()" and ?R = "StageReady 42"
  let ?r = "\<lambda>tok st jw stg n ps wk pr. blocking_reachable 3 () (sample_blocked tok BPark (sample_sys st jw stg n 0 ps (JParked 3) wk pr))"
  let ?s = "sample_sys 25 (Some 3) ?P 2 1 {#} (JParked 3) [] [] :: (unit, nat, thread) tsys"
  let ?t = "sample_sys 25 (Some 3) ?P 2 0 {#PLoad#} (JParked 3) [] [] :: (unit, nat, thread) tsys"
  have "task_step ?s ?t"
    using task_step.pop [of ?s 0] by simp
  from blocking_more [OF sample_thread_parked blocking_step.others [of "sample_blocked False BPark ?s" ?t]] this
  have "?r False 25 (Some 3) ?P 2 {#PLoad#} [] []" by (simp add: sample_blocked_def)
  from sample_others [OF this, of PLoad ?fut False] have "?r False 25 (Some 3) ?P 2 {#PLoop 25#} [] []" by simp
  from sample_others [OF this, of "PLoop 25" ?fut False] have "?r False 26 (Some 3) ?P 2 {#PBuildWaker#} [] []" by simp
  from sample_others [OF this, of PBuildWaker ?fut False] have "?r False 26 (Some 3) ?P 3 {#PPoll#} [] []"
    by (simp add: numeral_3_eq_3 numeral_2_eq_2)
  from sample_others [OF this, of PPoll ?fut False] have "?r False 26 (Some 3) ?P 3 {#PWriteOutput 42#} [] []" by simp
  from sample_others [OF this, of "PWriteOutput 42" ?fut False] have "?r False 26 (Some 3) ?R 3 {#PSetComplete#} [] [42]" by simp
  from sample_others [OF this, of PSetComplete ?fut False] have "?r False 30 (Some 3) ?R 3 {#PClearRunning 30#} [] [42]"
    by (simp add: Let_def)
  from sample_others [OF this, of "PClearRunning 30" ?fut False] have "?r False 28 (Some 3) ?R 3 {#PFinish 30#} [] [42]" by simp
  from sample_others [OF this, of "PFinish 30" ?fut False] have "?r False 28 None ?R 3 {#PWake 3#} [] [42]" by simp
  from sample_others [OF this, of "PWake 3" ?fut True] have "?r True 28 None ?R 3 {#PDropWaker#} [3] [42]" by simp
  from sample_others [OF this, of PDropWaker ?fut True] have "?r True 28 None ?R 2 {#PDropArc#} [3] [42]" by simp
  from sample_others [OF this, of PDropArc ?fut True] show ?thesis by simp
qed

text \<open>
  Claim C26. \<open>block_on\<close> always returns once its task has completed, whatever the interleaving of the handle's poll with
  the completion: when the completing worker has left \<open>poll_fn\<close>, the blocked thread has returned the output the task
  produced, or it is not stuck in \<open>thread::park\<close>, does not panic, and each of its steps brings it closer to returning;
  no step of another thread takes it further away.
\<close>

theorem block_on_returns:
  assumes "blocking_reachable me f s" and "completed (task_sys s)" and "polls (task_sys s) = {#}"
  shows "((\<exists>v. blocker s = BReturn v \<and> produced (task_sys s) = [v]) \<or>
      (\<forall>spurious. \<exists>s'. blocker_step me spurious s = Some (Inr s') \<and> blocker_rank s' < blocker_rank s)) \<and>
     (\<forall>s'. blocking_step me s s' \<longrightarrow> completed (task_sys s') \<and> polls (task_sys s') = {#} \<and> blocker_rank s' \<le> blocker_rank s)"
proof -
  note inv = blocking_reachable_inv [OF assms(1)]
  have r: "task_reachable f (task_sys s)" using inv by (simp add: blocking_inv_def)
  have ret: "produced (task_sys s) = [v]" if "blocker s = BReturn v" for v
  proof -
    have "delivered (task_sys s) = [v]" using that inv by (simp add: blocking_inv_def handle_at_def)
    moreover have "inv_stage (task_sys s)" using task_reachable_inv [OF r] by (simp add: task_inv_def)
    ultimately show ?thesis using assms(2) by (auto simp: inv_stage_def)
  qed
  have "completed (task_sys s') \<and> polls (task_sys s') = {#} \<and> blocker_rank s' \<le> blocker_rank s" if "blocking_step me s s'" for s'
    using that
  proof cases
    case (blocker spurious)
    then have "\<not> (\<exists>v. blocker s = BReturn v)" by (auto simp: blocker_step.simps)
    from blocker_progress [OF inv assms(2,3) this, of spurious] blocker show ?thesis by auto
  next
    case (others t)
    with others_after_completion [OF r assms(2,3) others(2,3)] show ?thesis
      by (auto simp: blocker_rank_def split: blocker_pc.splits)
  next
    case unpark
    then show ?thesis using assms(2,3) by (auto simp: blocker_rank_def split: blocker_pc.splits)
  qed
  then show ?thesis using ret blocker_progress [OF inv assms(2,3)] by blast
qed

theorem block_on_returns_witness:
  "\<exists>s'. blocker_step 3 False (sample_blocked True BPark (sample_sys 28 None (StageReady 42) 1 0 {#} (JParked 3) [3] [42])) =
     Some (Inr s') \<and> blocker_rank s' < 8"
proof -
  let ?s = "sample_blocked True BPark (sample_sys 28 None (StageReady 42) 1 0 {#} (JParked 3) [3] [42])"
  have c: "completed (task_sys ?s)" "polls (task_sys ?s) = {#}" "blocker ?s = BPark" "blocker_rank ?s = 8"
    by (simp_all add: sample_blocked_def sample_sys_def bit_numeral_rec blocker_rank_def)
  from conjunct1 [OF block_on_returns [OF sample_thread_woken c(1,2)]] c(3,4) show ?thesis by force
qed

end
