(* ===== verification/Executor.thy ===== *)
theory Executor
  imports Prelude
begin

text \<open>
  The run queues of the multi-worker executor: \<^verbatim>\<open>src/src/executor/multi.rs\<close> and
  \<^verbatim>\<open>src/src/executor/multi/worker.rs\<close>. Each operation here is what one thread does to the queues; every queue is behind
  its own mutex, so an operation on one queue is atomic. A task reference is opaque. Waking the
  reactor and unparking a worker are effects the operation returns in order; how they meet the
  parking workers is the subject of the theory of parking.
\<close>

unbundle bit_operations_syntax

section \<open>Shared state\<close>

definition POLL_BUDGET :: u64 where
  "POLL_BUDGET = 61"

record 't worker_slot =
  thread_set :: bool
  local :: "'t list"

definition worker_slot_new :: "'t worker_slot" where
  "worker_slot_new = \<lparr>thread_set = False, local = []\<rparr>"

record 't shared =
  injector :: "'t list"
  workers :: "'t worker_slot list"
  next_unpark :: u64
  shutdown :: bool
  driver_held :: bool
  driver_parked :: bool

definition shared_new :: "nat \<Rightarrow> 't shared outcome" where
  "shared_new worker_count =
     (if worker_count \<ge> 1
      then Inr \<lparr>injector = [], workers = replicate worker_count worker_slot_new, next_unpark = 0,
             shutdown = False, driver_held = False, driver_parked = False\<rparr>
      else Inl (AssertFailed ''Multi requires at least one worker''))"

datatype signal = ReactorWake | Unpark nat

section \<open>Queue operations\<close>

definition push_global :: "'t shared \<Rightarrow> 't \<Rightarrow> 't shared" where
  "push_global sh t = sh\<lparr>injector := injector sh @ [t]\<rparr>"

definition pop_global :: "'t shared \<Rightarrow> 't shared \<times> 't option" where
  "pop_global sh =
     (case injector sh of [] \<Rightarrow> (sh, None) | t # ts \<Rightarrow> (sh\<lparr>injector := ts\<rparr>, Some t))"

abbreviation set_local :: "'t shared \<Rightarrow> nat \<Rightarrow> 't list \<Rightarrow> 't shared" where
  "set_local sh i q \<equiv> sh\<lparr>workers := (workers sh)[i := (workers sh ! i)\<lparr>local := q\<rparr>]\<rparr>"

definition pop_local :: "'t shared \<Rightarrow> nat \<Rightarrow> ('t shared \<times> 't option) outcome" where
  "pop_local sh i =
     (if i < length (workers sh)
      then let q = local (workers sh ! i) in
        Inr (if q = [] then (sh, None) else (set_local sh i (butlast q), Some (last q)))
      else Inl IndexOutOfBounds)"

definition wake_driver_if_parked :: "'t shared \<Rightarrow> signal list" where
  "wake_driver_if_parked sh = (if driver_parked sh then [ReactorWake] else [])"

definition unpark_one :: "'t shared \<Rightarrow> 't shared \<times> signal list" where
  "unpark_one sh =
     (let n = length (workers sh) in
      if n = 0 then (sh, [])
      else let raw = next_unpark sh;
               sh' = sh\<lparr>next_unpark := raw + 1\<rparr>;
               idx = unat raw mod n in
        (sh', if thread_set (workers sh' ! idx) then [Unpark idx] else []))"

definition schedule :: "'t shared \<Rightarrow> 't \<Rightarrow> 't shared \<times> signal list" where
  "schedule sh t =
     (if shutdown sh then (sh, [])
      else let sh1 = push_global sh t;
               sig1 = wake_driver_if_parked sh1;
               (sh2, sig2) = unpark_one sh1 in
        (sh2, sig1 @ sig2))"

definition spawn :: "'t shared \<Rightarrow> 't \<Rightarrow> 't shared \<times> signal list" where
  "spawn sh t =
     (let sh1 = push_global sh t;
          sig1 = wake_driver_if_parked sh1;
          (sh2, sig2) = unpark_one sh1 in
      (sh2, sig1 @ sig2))"

section \<open>Stealing\<close>

definition xorshift64 :: "u64 \<Rightarrow> u64" where
  "xorshift64 s =
     (let x0 = (if s = 0 then 0xDEADBEEFCAFEF00D else s);
          x1 = x0 XOR push_bit 13 x0;
          x2 = x1 XOR drop_bit 7 x1
      in x2 XOR push_bit 17 x2)"

definition steal_from :: "'t shared \<Rightarrow> nat \<Rightarrow> nat \<Rightarrow> 't shared \<times> 't option" where
  "steal_from sh victim my_id =
     (let q = local (workers sh ! victim); total = length q in
      if total = 0 then (sh, None)
      else let n = div_ceil total 2;
               sh1 = set_local sh victim (drop n q);
               stolen = take n q in
        (case stolen of
           [] \<Rightarrow> (sh1, None)
         | t # ts \<Rightarrow>
             (if ts = [] then sh1 else set_local sh1 my_id (local (workers sh1 ! my_id) @ ts), Some t)))"

fun steal_loop :: "'t shared \<Rightarrow> nat \<Rightarrow> nat \<Rightarrow> nat list \<Rightarrow> 't shared \<times> 't option" where
  "steal_loop sh my_id start [] = (sh, None)"
| "steal_loop sh my_id start (i # is) =
     (let victim = (start + i) mod length (workers sh) in
      if victim = my_id then steal_loop sh my_id start is
      else (case steal_from sh victim my_id of
              (sh', Some t) \<Rightarrow> (sh', Some t)
            | (sh', None) \<Rightarrow> steal_loop sh' my_id start is))"

definition steal :: "'t shared \<Rightarrow> nat \<Rightarrow> u64 \<Rightarrow> 't shared \<times> u64 \<times> 't option" where
  "steal sh my_id rng =
     (let n = length (workers sh) in
      if n \<le> 1 then (sh, rng, None)
      else let rng' = xorshift64 rng;
               start = unat rng' mod n;
               (sh', t) = steal_loop sh my_id start [0..<n] in
        (sh', rng', t))"

fun has_work_others :: "nat \<Rightarrow> nat \<Rightarrow> 't worker_slot list \<Rightarrow> bool" where
  "has_work_others my_id i [] = False"
| "has_work_others my_id i (w # ws) =
     (if i = my_id then has_work_others my_id (i + 1) ws
      else if local w \<noteq> [] then True
      else has_work_others my_id (i + 1) ws)"

definition has_work :: "'t shared \<Rightarrow> nat \<Rightarrow> bool outcome" where
  "has_work sh my_id =
     (if my_id < length (workers sh)
      then Inr (if local (workers sh ! my_id) \<noteq> [] then True
                else if injector sh \<noteq> [] then True
                else has_work_others my_id 0 (workers sh))
      else Inl IndexOutOfBounds)"

section \<open>The run loop of a worker\<close>

record run_state =
  tick :: u64
  rng :: u64

definition run_state_new :: "nat \<Rightarrow> run_state" where
  "run_state_new my_id = \<lparr>tick = 0, rng = (of_nat my_id + 1) * 0x9E3779B97F4A7C15\<rparr>"

definition worker_enter :: "'t shared \<Rightarrow> nat \<Rightarrow> 't shared outcome" where
  "worker_enter sh my_id =
     (if my_id < length (workers sh)
      then if thread_set (workers sh ! my_id) then Inl (ExpectFailed ''worker thread set twice'')
           else Inr (sh\<lparr>workers := (workers sh)[my_id := (workers sh ! my_id)\<lparr>thread_set := True\<rparr>]\<rparr>)
      else Inl IndexOutOfBounds)"

text \<open>Every \<open>POLL_BUDGET\<close> ticks the injector comes first, otherwise the local queue.\<close>

definition worker_pop :: "'t shared \<Rightarrow> nat \<Rightarrow> u64 \<Rightarrow> ('t shared \<times> 't option) outcome" where
  "worker_pop sh my_id k =
     (if k mod POLL_BUDGET = 0
      then (case pop_global sh of
              (sh', Some t) \<Rightarrow> Inr (sh', Some t)
            | (sh', None) \<Rightarrow> pop_local sh' my_id)
      else obind (pop_local sh my_id) (\<lambda>(sh', r).
            case r of Some t \<Rightarrow> Inr (sh', Some t) | None \<Rightarrow> Inr (pop_global sh')))"

text \<open>One turn of the loop: leave on shutdown, take a task, or go idle.\<close>

datatype 't turn = Leave | Poll 't | Idle

definition worker_turn :: "'t shared \<Rightarrow> nat \<Rightarrow> run_state \<Rightarrow> ('t shared \<times> run_state \<times> 't turn) outcome" where
  "worker_turn sh my_id rs =
     (if shutdown sh then Inr (sh, rs, Leave)
      else obind (worker_pop sh my_id (tick rs))
        (\<lambda>(sh1, r).
          case r of
            Some t \<Rightarrow> Inr (sh1, rs\<lparr>tick := tick rs + 1\<rparr>, Poll t)
          | None \<Rightarrow>
              let (sh2, rng', r') = steal sh1 my_id (rng rs) in
              (case r' of
                 Some t \<Rightarrow> Inr (sh2, rs\<lparr>rng := rng', tick := tick rs + 1\<rparr>, Poll t)
               | None \<Rightarrow> Inr (sh2, rs\<lparr>rng := rng'\<rparr>, Idle))))"

text \<open>The queues as \<open>Multi::drop\<close> leaves them, after the workers have been joined.\<close>

definition drain_queues :: "'t shared \<Rightarrow> 't shared" where
  "drain_queues sh = sh\<lparr>injector := [], workers := map (\<lambda>w. w\<lparr>local := []\<rparr>) (workers sh)\<rparr>"

section \<open>Tasks are conserved\<close>

definition local_tasks :: "'t shared \<Rightarrow> 't multiset" where
  "local_tasks sh = (\<Sum>w\<in>#mset (workers sh). mset (local w))"

definition all_tasks :: "'t shared \<Rightarrow> 't multiset" where
  "all_tasks sh = mset (injector sh) + local_tasks sh"

lemma sum_mset_update:
  assumes "i < length ws"
  shows "(\<Sum>w\<in>#mset (ws[i := w']). f w) + f (ws ! i) = (\<Sum>w\<in>#mset ws. f w) + (f w' :: 'a multiset)"
proof -
  have "mset ws = add_mset (ws ! i) (mset (take i ws) + mset (drop (Suc i) ws))"
    using arg_cong [OF id_take_nth_drop [OF assms], of mset] by simp
  moreover have "mset (ws[i := w']) = add_mset w' (mset (take i ws) + mset (drop (Suc i) ws))"
    using arg_cong [OF upd_conv_take_nth_drop [OF assms, of w'], of mset] by simp
  ultimately show ?thesis by (simp add: ac_simps)
qed

lemma local_tasks_set:
  assumes "i < length (workers sh)"
  shows "local_tasks (set_local sh i q) + mset (local (workers sh ! i)) = local_tasks sh + mset q"
  using sum_mset_update [OF assms, of "\<lambda>w. mset (local w)" "(workers sh ! i)\<lparr>local := q\<rparr>"]
  by (simp add: local_tasks_def)

lemma set_local_frame [simp]:
  "injector (set_local sh i q) = injector sh" "length (workers (set_local sh i q)) = length (workers sh)"
  "shutdown (set_local sh i q) = shutdown sh"
  by simp_all

lemma local_tasks_empty: "local_tasks sh = {#} \<longleftrightarrow> (\<forall>w \<in> set (workers sh). local w = [])"
  by (simp add: local_tasks_def)

lemma pop_global_spec:
  assumes "pop_global sh = (sh', r)"
  shows "workers sh' = workers sh" "shutdown sh' = shutdown sh"
    "mset (injector sh) = mset (injector sh') + (case r of None \<Rightarrow> {#} | Some t \<Rightarrow> {#t#})"
    "r = None \<longleftrightarrow> injector sh = []"
  using assms by (auto simp: pop_global_def split: list.splits)

lemma pop_local_spec:
  assumes "i < length (workers sh)"
  obtains sh' r where "pop_local sh i = Inr (sh', r)" and "injector sh' = injector sh"
    and "length (workers sh') = length (workers sh)" and "shutdown sh' = shutdown sh"
    and "local_tasks sh = local_tasks sh' + (case r of None \<Rightarrow> {#} | Some t \<Rightarrow> {#t#})"
    and "r = None \<longleftrightarrow> local (workers sh ! i) = []" and "r = None \<longrightarrow> sh' = sh"
proof (cases "local (workers sh ! i) = []")
  case True
  then show thesis using assms that [of sh None] by (simp add: pop_local_def)
next
  case False
  let ?q = "local (workers sh ! i)"
  have "mset ?q = mset (butlast ?q) + {#last ?q#}"
    using False by (metis append_butlast_last_id mset.simps(1,2) mset_append)
  then have "local_tasks (set_local sh i (butlast ?q)) + {#last ?q#} + mset (butlast ?q) =
      local_tasks sh + mset (butlast ?q)"
    using local_tasks_set [OF assms, of "butlast ?q"] by (simp add: ac_simps)
  then have "local_tasks sh = local_tasks (set_local sh i (butlast ?q)) + {#last ?q#}"
    unfolding add_right_cancel by (rule sym)
  then show thesis
    using False assms that [of "set_local sh i (butlast ?q)" "Some (last ?q)"] by (simp add: pop_local_def Let_def)
qed

lemma steal_from_spec:
  assumes "victim < length (workers sh)" and "i < length (workers sh)" and "victim \<noteq> i"
  shows "\<exists>sh' r. steal_from sh victim i = (sh', r) \<and> injector sh' = injector sh \<and>
     length (workers sh') = length (workers sh) \<and> shutdown sh' = shutdown sh \<and>
     local_tasks sh = local_tasks sh' + (case r of None \<Rightarrow> {#} | Some t \<Rightarrow> {#t#}) \<and>
     (r = None \<longleftrightarrow> local (workers sh ! victim) = []) \<and> (r = None \<longrightarrow> sh' = sh)"
proof (cases "local (workers sh ! victim) = []")
  case True
  then show ?thesis by (simp add: steal_from_def)
next
  case False
  let ?q = "local (workers sh ! victim)" and ?n = "div_ceil (length (local (workers sh ! victim))) 2"
  let ?sh1 = "set_local sh victim (drop ?n ?q)"
  have "?n \<noteq> 0" using False div_ceil_le_iff [of 2 "length ?q" 0] by simp
  then obtain t ts where t: "take ?n ?q = t # ts" using False by (cases "take ?n ?q") auto
  have "mset ?q = mset (take ?n ?q) + mset (drop ?n ?q)" by (metis append_take_drop_id mset_append)
  then have q: "mset ?q = mset ts + {#t#} + mset (drop ?n ?q)" by (simp add: t)
  have "local_tasks ?sh1 + (mset ts + {#t#}) + mset (drop ?n ?q) = local_tasks sh + mset (drop ?n ?q)"
    using local_tasks_set [OF assms(1), of "drop ?n ?q"] q by (simp add: ac_simps)
  then have one: "local_tasks sh = local_tasks ?sh1 + (mset ts + {#t#})" by simp
  show ?thesis
  proof (cases "ts = []")
    case True
    then show ?thesis using t False one by (simp add: steal_from_def Let_def)
  next
    case ts: False
    let ?sh2 = "set_local ?sh1 i (local (workers ?sh1 ! i) @ ts)"
    have "local_tasks ?sh2 + mset (local (workers ?sh1 ! i)) = local_tasks ?sh1 + mset (local (workers ?sh1 ! i) @ ts)"
      by (rule local_tasks_set) (use assms(2) in simp)
    then have "local_tasks ?sh2 = local_tasks ?sh1 + mset ts" by simp
    then have "local_tasks sh = local_tasks ?sh2 + {#t#}" using one by simp
    then show ?thesis using t ts False by (simp add: steal_from_def Let_def)
  qed
qed

lemma steal_loop_spec:
  assumes "i < length (workers sh)"
  shows "\<exists>sh' r. steal_loop sh i start vs = (sh', r) \<and> injector sh' = injector sh \<and>
     length (workers sh') = length (workers sh) \<and> shutdown sh' = shutdown sh \<and>
     local_tasks sh = local_tasks sh' + (case r of None \<Rightarrow> {#} | Some t \<Rightarrow> {#t#}) \<and>
     (r = None \<longrightarrow> sh' = sh \<and> (\<forall>v \<in> set vs. (start + v) mod length (workers sh) \<noteq> i \<longrightarrow>
        local (workers sh ! ((start + v) mod length (workers sh))) = []))"
  using assms
proof (induction vs)
  case (Cons v vs)
  let ?victim = "(start + v) mod length (workers sh)"
  show ?case
  proof (cases "?victim = i")
    case True
    then show ?thesis using Cons by simp
  next
    case False
    have "?victim < length (workers sh)" using Cons.prems by (intro mod_less_divisor) auto
    then obtain sh1 r where st: "steal_from sh ?victim i = (sh1, r)" "injector sh1 = injector sh"
      "length (workers sh1) = length (workers sh)" "shutdown sh1 = shutdown sh"
      "local_tasks sh = local_tasks sh1 + (case r of None \<Rightarrow> {#} | Some t \<Rightarrow> {#t#})"
      "r = None \<longleftrightarrow> local (workers sh ! ?victim) = []" "r = None \<longrightarrow> sh1 = sh"
      using steal_from_spec [OF _ Cons.prems False] by blast
    show ?thesis
    proof (cases r)
      case None
      then have "sh1 = sh" using st(7) by simp
      then show ?thesis using Cons.IH [OF Cons.prems] False st(1,6) None by auto
    next
      case (Some t)
      then show ?thesis using False st by (simp add: Let_def)
    qed
  qed
qed simp

lemma rotation_covers:
  assumes "v < n"
  shows "\<exists>k \<in> set [0..<n]. (start + k) mod n = v"
proof -
  let ?k = "(v + n - start mod n) mod n"
  have "(start + ?k) mod n = (start mod n + (v + n - start mod n)) mod n"
    by (simp add: mod_add_left_eq mod_add_right_eq)
  also have "start mod n + (v + n - start mod n) = v + n"
    using assms mod_less_divisor [of n start] by linarith
  finally have "(start + ?k) mod n = v" using assms by simp
  moreover have "?k \<in> set [0..<n]" using assms by simp
  ultimately show ?thesis by blast
qed

lemma steal_spec:
  assumes "i < length (workers sh)" and "local (workers sh ! i) = []"
  obtains sh' g r where "steal sh i g0 = (sh', g, r)" and "injector sh' = injector sh"
    and "length (workers sh') = length (workers sh)" and "shutdown sh' = shutdown sh"
    and "local_tasks sh = local_tasks sh' + (case r of None \<Rightarrow> {#} | Some t \<Rightarrow> {#t#})"
    and "r = None \<longleftrightarrow> local_tasks sh = {#}" and "r = None \<longrightarrow> sh' = sh"
proof (cases "length (workers sh) \<le> 1")
  case True
  then have "length (workers sh) = 1" and "i = 0" using assms(1) by simp_all
  then obtain w where "workers sh = [w]" by (auto simp: length_Suc_conv)
  then have "local_tasks sh = {#}" using assms(2) \<open>i = 0\<close> by (simp add: local_tasks_def)
  then show thesis using True that [of sh g0 None] by (simp add: steal_def)
next
  case False
  let ?n = "length (workers sh)" and ?g = "xorshift64 g0"
  let ?start = "unat ?g mod ?n"
  obtain sh' r where l: "steal_loop sh i ?start [0..<?n] = (sh', r)" "injector sh' = injector sh"
    "length (workers sh') = ?n" "shutdown sh' = shutdown sh"
    "local_tasks sh = local_tasks sh' + (case r of None \<Rightarrow> {#} | Some t \<Rightarrow> {#t#})"
    "r = None \<longrightarrow> sh' = sh \<and> (\<forall>v \<in> set [0..<?n]. (?start + v) mod ?n \<noteq> i \<longrightarrow>
       local (workers sh ! ((?start + v) mod ?n)) = [])"
    using steal_loop_spec [OF assms(1), of ?start "[0..<?n]"] by blast
  have "local_tasks sh = {#}" if "r = None"
  proof -
    have "local (workers sh ! j) = []" if "j < ?n" for j
      using rotation_covers [OF that, of ?start] l(6) \<open>r = None\<close> assms(2) by metis
    then show ?thesis by (auto simp: local_tasks_empty in_set_conv_nth)
  qed
  then have "r = None \<longleftrightarrow> local_tasks sh = {#}" using l(5) by (auto split: option.splits)
  with l False show thesis using that [of sh' ?g r] by (simp add: steal_def)
qed

lemma has_work_others_iff:
  "has_work_others i k ws \<longleftrightarrow> (\<exists>j < length ws. k + j \<noteq> i \<and> local (ws ! j) \<noteq> [])"
proof (induction ws arbitrary: k)
  case (Cons w ws)
  show ?case unfolding has_work_others.simps Cons.IH
    by (auto simp: less_Suc_eq_0_disj)
qed simp

lemma has_work_iff:
  assumes "i < length (workers sh)"
  shows "has_work sh i = Inr (all_tasks sh \<noteq> {#})"
proof -
  have "all_tasks sh \<noteq> {#} \<longleftrightarrow> injector sh \<noteq> [] \<or> (\<exists>j < length (workers sh). local (workers sh ! j) \<noteq> [])"
    by (auto simp: all_tasks_def local_tasks_empty all_set_conv_all_nth)
  moreover have "\<dots> \<longleftrightarrow> local (workers sh ! i) \<noteq> [] \<or> injector sh \<noteq> [] \<or> has_work_others i 0 (workers sh)"
    using assms by (auto simp: has_work_others_iff)
  ultimately show ?thesis using assms by (auto simp: has_work_def)
qed

text \<open>One turn of a worker takes one task out of the queues, unless they are all empty.\<close>

fun turn_task :: "'t turn \<Rightarrow> 't multiset" where
  "turn_task (Poll t) = {#t#}"
| "turn_task _ = {#}"

lemma worker_pop_spec:
  assumes i: "i < length (workers sh)"
  obtains sh' r where "worker_pop sh i k = Inr (sh', r)"
    and "all_tasks sh = all_tasks sh' + (case r of None \<Rightarrow> {#} | Some t \<Rightarrow> {#t#})"
    and "length (workers sh') = length (workers sh)" and "shutdown sh' = shutdown sh"
    and "r = None \<longrightarrow> injector sh' = [] \<and> local (workers sh' ! i) = []"
proof (cases "k mod POLL_BUDGET = 0")
  case True
  obtain sh1 r where g: "pop_global sh = (sh1, r)" by fastforce
  note gs = pop_global_spec [OF g]
  show thesis
  proof (cases r)
    case (Some t)
    show thesis
      by (rule that [of sh1 "Some t"]) (use True g gs Some in \<open>simp_all add: worker_pop_def all_tasks_def local_tasks_def\<close>)
  next
    case None
    then have sh1: "sh1 = sh" "injector sh = []" using g by (auto simp: pop_global_def split: list.splits)
    obtain sh2 u where l: "pop_local sh i = Inr (sh2, u)" "injector sh2 = injector sh"
      "length (workers sh2) = length (workers sh)" "shutdown sh2 = shutdown sh"
      "local_tasks sh = local_tasks sh2 + (case u of None \<Rightarrow> {#} | Some t \<Rightarrow> {#t#})"
      "u = None \<longleftrightarrow> local (workers sh ! i) = []" "u = None \<longrightarrow> sh2 = sh"
      by (rule pop_local_spec [OF i])
    show thesis
      by (rule that [of sh2 u]) (use True g None sh1 l in \<open>simp_all add: worker_pop_def all_tasks_def\<close>)
  qed
next
  case False
  obtain sh1 u where l: "pop_local sh i = Inr (sh1, u)" "injector sh1 = injector sh"
    "length (workers sh1) = length (workers sh)" "shutdown sh1 = shutdown sh"
    "local_tasks sh = local_tasks sh1 + (case u of None \<Rightarrow> {#} | Some t \<Rightarrow> {#t#})"
    "u = None \<longleftrightarrow> local (workers sh ! i) = []" "u = None \<longrightarrow> sh1 = sh"
    by (rule pop_local_spec [OF i])
  show thesis
  proof (cases u)
    case (Some t)
    show thesis
      by (rule that [of sh1 "Some t"]) (use False l Some in \<open>simp_all add: worker_pop_def all_tasks_def\<close>)
  next
    case None
    obtain sh2 r where g: "pop_global sh = (sh2, r)" by fastforce
    note gs = pop_global_spec [OF g]
    have "r = None \<Longrightarrow> sh2 = sh" using g by (auto simp: pop_global_def split: list.splits)
    then show thesis
      by (intro that [of sh2 r])
        (use False l None g gs in \<open>auto simp: worker_pop_def all_tasks_def local_tasks_def\<close>)
  qed
qed

lemma worker_turn_spec:
  assumes "i < length (workers sh)" and "\<not> shutdown sh"
  obtains sh' rs' u where "worker_turn sh i rs = Inr (sh', rs', u)"
    and "all_tasks sh = all_tasks sh' + turn_task u"
    and "length (workers sh') = length (workers sh)" and "\<not> shutdown sh'"
    and "u = Idle \<longleftrightarrow> all_tasks sh = {#}" and "u \<noteq> Leave"
proof -
  obtain sh1 r where pop: "worker_pop sh i (tick rs) = Inr (sh1, r)"
    and sh1: "all_tasks sh = all_tasks sh1 + (case r of None \<Rightarrow> {#} | Some t \<Rightarrow> {#t#})"
      "length (workers sh1) = length (workers sh)" "shutdown sh1 = shutdown sh"
      "r = None \<longrightarrow> injector sh1 = [] \<and> local (workers sh1 ! i) = []"
    by (rule worker_pop_spec [OF assms(1), of "tick rs"])
  show thesis
  proof (cases r)
    case (Some t)
    show thesis
      by (rule that [of sh1 "rs\<lparr>tick := tick rs + 1\<rparr>" "Poll t"])
        (use assms(2) pop sh1 Some in \<open>simp_all add: worker_turn_def\<close>)
  next
    case None
    have i: "i < length (workers sh1)" using assms(1) sh1(2) by simp
    obtain sh2 g u where st: "steal sh1 i (rng rs) = (sh2, g, u)" "injector sh2 = injector sh1"
      "length (workers sh2) = length (workers sh1)" "shutdown sh2 = shutdown sh1"
      "local_tasks sh1 = local_tasks sh2 + (case u of None \<Rightarrow> {#} | Some t \<Rightarrow> {#t#})"
      "u = None \<longleftrightarrow> local_tasks sh1 = {#}"
      by (rule steal_spec [OF i, of "rng rs"]) (use sh1(4) None that in auto)
    have empty: "injector sh1 = []" using sh1(4) None by simp
    show thesis
    proof (cases u)
      case u: None
      show thesis
        by (rule that [of sh2 "rs\<lparr>rng := g\<rparr>" Idle])
          (use assms(2) pop sh1 None u st empty in \<open>simp_all add: worker_turn_def all_tasks_def\<close>)
    next
      case (Some t)
      show thesis
        by (rule that [of sh2 "rs\<lparr>rng := g, tick := tick rs + 1\<rparr>" "Poll t"])
          (use assms(2) pop sh1 None Some st empty in \<open>simp_all add: worker_turn_def all_tasks_def\<close>)
    qed
  qed
qed

section \<open>First in, first out\<close>

text \<open>An abstract queue: what is put in comes out in the same order.\<close>

fun deq_n :: "('q \<Rightarrow> ('t \<times> 'q) option) \<Rightarrow> nat \<Rightarrow> 'q \<Rightarrow> 't list \<times> 'q" where
  "deq_n deq 0 q = ([], q)"
| "deq_n deq (Suc n) q = (case deq q of None \<Rightarrow> ([], q) | Some (t, q') \<Rightarrow>
     let (ts, q'') = deq_n deq n q' in (t # ts, q''))"

locale fifo_queue =
  fixes q_enq :: "'q \<Rightarrow> 't \<Rightarrow> 'q"
    and q_deq :: "'q \<Rightarrow> ('t \<times> 'q) option"
    and q_contents :: "'q \<Rightarrow> 't list"
    and q_inv :: "'q \<Rightarrow> bool"
  assumes enq_inv: "q_inv q \<Longrightarrow> q_inv (q_enq q t)"
    and enq_contents: "q_inv q \<Longrightarrow> q_contents (q_enq q t) = q_contents q @ [t]"
    and deq_None: "q_inv q \<Longrightarrow> q_deq q = None \<longleftrightarrow> q_contents q = []"
    and deq_Some: "q_inv q \<Longrightarrow> q_deq q = Some (t, q') \<Longrightarrow> q_inv q' \<and> q_contents q = t # q_contents q'"
begin

lemma enq_all: "q_inv q \<Longrightarrow> q_inv (foldl q_enq q ts) \<and> q_contents (foldl q_enq q ts) = q_contents q @ ts"
  by (induction ts arbitrary: q) (simp_all add: enq_inv enq_contents)

lemma deq_all:
  "q_inv q \<Longrightarrow> n \<le> length (q_contents q) \<Longrightarrow>
     \<exists>q'. deq_n q_deq n q = (take n (q_contents q), q') \<and> q_inv q' \<and> q_contents q' = drop n (q_contents q)"
proof (induction n arbitrary: q)
  case (Suc n)
  then obtain t q1 where d: "q_deq q = Some (t, q1)" using deq_None [of q] by (cases "q_deq q") auto
  with deq_Some [OF Suc.prems(1) d] Suc.prems(2) Suc.IH [of q1] show ?case by auto
qed simp

lemma fifo:
  assumes "q_inv q"
  shows "\<exists>q'. deq_n q_deq (length (q_contents q) + length ts) (foldl q_enq q ts) = (q_contents q @ ts, q') \<and>
     q_contents q' = []"
  using deq_all [of "foldl q_enq q ts" "length (q_contents q) + length ts"] enq_all [OF assms, of ts] by auto

end

definition exec_enq :: "'t shared \<times> run_state \<Rightarrow> 't \<Rightarrow> 't shared \<times> run_state" where
  "exec_enq q t = (fst (schedule (fst q) t), snd q)"

definition exec_deq :: "nat \<Rightarrow> 't shared \<times> run_state \<Rightarrow> ('t \<times> 't shared \<times> run_state) option" where
  "exec_deq i q = (case worker_turn (fst q) i (snd q) of
     Inr (sh, rs, Poll t) \<Rightarrow> Some (t, sh, rs)
   | _ \<Rightarrow> None)"

definition locals_empty :: "'t shared \<Rightarrow> bool" where
  "locals_empty sh \<longleftrightarrow> (\<forall>w \<in> set (workers sh). local w = [])"

definition exec_inv :: "nat \<Rightarrow> 't shared \<times> run_state \<Rightarrow> bool" where
  "exec_inv i q \<longleftrightarrow> \<not> shutdown (fst q) \<and> i < length (workers (fst q)) \<and> locals_empty (fst q)"

lemma schedule_eq:
  "\<not> shutdown sh \<Longrightarrow> injector (fst (schedule sh t)) = injector sh @ [t]"
  "workers (fst (schedule sh t)) = workers sh" "shutdown (fst (schedule sh t)) = shutdown sh"
  by (auto simp: schedule_def push_global_def unpark_one_def Let_def)

lemma spawn_eq:
  "injector (fst (spawn sh t)) = injector sh @ [t]"
  "workers (fst (spawn sh t)) = workers sh" "shutdown (fst (spawn sh t)) = shutdown sh"
  by (auto simp: spawn_def push_global_def unpark_one_def Let_def)

lemma steal_locals_empty:
  assumes "locals_empty sh" and "i < length (workers sh)"
  obtains g where "steal sh i g0 = (sh, g, None)"
proof -
  have l: "local (workers sh ! i) = []" "local_tasks sh = {#}"
    using assms by (simp_all add: locals_empty_def local_tasks_empty)
  obtain sh' g r where "steal sh i g0 = (sh', g, r)" "r = None \<longleftrightarrow> local_tasks sh = {#}" "r = None \<longrightarrow> sh' = sh"
    by (rule steal_spec [OF assms(2) l(1), of g0])
  then show thesis using l(2) that [of g] by simp
qed

lemma worker_turn_locals_empty:
  assumes "locals_empty sh" and "i < length (workers sh)" and "\<not> shutdown sh"
  shows "case injector sh of
      [] \<Rightarrow> \<exists>rs'. worker_turn sh i rs = Inr (sh, rs', Idle)
    | t # ts \<Rightarrow> \<exists>rs'. worker_turn sh i rs = Inr (sh\<lparr>injector := ts\<rparr>, rs', Poll t)"
proof -
  have l: "local (workers sh ! i) = []" using assms(1,2) by (simp add: locals_empty_def)
  show ?thesis
  proof (cases "injector sh")
    case Nil
    then have "worker_pop sh i (tick rs) = Inr (sh, None)"
      using l assms(2) by (simp add: worker_pop_def pop_global_def pop_local_def)
    moreover obtain g where "steal sh i (rng rs) = (sh, g, None)" by (rule steal_locals_empty [OF assms(1,2)])
    ultimately show ?thesis using Nil assms(3) by (simp add: worker_turn_def)
  next
    case (Cons t ts)
    then have "worker_pop sh i (tick rs) = Inr (sh\<lparr>injector := ts\<rparr>, Some t)"
      using l assms(2) by (simp add: worker_pop_def pop_global_def pop_local_def)
    then show ?thesis using Cons assms(3) by (simp add: worker_turn_def)
  qed
qed

interpretation exec_q: fifo_queue exec_enq "exec_deq i" "injector \<circ> fst" "exec_inv i" for i
proof unfold_locales
  show "exec_inv i (exec_enq q t)" if "exec_inv i q" for q :: "'a shared \<times> run_state" and t
    using that by (simp add: exec_inv_def exec_enq_def schedule_eq locals_empty_def)
  show "(injector \<circ> fst) (exec_enq q t) = (injector \<circ> fst) q @ [t]" if "exec_inv i q"
    for q :: "'a shared \<times> run_state" and t
    using that by (simp add: exec_inv_def exec_enq_def schedule_eq)
  fix q :: "'a shared \<times> run_state"
  assume inv: "exec_inv i q"
  note turn = worker_turn_locals_empty [of "fst q" i "snd q"]
  show "exec_deq i q = None \<longleftrightarrow> (injector \<circ> fst) q = []"
    using turn inv by (auto simp: exec_inv_def exec_deq_def split: list.splits)
  show "exec_inv i q' \<and> (injector \<circ> fst) q = t # (injector \<circ> fst) q'" if "exec_deq i q = Some (t, q')" for t q'
    using turn inv that by (auto simp: exec_inv_def exec_deq_def locals_empty_def split: list.splits)
qed

section \<open>Reachable executors\<close>

inductive exec_reachable :: "nat \<Rightarrow> 't shared \<Rightarrow> bool" for n where
  exec_new: "shared_new n = Inr sh \<Longrightarrow> exec_reachable n sh"
| exec_enter: "exec_reachable n sh \<Longrightarrow> worker_enter sh i = Inr sh' \<Longrightarrow> exec_reachable n sh'"
| exec_schedule: "exec_reachable n sh \<Longrightarrow> exec_reachable n (fst (schedule sh t))"
| exec_spawn: "exec_reachable n sh \<Longrightarrow> exec_reachable n (fst (spawn sh t))"
| exec_turn: "exec_reachable n sh \<Longrightarrow> i < n \<Longrightarrow> worker_turn sh i rs = Inr (sh', rs', u) \<Longrightarrow> exec_reachable n sh'"
| exec_flags: "exec_reachable n sh \<Longrightarrow>
    exec_reachable n (sh\<lparr>shutdown := a, driver_held := b, driver_parked := c\<rparr>)"
| exec_drain: "exec_reachable n sh \<Longrightarrow> exec_reachable n (drain_queues sh)"

lemma exec_reachable_locals: "exec_reachable n sh \<Longrightarrow> locals_empty sh \<and> length (workers sh) = n"
proof (induction rule: exec_reachable.induct)
  case (exec_turn sh i rs sh' rs' u)
  then show ?case
    using worker_turn_locals_empty [of sh i rs]
    by (cases "shutdown sh") (auto simp: worker_turn_def locals_empty_def split: list.splits)
next
  case (exec_enter sh i sh')
  then show ?case
    by (auto simp: worker_enter_def locals_empty_def all_set_conv_all_nth nth_list_update split: if_splits)
qed (auto simp: shared_new_def worker_slot_new_def locals_empty_def schedule_eq spawn_eq drain_queues_def
      split: if_splits)

section \<open>The generator\<close>

lemma bit_XOR: "bit (x XOR y) i \<longleftrightarrow> bit x i \<noteq> bit y i" for x y :: u64
  by (simp add: bit_xor_iff)

lemma xor_shift_left_nonzero:
  fixes x :: u64
  assumes "x \<noteq> 0" and "0 < n"
  shows "x XOR push_bit n x \<noteq> 0"
proof
  assume zero: "x XOR push_bit n x = 0"
  have eq: "bit x i \<longleftrightarrow> bit (push_bit n x) i" for i
    using arg_cong [OF zero, of "\<lambda>w. bit w i"] by (simp add: bit_XOR)
  have "\<not> bit x i" for i
  proof (induction i rule: less_induct)
    case (less i)
    then show ?case using eq [of i] assms(2) by (auto simp: bit_push_bit_iff)
  qed
  then show False using assms(1) by (simp add: bit_eq_iff)
qed

lemma xor_shift_right_nonzero:
  fixes x :: u64
  assumes "x \<noteq> 0" and "0 < n"
  shows "x XOR drop_bit n x \<noteq> 0"
proof
  assume zero: "x XOR drop_bit n x = 0"
  have eq: "bit x i \<longleftrightarrow> bit x (n + i)" for i
    using arg_cong [OF zero, of "\<lambda>w. bit w i"] by (simp add: bit_XOR bit_drop_bit_eq)
  have range: "i < 64" if "bit x i" for i using bit_imp_le_length [OF that] by simp
  have "k \<le> 64 \<Longrightarrow> \<not> bit x (64 - k)" for k
  proof (induction k rule: less_induct)
    case (less k)
    show ?case
    proof
      assume b: "bit x (64 - k)"
      then have lt: "64 - k < 64" by (rule range)
      have b': "bit x (n + (64 - k))" using b eq by blast
      then have "n + (64 - k) < 64" by (rule range)
      then have "n + (64 - k) = 64 - (k - n)" "k - n < k" using assms(2) lt less.prems by simp_all
      then show False using less.IH [of "k - n"] less.prems b' by simp
    qed
  qed
  then have "\<not> bit x i" for i using range [of i] by (metis diff_diff_cancel diff_le_self less_imp_le)
  then show False using assms(1) by (simp add: bit_eq_iff)
qed

lemma xorshift64_nonzero: "xorshift64 s \<noteq> 0"
  unfolding xorshift64_def Let_def
  by (intro xor_shift_left_nonzero xor_shift_right_nonzero) simp_all

lemma seed_nonzero:
  assumes "i < 2 ^ 64 - 1"
  shows "rng (run_state_new i) \<noteq> 0"
proof
  let ?c = "0x9E3779B97F4A7C15 :: nat"
  assume "rng (run_state_new i) = 0"
  then have "(of_nat ((i + 1) * ?c) :: u64) = 0" by (simp add: run_state_new_def algebra_simps)
  then have "2 ^ 64 dvd (i + 1) * ?c" by (simp only: word_of_nat_eq_0_iff) simp
  moreover have "coprime 2 ?c" by (simp add: coprime_left_2_iff_odd)
  then have "coprime (2 ^ 64) ?c" by (simp only: coprime_power_left_iff simp_thms)
  ultimately have "2 ^ 64 dvd i + 1" by (simp only: coprime_dvd_mult_left_iff)
  then show False using assms by (auto dest: dvd_imp_le)
qed

section \<open>Properties of the executor\<close>

text \<open>
  Claim C14. A worker that is not told to shut down takes exactly one task out of the queues in each
  turn, whatever queue it is in, and goes idle exactly when every queue is empty; the other tasks stay
  queued. \<open>has_work\<close> agrees: it is true exactly when some queue holds a task.
\<close>

theorem worker_turn_complete:
  assumes "i < length (workers sh)"
  shows "if shutdown sh then worker_turn sh i rs = Inr (sh, rs, Leave)
     else \<exists>sh' rs' u. worker_turn sh i rs = Inr (sh', rs', u) \<and> u \<noteq> Leave \<and>
       all_tasks sh = all_tasks sh' + turn_task u \<and>
       (u = Idle \<longleftrightarrow> all_tasks sh = {#}) \<and> has_work sh i = Inr (u \<noteq> Idle)"
proof (cases "shutdown sh")
  case False
  show ?thesis
    by (rule worker_turn_spec [OF assms False, of rs]) (use False has_work_iff [OF assms] in auto)
qed (simp add: worker_turn_def)

theorem worker_turn_complete_witness:
  "\<exists>sh' rs' t. worker_turn \<lparr>injector = [], workers = [\<lparr>thread_set = True, local = []\<rparr>,
        \<lparr>thread_set = True, local = [''a'', ''b'', ''c'']\<rparr>],
      next_unpark = 0, shutdown = False, driver_held = False, driver_parked = False\<rparr> 0 (run_state_new 0) =
    Inr (sh', rs', Poll t)"
proof -
  let ?sh = "\<lparr>injector = [], workers = [\<lparr>thread_set = True, local = []\<rparr>,
        \<lparr>thread_set = True, local = [''a'', ''b'', ''c'']\<rparr>],
      next_unpark = 0, shutdown = False, driver_held = False, driver_parked = False\<rparr> :: string shared"
  have i: "0 < length (workers ?sh)" by simp
  have "all_tasks ?sh \<noteq> {#}" by (simp add: all_tasks_def local_tasks_def)
  then obtain sh' rs' u where "worker_turn ?sh 0 (run_state_new 0) = Inr (sh', rs', u)" "u \<noteq> Leave" "u \<noteq> Idle"
    using worker_turn_complete [OF i, of "run_state_new 0"] by auto
  then show ?thesis by (cases u) auto
qed

text \<open>
  In every reachable executor all local queues are empty, so stealing never finds a task:
  wakes and spawns only push to the injector, and the only other place that fills a local queue is a
  steal from another local queue.
\<close>

lemma local_queues_unused:
  assumes "exec_reachable n sh" and "i < n"
  shows "pop_local sh i = Inr (sh, None) \<and> (\<exists>g. steal sh i g0 = (sh, g, None))"
proof -
  have l: "locals_empty sh" "i < length (workers sh)"
    using exec_reachable_locals [OF assms(1)] assms(2) by simp_all
  then have "local (workers sh ! i) = []" by (simp add: locals_empty_def)
  then show ?thesis using l steal_locals_empty [OF l, of g0] by (auto simp: pop_local_def)
qed

theorem local_queues_unused_witness:
  "\<exists>sh :: string shared. shared_new 2 = Inr sh \<and> pop_local (fst (schedule sh ''a'')) 1 = Inr (fst (schedule sh ''a''), None)"
proof -
  obtain sh :: "string shared" where sh: "shared_new 2 = Inr sh" by (simp add: shared_new_def)
  from local_queues_unused [OF exec_schedule [OF exec_new [OF sh]], of 1 "''a''"] sh show ?thesis by auto
qed

text \<open>
  Claim C21. The executor refines a first-in first-out queue: whatever worker runs and wherever its
  tick and generator stand, the tasks waiting in the injector and then the newly scheduled ones are
  polled in exactly the order they were scheduled.
\<close>

theorem executor_fifo:
  assumes "exec_reachable n sh" and "i < n" and "\<not> shutdown sh"
  shows "\<exists>sh' rs'. deq_n (exec_deq i) (length (injector sh) + length ts) (foldl exec_enq (sh, rs) ts) =
       (injector sh @ ts, (sh', rs')) \<and> injector sh' = []"
proof -
  have "exec_inv i (sh, rs)"
    using exec_reachable_locals [OF assms(1)] assms(2,3) by (simp add: exec_inv_def)
  from exec_q.fifo [OF this, of ts] show ?thesis by auto
qed

theorem executor_fifo_witness:
  "\<exists>sh sh' rs'. shared_new 2 = Inr sh \<and>
     deq_n (exec_deq 1) 2 (foldl exec_enq (sh, run_state_new 1) [''a'', ''b'']) = ([''a'', ''b''], (sh', rs'))"
proof -
  obtain sh :: "string shared" where sh: "shared_new 2 = Inr sh" "injector sh = []" "\<not> shutdown sh"
    by (simp add: shared_new_def)
  from executor_fifo [OF exec_new [OF sh(1)] _ sh(3), of 1 "[''a'', ''b'']" "run_state_new 1"] sh(1,2)
  show ?thesis by (simp add: numeral_2_eq_2) blast
qed

text \<open>
  Among any \<open>POLL_BUDGET\<close> consecutive ticks there is one at which the injector is looked at
  first, also across the wrap-around of the tick counter, so a task at the head of the injector waits
  at most that many turns of a worker with a busy local queue.
\<close>

lemma injector_not_starved:
  "\<exists>j < 61. (k + of_nat j) mod POLL_BUDGET = 0 \<and>
     (\<forall>sh i t ts. injector sh = t # ts \<longrightarrow> worker_pop sh i (k + of_nat j) = Inr (sh\<lparr>injector := ts\<rparr>, Some t))"
proof -
  have "\<exists>j < 61. (k + of_nat j) mod POLL_BUDGET = 0"
  proof (cases "unat k + 60 < 2 ^ 64")
    case True
    define j where "j = (61 - unat k mod 61) mod 61"
    have j: "j < 61" by (simp add: j_def)
    have sum: "unat (k + of_nat j) = unat k + j"
      using True j unat_plus_word [of k "of_nat j"] by (simp add: unat_of_nat)
    have "(unat k + j) mod 61 = (unat k mod 61 + (61 - unat k mod 61)) mod 61"
      by (simp only: j_def mod_add_left_eq mod_add_right_eq)
    also have "unat k mod 61 + (61 - unat k mod 61) = 61"
      using mod_less_divisor [of 61 "unat k"] by linarith
    finally have "unat (k + of_nat j) mod 61 = 0" using sum by simp
    moreover have "unat (61 :: u64) = 61" by simp
    ultimately have "unat ((k + of_nat j) mod 61) = 0" by (simp only: unat_mod_distrib)
    then have "(k + of_nat j) mod POLL_BUDGET = 0"
      unfolding POLL_BUDGET_def by (simp only: unat_eq_zero)
    with j show ?thesis by (intro exI [of _ j] conjI)
  next
    case False
    let ?j = "2 ^ 64 - unat k"
    have j: "?j < 61" using False unat_u64_less [of k] by simp
    have "k + of_nat ?j = 0"
      using unat_u64_less [of k] by (simp add: of_nat_diff)
    then show ?thesis using j by (intro exI [of _ ?j]) simp
  qed
  then obtain j where "j < 61" "(k + of_nat j) mod POLL_BUDGET = 0" by (elim exE conjE)
  then show ?thesis by (intro exI [of _ j]) (simp add: worker_pop_def pop_global_def)
qed

text \<open>
  The steal generator never gets stuck at zero: every state it produces is non-zero, and so
  is the seed of every worker.
\<close>

lemma xorshift_never_zero:
  "xorshift64 s \<noteq> 0 \<and> (i < 2 ^ 64 - 1 \<longrightarrow> rng (run_state_new i) \<noteq> 0)"
  using xorshift64_nonzero seed_nonzero by blast

theorem xorshift_never_zero_witness: "rng (run_state_new 3) \<noteq> 0"
  using xorshift_never_zero [of 0 3] by simp

text \<open>
  Spawning does not look at the shutdown flag: on a runtime that has shut down, a wake
  drops its task, but a spawn through a remaining handle still queues the task, which no worker will
  ever take.
\<close>

lemma spawn_after_shutdown_queued:
  assumes "shutdown sh"
  shows "schedule sh t = (sh, []) \<and> injector (fst (spawn sh t)) = injector sh @ [t] \<and>
     worker_turn (fst (spawn sh t)) i rs = Inr (fst (spawn sh t), rs, Leave)"
  using assms by (simp add: schedule_def spawn_eq worker_turn_def)

theorem spawn_after_shutdown_queued_witness:
  "\<exists>sh :: string shared. shared_new 1 = Inr sh \<and>
     injector (fst (spawn (drain_queues (sh\<lparr>shutdown := True\<rparr>)) ''t'')) = [''t'']"
proof -
  obtain sh :: "string shared" where "shared_new 1 = Inr sh" by (simp add: shared_new_def)
  moreover have "shutdown (drain_queues (sh\<lparr>shutdown := True\<rparr>))" by (simp add: drain_queues_def)
  from spawn_after_shutdown_queued [OF this, of "''t''" 0 "run_state_new 0"]
  have "injector (fst (spawn (drain_queues (sh\<lparr>shutdown := True\<rparr>)) ''t'')) = [''t'']"
    by (simp add: drain_queues_def)
  ultimately show ?thesis by blast
qed

end
