(* ===== verification/Erased.thy ===== *)
theory Erased
  imports Task Executor
begin

text \<open>
  Type-erased tasks in memory: the vtable and the \<open>TaskRef\<close> of \<^verbatim>\<open>src/src/task/raw.rs\<close>, the waker vtable of
  \<^verbatim>\<open>src/src/waker/mod.rs\<close>, the \<open>JoinHandle<T>\<close> of \<^verbatim>\<open>src/src/task/join.rs\<close> and the \<open>Spawner\<close> of
  \<^verbatim>\<open>src/src/executor/multi.rs\<close>. A heap maps addresses to allocations of \<open>RawTask<F, S>\<close>; an allocation is freed
  when its strong count reaches zero and its address may then be used again. Queue entries, wakers, calls
  in flight and join handles hold bare addresses. Everything they do goes through the header's vtable
  to a monomorphised function, which casts the address back to \<open>RawTask<F, S>\<close>. Reading freed memory, a
  cast to the wrong type and a write of an output into a slot of another type are faults, and so
  are the panics of the task's functions.
\<close>

section \<open>Memory\<close>

type_synonym addr = nat
type_synonym ty = nat

text \<open>One monomorphisation of the task code: the future's type \<open>F\<close> and the scheduler's type \<open>S\<close>.\<close>

datatype monomorph = Monomorph (fut_ty: ty) (sched_ty: ty)

text \<open>
  Function pointers. The five entries with the signature \<open>unsafe fn(NonNull<Header>)\<close> share a type; the
  entry that takes the output has its own.
\<close>

datatype task_fn =
    PollFn monomorph | ScheduleFn monomorph | CloneRefFn monomorph | DropRefFn monomorph
  | DropJoinInterestFn monomorph

datatype output_fn = TryTakeOutputFn monomorph

record Vtable =
  vt_poll :: task_fn
  vt_schedule :: task_fn
  vt_clone_ref :: task_fn
  vt_drop_ref :: task_fn
  vt_try_take_output :: output_fn
  vt_drop_join_interest :: task_fn

definition vtable :: "monomorph \<Rightarrow> Vtable" where
  "vtable m = \<lparr>vt_poll = PollFn m, vt_schedule = ScheduleFn m, vt_clone_ref = CloneRefFn m,
     vt_drop_ref = DropRefFn m, vt_try_take_output = TryTakeOutputFn m,
     vt_drop_join_interest = DropJoinInterestFn m\<rparr>"

text \<open>An allocation: its actual type, the header's vtable pointer, and the header and cell themselves.\<close>

record ('f, 'o, 'w) raw_task =
  inst :: monomorph
  header_vtable :: Vtable
  raw :: "('f, 'o, 'w) task"

datatype fault = DanglingPointer addr | WrongAllocation addr monomorph | WrongOutput addr ty | Panicked panic

type_synonym 'a checked = "fault + 'a"

definition fbind :: "'a checked \<Rightarrow> ('a \<Rightarrow> 'b checked) \<Rightarrow> 'b checked" where
  "fbind x k = (case x of Inl e \<Rightarrow> Inl e | Inr v \<Rightarrow> k v)"

lemma fbind_simps [simp]: "fbind (Inr v) k = k v" "fbind (Inl e) k = Inl e"
  by (simp_all add: fbind_def)

lemma fbind_Inr_iff [simp]: "fbind x k = Inr r \<longleftrightarrow> (\<exists>v. x = Inr v \<and> k v = Inr r)"
  by (cases x) simp_all

text \<open>
  The program's memory and every reference into it: run queues, wakers, calls of \<open>poll_fn\<close> and of
  \<open>schedule_fn\<close> in flight with their monomorphisation, and join handles whose \<open>raw\<close> is not \<open>None\<close>, with
  their type argument \<open>T\<close>.
\<close>

record ('f, 'o, 'w) world =
  heap :: "addr \<Rightarrow> ('f, 'o, 'w) raw_task option"
  executor :: "addr shared"
  wakers :: "addr multiset"
  poll_calls :: "(addr \<times> monomorph \<times> ('o, 'w) poll_pc) multiset"
  sched_calls :: "(addr \<times> monomorph \<times> sched_pc) multiset"
  handles :: "(addr \<times> ty \<times> ('o, 'w) join_pc) multiset"

section \<open>Reaching the typed allocation\<close>

definition header :: "('f, 'o, 'w) world \<Rightarrow> addr \<Rightarrow> ('f, 'o, 'w) raw_task checked" where
  "header w p = (case heap w p of None \<Rightarrow> Inl (DanglingPointer p) | Some c \<Rightarrow> Inr c)"

definition typed :: "monomorph \<Rightarrow> ('f, 'o, 'w) world \<Rightarrow> addr \<Rightarrow> ('f, 'o, 'w) raw_task checked" where
  "typed m w p = fbind (header w p) (\<lambda>c. if inst c = m then Inr c else Inl (WrongAllocation p m))"

text \<open>Writing the task back; the allocation goes away with its last reference.\<close>

definition put_task :: "addr \<Rightarrow> ('f, 'o, 'w) task \<Rightarrow> ('f, 'o, 'w) world \<Rightarrow> ('f, 'o, 'w) world" where
  "put_task p t w = w\<lparr>heap := (heap w)(p :=
     if strong t = 0 then None else map_option (\<lambda>c. c\<lparr>raw := t\<rparr>) (heap w p))\<rparr>"

text \<open>
  A call through one of the vtable's function pointers. \<open>poll_fn\<close> and \<open>schedule_fn\<close> only start here;
  their steps follow one by one. \<open>drop_join_interest_fn\<close> clears the bit here, and the caller's program
  counter says whether it goes on to drop the output.
\<close>

fun call_fn :: "task_fn \<Rightarrow> addr \<Rightarrow> ('f, 'o, 'w) world \<Rightarrow> (('f, 'o, 'w) world \<times> bool) checked" where
  "call_fn (PollFn m) p w =
     fbind (typed m w p) (\<lambda>c. Inr (w\<lparr>poll_calls := add_mset (p, m, PLoad) (poll_calls w)\<rparr>, False))"
| "call_fn (ScheduleFn m) p w =
     fbind (typed m w p) (\<lambda>c. Inr (w\<lparr>sched_calls := add_mset (p, m, SNotify) (sched_calls w)\<rparr>, False))"
| "call_fn (CloneRefFn m) p w = fbind (typed m w p) (\<lambda>c. Inr (put_task p (clone_ref (raw c)) w, False))"
| "call_fn (DropRefFn m) p w = fbind (typed m w p) (\<lambda>c. Inr (put_task p (drop_ref (raw c)) w, False))"
| "call_fn (DropJoinInterestFn m) p w =
     fbind (typed m w p) (\<lambda>c. let (t, complete) = clear_join_interest (raw c) in Inr (put_task p t w, complete))"

definition call :: "(Vtable \<Rightarrow> task_fn) \<Rightarrow> addr \<Rightarrow> ('f, 'o, 'w) world \<Rightarrow> ('f, 'o, 'w) world checked" where
  "call entry p w =
     fbind (header w p) (\<lambda>c. fbind (call_fn (entry (header_vtable c)) p w) (\<lambda>(w', _). Inr w'))"

section \<open>\<open>TaskRef\<close>\<close>

definition task_ref_poll :: "addr \<Rightarrow> ('f, 'o, 'w) world \<Rightarrow> ('f, 'o, 'w) world checked" where
  "task_ref_poll p w = call vt_poll p w"

definition task_ref_clone :: "addr \<Rightarrow> ('f, 'o, 'w) world \<Rightarrow> ('f, 'o, 'w) world checked" where
  "task_ref_clone p w = call vt_clone_ref p w"

definition task_ref_drop :: "addr \<Rightarrow> ('f, 'o, 'w) world \<Rightarrow> ('f, 'o, 'w) world checked" where
  "task_ref_drop p w = call vt_drop_ref p w"

section \<open>The scheduler's facade\<close>

text \<open>
  The three parts of \<open>Spawner::schedule\<close>, each a step of the call that makes it. It reads the shutdown flag first
  and pushes later; \<open>seen\<close> is the value it read. After the push, ringing the driver leaves the queues as they are, and
  unparking a worker moves the round-robin counter; both read \<open>self.shared\<close> once more, and \<open>self\<close> is in the allocation of the
  task, which the calling step has to find where it was.
\<close>

fun spawner_schedule :: "bool \<Rightarrow> 'w task_effect \<Rightarrow> addr \<Rightarrow> ('f, 'o, 'w) world \<Rightarrow> ('f, 'o, 'w) world checked" where
  "spawner_schedule seen Enqueue p w =
     (if seen then task_ref_drop p w else Inr (w\<lparr>executor := push_global (executor w) p\<rparr>))"
| "spawner_schedule seen WakeDriver p w = Inr w"
| "spawner_schedule seen UnparkOne p w = Inr (w\<lparr>executor := fst (unpark_one (executor w))\<rparr>)"
| "spawner_schedule seen _ p w = Inr w"

definition join_handle_new :: "addr \<Rightarrow> ty \<Rightarrow> addr \<times> ty \<times> ('o, 'w) join_pc" where
  "join_handle_new p T = (p, T, JIdle)"

text \<open>\<open>p\<close> is the address the allocator returns; \<open>out_ty\<close> maps a future's type to its \<open>Output\<close>.\<close>

definition spawner_spawn ::
  "(ty \<Rightarrow> ty) \<Rightarrow> monomorph \<Rightarrow> 'f \<Rightarrow> addr \<Rightarrow> ('f, 'o, 'w) world \<Rightarrow> ('f, 'o, 'w) world" where
  "spawner_spawn out_ty m f p w =
     w\<lparr>heap := (heap w)(p \<mapsto> \<lparr>inst = m, header_vtable = vtable m, raw = spawn_raw f\<rparr>),
       executor := fst (spawn (executor w) p),
       handles := add_mset (join_handle_new p (out_ty (fut_ty m))) (handles w)\<rparr>"

section \<open>Wakers\<close>

definition world_clone :: "addr \<Rightarrow> ('f, 'o, 'w) world \<Rightarrow> ('f, 'o, 'w) world checked" where
  "world_clone p w = fbind (call vt_clone_ref p w) (\<lambda>w'. Inr (w'\<lparr>wakers := add_mset p (wakers w')\<rparr>))"

definition world_wake :: "addr \<Rightarrow> ('f, 'o, 'w) world \<Rightarrow> ('f, 'o, 'w) world checked" where
  "world_wake p w = call vt_schedule p (w\<lparr>wakers := wakers w - {#p#}\<rparr>)"

definition world_wake_by_ref :: "addr \<Rightarrow> ('f, 'o, 'w) world \<Rightarrow> ('f, 'o, 'w) world checked" where
  "world_wake_by_ref p w = fbind (call vt_clone_ref p w) (call vt_schedule p)"

definition world_drop :: "addr \<Rightarrow> ('f, 'o, 'w) world \<Rightarrow> ('f, 'o, 'w) world checked" where
  "world_drop p w = call vt_drop_ref p (w\<lparr>wakers := wakers w - {#p#}\<rparr>)"

section \<open>Calls in flight\<close>

definition poll_call ::
  "bool \<Rightarrow> bool \<Rightarrow> ('f \<Rightarrow> 'f \<times> 'o polled) \<Rightarrow> addr \<times> monomorph \<times> ('o, 'w) poll_pc \<Rightarrow>
     ('f, 'o, 'w) world \<Rightarrow> ('f, 'o, 'w) world checked" where
  "poll_call spurious seen fut k w = (case k of (p, m, pc) \<Rightarrow>
     fbind (typed m w p) (\<lambda>c.
       case poll_step spurious seen fut (raw c) pc of
         Inl e \<Rightarrow> Inl (Panicked e)
       | Inr (t, next, e) \<Rightarrow>
           let w' = put_task p t (w\<lparr>poll_calls := poll_calls w - {#k#} +
                 image_mset (\<lambda>pc'. (p, m, pc')) (next_calls next)\<rparr>)
           in spawner_schedule seen e p w'))"

definition sched_call ::
  "bool \<Rightarrow> addr \<times> monomorph \<times> sched_pc \<Rightarrow> ('f, 'o, 'w) world \<Rightarrow> ('f, 'o, 'w) world checked" where
  "sched_call seen k w = (case k of (p, m, pc) \<Rightarrow>
     fbind (typed m w p) (\<lambda>c.
       let (t, next, e) = sched_step seen (raw c) pc;
           w' = put_task p t (w\<lparr>sched_calls := sched_calls w - {#k#} +
             image_mset (\<lambda>pc'. (p, m, pc')) (next_calls next)\<rparr>)
       in spawner_schedule seen e p w'))"

section \<open>Join handles\<close>

text \<open>
  The helper \<open>try_take_output<T>\<close>: the vtable's entry writes an \<open>F::Output\<close> into the caller's \<open>MaybeUninit<T>\<close>.
\<close>

fun call_output_fn ::
  "(ty \<Rightarrow> ty) \<Rightarrow> output_fn \<Rightarrow> ty \<Rightarrow> addr \<Rightarrow> ('f, 'o, 'w) world \<Rightarrow> (('f, 'o, 'w) world \<times> 'o option) checked" where
  "call_output_fn out_ty (TryTakeOutputFn m) T p w =
     fbind (typed m w p) (\<lambda>c.
       let (t, r) = try_take_output (raw c) in
       if r \<noteq> None \<and> out_ty (fut_ty m) \<noteq> T then Inl (WrongOutput p T) else Inr (put_task p t w, r))"

definition take_output ::
  "(ty \<Rightarrow> ty) \<Rightarrow> ty \<Rightarrow> addr \<Rightarrow> ('f, 'o, 'w) world \<Rightarrow> (('f, 'o, 'w) world \<times> 'o option) checked" where
  "take_output out_ty T p w = fbind (header w p) (\<lambda>c. call_output_fn out_ty (vt_try_take_output (header_vtable c)) T p w)"

definition drop_join_interest :: "addr \<Rightarrow> ('f, 'o, 'w) world \<Rightarrow> (('f, 'o, 'w) world \<times> bool) checked" where
  "drop_join_interest p w = fbind (header w p) (\<lambda>c. call_fn (vt_drop_join_interest (header_vtable c)) p w)"

text \<open>
  One step of a handle. Its own accesses to the header need no cast; taking the output, giving up the
  interest in it and releasing the reference go through the vtable, and the output is dropped inside
  \<open>drop_join_interest_fn\<close>. A handle that has released its reference is no longer listed.
\<close>

definition set_handle ::
  "addr \<times> ty \<times> ('o, 'w) join_pc \<Rightarrow> ('o, 'w) join_pc option \<Rightarrow> ('f, 'o, 'w) world \<Rightarrow> ('f, 'o, 'w) world" where
  "set_handle k next w = (case k of (p, T, _) \<Rightarrow>
     w\<lparr>handles := handles w - {#k#} + image_mset (\<lambda>pc. (p, T, pc)) (next_calls next)\<rparr>)"

fun handle_call ::
  "(ty \<Rightarrow> ty) \<Rightarrow> addr \<times> ty \<times> ('o, 'w) join_pc \<Rightarrow> ('f, 'o, 'w) world \<Rightarrow> ('f, 'o, 'w) world checked" where
  "handle_call out_ty (p, T, JTake) w =
     fbind (take_output out_ty T p w) (\<lambda>(w', r).
       case r of
         Some out \<Rightarrow> Inr (set_handle (p, T, JTake) (Some (JReleaseTaken out)) w')
       | None \<Rightarrow> Inl (Panicked (ExpectFailed ''JoinHandle polled after output was already taken'')))"
| "handle_call out_ty (p, T, JReleaseTaken out) w =
     task_ref_drop p (set_handle (p, T, JReleaseTaken out) None w)"
| "handle_call out_ty (p, T, JDropInterest) w =
     fbind (drop_join_interest p w) (\<lambda>(w', complete).
       Inr (set_handle (p, T, JDropInterest) (Some (if complete then JDropOutput else JReleaseDropped)) w'))"
| "handle_call out_ty (p, T, JReleaseDropped) w = task_ref_drop p (set_handle (p, T, JReleaseDropped) None w)"
| "handle_call out_ty (p, T, pc) w =
     fbind (header w p) (\<lambda>c.
       case join_step (raw c) pc of
         Inl e \<Rightarrow> Inl (Panicked e)
       | Inr (t, pc') \<Rightarrow> Inr (set_handle (p, T, pc) (Some pc') (put_task p t w)))"

section \<open>Dropping the runtime's queue\<close>

text \<open>
  \<open>Multi::drop\<close> clears the injector once the workers are gone: the entries' references are dropped one
  after the other.
\<close>

definition clear_head :: "('f, 'o, 'w) world \<Rightarrow> ('f, 'o, 'w) world checked" where
  "clear_head w = (case injector (executor w) of
     [] \<Rightarrow> Inr w
   | p # ts \<Rightarrow> task_ref_drop p (w\<lparr>executor := (executor w)\<lparr>injector := ts\<rparr>\<rparr>))"

end
