(* ===== verification/World.thy ===== *)
theory World
  imports Erased
begin

text \<open>
  Tasks, wakers, join handles and the executor together: all calls on all tasks interleave over one
  heap and one set of run queues. Seen from any one allocation the program is a run of that task's own
  system (theory of the task), with the queue entries, wakers, calls and handles that hold its address
  as the references the task's system counts. That relation is the invariant here, with one lemma per
  operation that the operation finds a live allocation of the right type and keeps the relation.
\<close>

unbundle bit_operations_syntax

section \<open>Steps of the program\<close>

text \<open>
  \<open>fut m env f\<close> is what polling a future \<open>f\<close> of monomorphisation \<open>m\<close> does, \<open>env\<close> standing for everything it
  reads. Wakers are cloned, woken and dropped, and handles polled and dropped, at any time by whoever
  owns them, including destructors of futures; a future being polled may also use the waker it was given.
\<close>

definition world_new :: "addr shared \<Rightarrow> ('f, 'o, 'w) world" where
  "world_new sh = \<lparr>heap = Map.empty, executor = sh, wakers = {#}, poll_calls = {#}, sched_calls = {#}, handles = {#}\<rparr>"

abbreviation waker_at :: "('f, 'o, 'w) world \<Rightarrow> addr \<Rightarrow> bool" where
  "waker_at w p \<equiv> p \<in># wakers w \<or> (\<exists>m. (p, m, PPoll) \<in># poll_calls w)"

inductive world_step ::
  "(ty \<Rightarrow> ty) \<Rightarrow> (monomorph \<Rightarrow> nat \<Rightarrow> 'f \<Rightarrow> 'f \<times> 'o polled) \<Rightarrow> ('f, 'o, 'w) world \<Rightarrow> ('f, 'o, 'w) world \<Rightarrow> bool"
  for out_ty fut where
  w_spawn: "heap w p = None \<Longrightarrow> world_step out_ty fut w (spawner_spawn out_ty m f p w)"
| w_enter: "worker_enter (executor w) i = Inr sh \<Longrightarrow> world_step out_ty fut w (w\<lparr>executor := sh\<rparr>)"
| w_poll_task: "i < length (workers (executor w)) \<Longrightarrow> worker_turn (executor w) i rs = Inr (sh, rs', Poll p) \<Longrightarrow>
    task_ref_poll p (w\<lparr>executor := sh\<rparr>) = Inr w' \<Longrightarrow> world_step out_ty fut w w'"
| w_no_task: "i < length (workers (executor w)) \<Longrightarrow> worker_turn (executor w) i rs = Inr (sh, rs', u) \<Longrightarrow>
    u \<in> {Leave, Idle} \<Longrightarrow> world_step out_ty fut w (w\<lparr>executor := sh\<rparr>)"
| w_driver: "world_step out_ty fut w (w\<lparr>executor := (executor w)\<lparr>driver_held := a, driver_parked := b\<rparr>\<rparr>)"
| w_shutdown: "world_step out_ty fut w (w\<lparr>executor := (executor w)\<lparr>shutdown := True\<rparr>\<rparr>)"
| w_clear: "shutdown (executor w) \<Longrightarrow> clear_head w = Inr w' \<Longrightarrow> world_step out_ty fut w w'"
| w_poll: "k \<in># poll_calls w \<Longrightarrow> seen \<longrightarrow> shutdown (executor w) \<Longrightarrow>
    poll_call spurious seen (fut (fst (snd k)) env) k w = Inr w' \<Longrightarrow> world_step out_ty fut w w'"
| w_sched: "k \<in># sched_calls w \<Longrightarrow> seen \<longrightarrow> shutdown (executor w) \<Longrightarrow>
    sched_call seen k w = Inr w' \<Longrightarrow> world_step out_ty fut w w'"
| w_clone: "waker_at w p \<Longrightarrow> world_clone p w = Inr w' \<Longrightarrow> world_step out_ty fut w w'"
| w_wake: "p \<in># wakers w \<Longrightarrow> world_wake p w = Inr w' \<Longrightarrow> world_step out_ty fut w w'"
| w_wake_by_ref: "waker_at w p \<Longrightarrow> world_wake_by_ref p w = Inr w' \<Longrightarrow> world_step out_ty fut w w'"
| w_drop: "p \<in># wakers w \<Longrightarrow> world_drop p w = Inr w' \<Longrightarrow> world_step out_ty fut w w'"
| w_join_begin: "(p, T, pc) \<in># handles w \<Longrightarrow> join_poll x pc = Some (Inr pc') \<Longrightarrow>
    world_step out_ty fut w (set_handle (p, T, pc) (Some pc') w)"
| w_join_drop: "(p, T, pc) \<in># handles w \<Longrightarrow> join_drop pc = Some pc' \<Longrightarrow>
    world_step out_ty fut w (set_handle (p, T, pc) (Some pc') w)"
| w_join: "(p, T, pc) \<in># handles w \<Longrightarrow> \<not> join_at_rest pc \<Longrightarrow>
    handle_call out_ty (p, T, pc) w = Inr w' \<Longrightarrow> world_step out_ty fut w w'"

inductive world_reachable ::
  "(ty \<Rightarrow> ty) \<Rightarrow> (monomorph \<Rightarrow> nat \<Rightarrow> 'f \<Rightarrow> 'f \<times> 'o polled) \<Rightarrow> nat \<Rightarrow> ('f, 'o, 'w) world \<Rightarrow> bool"
  for out_ty fut n where
  world_start: "shared_new n = Inr sh \<Longrightarrow> world_reachable out_ty fut n (world_new sh)"
| world_next: "world_reachable out_ty fut n w \<Longrightarrow> world_step out_ty fut w w' \<Longrightarrow> world_reachable out_ty fut n w'"

section \<open>The program seen from one allocation\<close>

definition at :: "addr \<Rightarrow> (addr \<times> 'a) multiset \<Rightarrow> 'a multiset" where
  "at p M = image_mset snd {#x \<in># M. fst x = p#}"

lemma at_simps [simp]:
  "at p {#} = {#}" "at p (add_mset (q, x) M) = (if q = p then add_mset x (at p M) else at p M)"
  "at p (M + N) = at p M + at p N"
  by (simp_all add: at_def)

lemma at_image [simp]: "at p (image_mset (\<lambda>x. (q, g x)) N) = (if q = p then image_mset g N else {#})"
  by (induction N) auto

lemma at_member: "(p, x) \<in># M \<Longrightarrow> x \<in># at p M"
  by (force simp: at_def)

lemma at_remove: "(p, x) \<in># M \<Longrightarrow> at q (M - {#(p, x)#}) = (if q = p then at p M - {#x#} else at q M)"
  by (auto dest!: multi_member_split)

text \<open>
  The references to an address. A call of \<open>schedule_fn\<close> past its push owns none, and may outlive the allocation.
\<close>

abbreviation holds_ref :: "sched_pc \<Rightarrow> bool" where
  "holds_ref pc \<equiv> sched_refs pc \<noteq> 0"

definition owning :: "(monomorph \<times> sched_pc) multiset \<Rightarrow> (monomorph \<times> sched_pc) multiset" where
  "owning K = {#k \<in># K. holds_ref (snd k)#}"

lemma owning_simps [simp]:
  "owning {#} = {#}" "owning (add_mset (m, pc) K) = (if holds_ref pc then add_mset (m, pc) (owning K) else owning K)"
  "owning (K + L) = owning K + owning L"
  "owning (image_mset (Pair m) N) = image_mset (Pair m) {#pc \<in># N. holds_ref pc#}"
  by (simp_all add: owning_def) (induction N; simp)

lemma owning_diff: "owning (K - L) = owning K - owning L"
  by (simp add: owning_def)

type_synonym ('o, 'w) refs =
  "nat \<times> nat \<times> (monomorph \<times> ('o, 'w) poll_pc) multiset \<times> (monomorph \<times> sched_pc) multiset \<times>
     (ty \<times> ('o, 'w) join_pc) multiset"

definition refs :: "('f, 'o, 'w) world \<Rightarrow> addr \<Rightarrow> ('o, 'w) refs" where
  "refs w p = (count (all_tasks (executor w)) p, count (wakers w) p, at p (poll_calls w),
     owning (at p (sched_calls w)), at p (handles w))"

abbreviation no_refs :: "('o, 'w) refs" where
  "no_refs \<equiv> (0, 0, {#}, {#}, {#})"

definition sys_refs :: "(ty \<Rightarrow> ty) \<Rightarrow> monomorph \<Rightarrow> ('f, 'o, 'w) tsys \<Rightarrow> ('o, 'w) refs" where
  "sys_refs out_ty m s = (run_queue s, waker_refs s, image_mset (Pair m) (polls s),
     image_mset (Pair m) {#pc \<in># scheds s. holds_ref pc#},
     if join_refs (joiner s) = 0 then {#} else {#(out_ty (fut_ty m), joiner s)#})"

definition sim :: "(ty \<Rightarrow> ty) \<Rightarrow> ('f, 'o, 'w) world \<Rightarrow> addr \<Rightarrow> ('f, 'o, 'w) raw_task \<Rightarrow> ('f, 'o, 'w) tsys \<Rightarrow> bool" where
  "sim out_ty w p c s \<longleftrightarrow> header_vtable c = vtable (inst c) \<and> the_task s = raw c \<and> strong (raw c) \<noteq> 0 \<and>
     refs w p = sys_refs out_ty (inst c) s \<and> (drained s \<longrightarrow> shutdown (executor w))"

definition cell_ok :: "(ty \<Rightarrow> ty) \<Rightarrow> ('f, 'o, 'w) world \<Rightarrow> addr \<Rightarrow> bool" where
  "cell_ok out_ty w p = (case heap w p of
     None \<Rightarrow> refs w p = no_refs
   | Some c \<Rightarrow> \<exists>f s. task_reachable f s \<and> sim out_ty w p c s)"

definition world_inv :: "(ty \<Rightarrow> ty) \<Rightarrow> nat \<Rightarrow> ('f, 'o, 'w) world \<Rightarrow> bool" where
  "world_inv out_ty n w \<longleftrightarrow> locals_empty (executor w) \<and> length (workers (executor w)) = n \<and> (\<forall>p. cell_ok out_ty w p)"

lemma same_result: "\<exists>w'. r = Inr w' \<and> P w' \<Longrightarrow> r = Inr w \<Longrightarrow> P w"
  by auto

lemma refs_zero:
  assumes "task_reachable f s" and "strong (the_task s) = 0"
  shows "sys_refs out_ty m s = no_refs"
proof -
  have "inv_refs s" using task_reachable_inv [OF assms(1)] by (simp add: task_inv_def)
  moreover have "poll_refs pc \<noteq> 0" for pc :: "('b, 'c) poll_pc" by (cases pc) simp_all
  ultimately show ?thesis using assms(2) by (cases "polls s") (auto simp: inv_refs_def sys_refs_def)
qed

lemma refs_nonzero:
  assumes "task_reachable f s" and "strong (the_task s) \<noteq> 0"
  shows "sys_refs out_ty m s \<noteq> no_refs"
proof
  assume z: "sys_refs out_ty m s = no_refs"
  have "inv_refs s" using task_reachable_inv [OF assms(1)] by (simp add: task_inv_def)
  then show False using z assms(2) by (auto simp: inv_refs_def sys_refs_def split: if_splits)
qed

lemma strong_positive:
  assumes "task_reachable f s" and "run_queue s \<noteq> 0 \<or> waker_refs s \<noteq> 0 \<or> join_refs (joiner s) \<noteq> 0"
  shows "strong (the_task s) \<noteq> 0"
proof
  assume "strong (the_task s) = 0"
  from refs_zero [OF assms(1) this, of id "Monomorph 0 0"] assms(2) show False by (auto simp: sys_refs_def)
qed

lemma one_step: "task_step s s' \<Longrightarrow> task_step\<^sup>*\<^sup>* s s'"
  by (rule r_into_rtranclp)

lemma live_cell:
  assumes "world_inv out_ty n w" and "refs w p \<noteq> no_refs"
  obtains c f s where "heap w p = Some c" and "task_reachable f s" and "sim out_ty w p c s"
  using assms by (fastforce simp: world_inv_def cell_ok_def split: option.splits)

lemma cell_ok_other:
  assumes "cell_ok out_ty w q" and "refs w' q = refs w q" and "heap w' q = heap w q"
    and "shutdown (executor w) \<longrightarrow> shutdown (executor w')"
  shows "cell_ok out_ty w' q"
  using assms by (fastforce simp: cell_ok_def sim_def split: option.splits)

lemma cell_ok_step:
  assumes "task_reachable f s" and "sim out_ty w p c s" and "task_step\<^sup>*\<^sup>* s s'"
    and "heap w' p = (if strong (the_task s') = 0 then None else Some (c\<lparr>raw := the_task s'\<rparr>))"
    and "refs w' p = sys_refs out_ty (inst c) s'" and "drained s' \<longrightarrow> shutdown (executor w')"
  shows "cell_ok out_ty w' p"
proof -
  have r: "task_reachable f s'" by (rule reachable_steps [OF assms(3,1)])
  show ?thesis
  proof (cases "strong (the_task s') = 0")
    case True
    then show ?thesis using assms(4,5) refs_zero [OF r True] by (simp add: cell_ok_def)
  next
    case False
    then show ?thesis using assms(2,4-) r by (auto simp: cell_ok_def sim_def)
  qed
qed

lemma world_inv_step:
  assumes inv: "world_inv out_ty n w" and c: "task_reachable f s" "sim out_ty w p c s" and steps: "task_step\<^sup>*\<^sup>* s s'"
    and heap: "heap w' = (heap w)(p := if strong (the_task s') = 0 then None else Some (c\<lparr>raw := the_task s'\<rparr>))"
    and refs: "refs w' p = sys_refs out_ty (inst c) s'" "\<And>q. q \<noteq> p \<Longrightarrow> refs w' q = refs w q"
    and exec: "locals_empty (executor w')" "length (workers (executor w')) = n"
      "shutdown (executor w) \<longrightarrow> shutdown (executor w')" "drained s' \<longrightarrow> shutdown (executor w')"
  shows "world_inv out_ty n w'"
proof -
  have "cell_ok out_ty w' q" for q
  proof (cases "q = p")
    case True
    then show ?thesis using cell_ok_step [OF c steps _ refs(1) exec(4)] heap by simp
  next
    case False
    then show ?thesis
      using cell_ok_other [of out_ty w q w'] inv refs(2) [OF False] exec(3) heap by (simp add: world_inv_def)
  qed
  then show ?thesis using exec by (simp add: world_inv_def)
qed

lemma world_inv_step_same:
  assumes inv: "world_inv out_ty n w" and c: "heap w p = Some c" "task_reachable f s" "sim out_ty w p c s"
    and step: "task_step s s'" "the_task s' = the_task s" "drained s' = drained s" and heap: "heap w' = heap w"
    and refs: "refs w' p = sys_refs out_ty (inst c) s'" "\<And>q. q \<noteq> p \<Longrightarrow> refs w' q = refs w q"
    and exec: "locals_empty (executor w')" "length (workers (executor w')) = n"
      "shutdown (executor w) \<longrightarrow> shutdown (executor w')"
  shows "world_inv out_ty n w'"
proof (rule world_inv_step [OF inv c(2,3) one_step [OF step(1)] _ refs exec])
  show "heap w' = (heap w)(p := if strong (the_task s') = 0 then None else Some (c\<lparr>raw := the_task s'\<rparr>))"
    using c step(2) heap by (auto simp: sim_def)
  show "drained s' \<longrightarrow> shutdown (executor w')" using c(3) step(3) exec(3) by (simp add: sim_def)
qed

section \<open>Every operation works on a live allocation\<close>

text \<open>
  One lemma per operation: wherever the program can perform it, it does not fault, and the invariant
  holds afterwards.
\<close>

lemmas sim_simps = sim_def refs_def sys_refs_def

lemma call_live:
  assumes "heap w p = Some c" and "header_vtable c = vtable (inst c)"
  shows "call vt_poll p w = Inr (w\<lparr>poll_calls := add_mset (p, inst c, PLoad) (poll_calls w)\<rparr>)"
    "call vt_schedule p w = Inr (w\<lparr>sched_calls := add_mset (p, inst c, SNotify) (sched_calls w)\<rparr>)"
    "call vt_clone_ref p w = Inr (put_task p (clone_ref (raw c)) w)"
    "call vt_drop_ref p w = Inr (put_task p (drop_ref (raw c)) w)"
  using assms by (simp_all add: call_def header_def typed_def vtable_def)

lemma put_task_frame [simp]:
  "executor (put_task p t w) = executor w" "wakers (put_task p t w) = wakers w"
  "poll_calls (put_task p t w) = poll_calls w" "sched_calls (put_task p t w) = sched_calls w"
  "handles (put_task p t w) = handles w" "refs (put_task p t w) q = refs w q"
  by (simp_all add: put_task_def refs_def)

lemma heap_put_task:
  "heap w p = Some c \<Longrightarrow>
     heap (put_task p t w) = (heap w)(p := if strong t = 0 then None else Some (c\<lparr>raw := t\<rparr>))"
  by (simp add: put_task_def)

lemma simD:
  assumes "sim out_ty w p c s"
  shows "header_vtable c = vtable (inst c)" "the_task s = raw c" "strong (raw c) \<noteq> 0"
    "count (all_tasks (executor w)) p = run_queue s" "count (wakers w) p = waker_refs s"
    "at p (poll_calls w) = image_mset (Pair (inst c)) (polls s)"
    "owning (at p (sched_calls w)) = image_mset (Pair (inst c)) {#pc \<in># scheds s. holds_ref pc#}"
    "at p (handles w) = (if join_refs (joiner s) = 0 then {#} else {#(out_ty (fut_ty (inst c)), joiner s)#})"
    "drained s \<longrightarrow> shutdown (executor w)"
  using assms by (simp_all add: sim_simps)

lemma world_invD:
  assumes "world_inv out_ty n w"
  shows "locals_empty (executor w)" "length (workers (executor w)) = n"
  using assms by (simp_all add: world_inv_def)

lemma waker_live:
  assumes "world_inv out_ty n w" and "waker_at w p"
  obtains c f s where "heap w p = Some c" and "task_reachable f s" and "sim out_ty w p c s"
    and "waker_refs s > 0 \<or> PPoll \<in># polls s"
proof -
  have "refs w p \<noteq> no_refs" using assms(2) by (auto simp: refs_def dest!: at_member)
  then obtain c f s where c: "heap w p = Some c" "task_reachable f s" "sim out_ty w p c s"
    by (rule live_cell [OF assms(1)])
  have "waker_refs s > 0 \<or> PPoll \<in># polls s"
    using assms(2) simD(5,6) [OF c(3)] count_greater_zero_iff [of "wakers w" p] by (auto dest!: at_member)
  with c show thesis by (rule that)
qed

lemma world_clone_ok:
  assumes inv: "world_inv out_ty n w" and "waker_at w p"
  shows "\<exists>w'. world_clone p w = Inr w' \<and> world_inv out_ty n w'"
proof -
  obtain c f s where c: "heap w p = Some c" "task_reachable f s" "sim out_ty w p c s"
    and g: "waker_refs s > 0 \<or> PPoll \<in># polls s"
    by (rule waker_live [OF assms])
  note d = simD [OF c(3)]
  have "world_inv out_ty n ((put_task p (clone_ref (raw c)) w)\<lparr>wakers := add_mset p (wakers w)\<rparr>)"
    by (rule world_inv_step [OF inv c(2,3) one_step [OF task_step.waker_clone [OF g]]])
      (use d world_invD [OF inv] in \<open>simp_all add: heap_put_task [OF c(1)] refs_def sys_refs_def waker_defs\<close>)
  then show ?thesis using call_live [OF c(1) d(1)] by (simp add: world_clone_def)
qed

lemma world_wake_ok:
  assumes inv: "world_inv out_ty n w" and mem: "p \<in># wakers w"
  shows "\<exists>w'. world_wake p w = Inr w' \<and> world_inv out_ty n w'"
proof -
  obtain c f s where c: "heap w p = Some c" "task_reachable f s" "sim out_ty w p c s"
    by (rule waker_live [OF inv disjI1 [OF mem]])
  note d = simD [OF c(3)]
  obtain k where k: "waker_refs s = Suc k"
    using mem d(5) count_greater_zero_iff [of "wakers w" p] by (cases "waker_refs s") auto
  let ?w = "w\<lparr>wakers := wakers w - {#p#}\<rparr>"
  have "world_inv out_ty n (?w\<lparr>sched_calls := add_mset (p, inst c, SNotify) (sched_calls ?w)\<rparr>)"
    by (rule world_inv_step_same [OF inv c task_step.waker_wake [OF k, where t = "raw c" and pc = SNotify]])
      (use d k world_invD [OF inv] in \<open>simp_all add: refs_def sys_refs_def waker_defs\<close>)
  then show ?thesis using call_live [of ?w p c] c d(1) by (simp add: world_wake_def)
qed

lemma world_wake_by_ref_ok:
  assumes inv: "world_inv out_ty n w" and "waker_at w p"
  shows "\<exists>w'. world_wake_by_ref p w = Inr w' \<and> world_inv out_ty n w'"
proof -
  obtain c f s where c: "heap w p = Some c" "task_reachable f s" "sim out_ty w p c s"
    and g: "waker_refs s > 0 \<or> PPoll \<in># polls s"
    by (rule waker_live [OF assms])
  note d = simD [OF c(3)]
  let ?t = "clone_ref (raw c)" and ?c = "c\<lparr>raw := clone_ref (raw c)\<rparr>"
  let ?w = "put_task p ?t w"
  have "heap ?w p = Some ?c" by (simp add: heap_put_task [OF c(1)] clone_ref_def)
  then have "call vt_schedule p ?w = Inr (?w\<lparr>sched_calls := add_mset (p, inst c, SNotify) (sched_calls ?w)\<rparr>)"
    using call_live(2) [of ?w p ?c] d(1) by simp
  moreover have "world_inv out_ty n (?w\<lparr>sched_calls := add_mset (p, inst c, SNotify) (sched_calls ?w)\<rparr>)"
    by (rule world_inv_step [OF inv c(2,3) one_step [OF
        task_step.waker_wake_by_ref [OF g, where t = ?t and pc = SNotify]]])
      (use d world_invD [OF inv] in \<open>simp_all add: heap_put_task [OF c(1)] refs_def sys_refs_def waker_defs\<close>)
  ultimately show ?thesis using call_live(3) [OF c(1) d(1)] by (simp add: world_wake_by_ref_def)
qed

lemma world_drop_ok:
  assumes inv: "world_inv out_ty n w" and mem: "p \<in># wakers w"
  shows "\<exists>w'. world_drop p w = Inr w' \<and> world_inv out_ty n w'"
proof -
  obtain c f s where c: "heap w p = Some c" "task_reachable f s" "sim out_ty w p c s"
    by (rule waker_live [OF inv disjI1 [OF mem]])
  note d = simD [OF c(3)]
  obtain k where k: "waker_refs s = Suc k"
    using mem d(5) count_greater_zero_iff [of "wakers w" p] by (cases "waker_refs s") auto
  let ?w = "w\<lparr>wakers := wakers w - {#p#}\<rparr>"
  have "heap ?w p = Some c" using c(1) by simp
  note h = heap_put_task [OF this] call_live(4) [OF this d(1)]
  have "world_inv out_ty n (put_task p (drop_ref (raw c)) ?w)"
    by (rule world_inv_step [OF inv c(2,3) one_step [OF task_step.waker_drop [OF k]]])
      (use d k world_invD [OF inv] in \<open>simp_all add: h refs_def sys_refs_def waker_defs\<close>)
  then show ?thesis using h by (simp add: world_drop_def)
qed

text \<open>A reference that leaves a run queue without being polled.\<close>

lemma drop_queued_ok:
  assumes inv: "world_inv out_ty n w" and c: "heap w p = Some c" "task_reachable f s" "sim out_ty w p c s"
    and steps: "task_step\<^sup>*\<^sup>* s s1" and q: "run_queue s1 = Suc k"
    and w1: "heap w1 = (heap w)(p := Some (c\<lparr>raw := the_task s1\<rparr>))"
      "refs w1 p = sys_refs out_ty (inst c) (s1\<lparr>run_queue := k\<rparr>)" "\<And>q. q \<noteq> p \<Longrightarrow> refs w1 q = refs w q"
    and ex: "locals_empty (executor w1)" "length (workers (executor w1)) = n" "shutdown (executor w1)"
  shows "\<exists>w'. task_ref_drop p w1 = Inr w' \<and> world_inv out_ty n w'"
proof -
  note d = simD [OF c(3)]
  have h1: "heap w1 p = Some (c\<lparr>raw := the_task s1\<rparr>)" by (simp add: w1)
  have "world_inv out_ty n (put_task p (drop_ref (the_task s1)) w1)"
    by (rule world_inv_step [OF inv c(2,3) rtranclp.rtrancl_into_rtrancl [OF steps task_step.drain [OF q]]])
      (use w1 ex in \<open>simp_all add: heap_put_task [OF h1] sys_refs_def\<close>)
  then show ?thesis using call_live(4) [OF h1] d(1) by (simp add: task_ref_drop_def)
qed

subsection \<open>Calls in flight\<close>

lemma all_tasks_spawn [simp]: "all_tasks (fst (spawn sh p)) = add_mset p (all_tasks sh)"
  by (simp add: all_tasks_def local_tasks_def spawn_eq)

lemma world_inv_executor:
  assumes inv: "world_inv out_ty n w" and "all_tasks sh = all_tasks (executor w)" and "locals_empty sh"
    and "length (workers sh) = n" and "shutdown (executor w) \<longrightarrow> shutdown sh"
  shows "world_inv out_ty n (w\<lparr>executor := sh\<rparr>)"
proof -
  have "cell_ok out_ty (w\<lparr>executor := sh\<rparr>) q" for q
    by (rule cell_ok_other [of _ w]) (use assms in \<open>simp_all add: world_inv_def refs_def\<close>)
  then show ?thesis using assms(3,4) by (simp add: world_inv_def)
qed

lemma all_tasks_push [simp]: "all_tasks (push_global sh p) = add_mset p (all_tasks sh)"
  by (simp add: all_tasks_def local_tasks_def push_global_def)

lemma push_global_frame [simp]:
  "workers (push_global sh p) = workers sh" "shutdown (push_global sh p) = shutdown sh"
  "injector (push_global sh p) = injector sh @ [p]"
  by (simp_all add: push_global_def)

lemma unpark_one_frame [simp]:
  "workers (fst (unpark_one sh)) = workers sh" "shutdown (fst (unpark_one sh)) = shutdown sh"
  "injector (fst (unpark_one sh)) = injector sh" "all_tasks (fst (unpark_one sh)) = all_tasks sh"
  "locals_empty (fst (unpark_one sh)) = locals_empty sh"
  by (simp_all add: unpark_one_def Let_def all_tasks_def local_tasks_def locals_empty_def)

text \<open>What \<open>Spawner::schedule\<close> does after the push keeps the invariant.\<close>

lemma schedule_rings_ok:
  assumes "world_inv out_ty n w" and "e \<noteq> Enqueue"
  shows "\<exists>w'. spawner_schedule seen e p w = Inr w' \<and> world_inv out_ty n w'"
proof (cases e)
  case UnparkOne
  have "world_inv out_ty n (w\<lparr>executor := fst (unpark_one (executor w))\<rparr>)"
    by (rule world_inv_executor [OF assms(1)]) (use world_invD [OF assms(1)] in simp_all)
  then show ?thesis using UnparkOne by simp
qed (use assms in simp_all)

lemma refs_executor:
  "refs (w\<lparr>executor := sh\<rparr>) q = (count (all_tasks sh) q, snd (refs w q))"
  by (simp add: refs_def)

lemma apply_effect_frame [simp]:
  "the_task (apply_effect e s) = the_task s" "waker_refs (apply_effect e s) = waker_refs s"
  "polls (apply_effect e s) = polls s" "scheds (apply_effect e s) = scheds s" "joiner (apply_effect e s) = joiner s"
  "drained (apply_effect e s) = drained s"
  "run_queue (apply_effect e s) = run_queue s + (if e = Enqueue then 1 else 0)"
  by (simp_all add: apply_effect_def split: task_effect.splits)

lemma effect_ok:
  assumes inv: "world_inv out_ty n w" and c: "heap w p = Some c" "task_reachable f s" "sim out_ty w p c s"
    and step: "task_step s (apply_effect e s1)" and s1: "run_queue s1 = run_queue s" "drained s1 = drained s"
    and w1: "heap w1 = (heap w)(p := if strong (the_task s1) = 0 then None else Some (c\<lparr>raw := the_task s1\<rparr>))"
      "executor w1 = executor w" "refs w1 p = sys_refs out_ty (inst c) s1" "\<And>q. q \<noteq> p \<Longrightarrow> refs w1 q = refs w q"
    and flag: "seen \<longrightarrow> shutdown (executor w)"
  shows "\<exists>w'. spawner_schedule seen e p w1 = Inr w' \<and> world_inv out_ty n w'"
proof (cases "e = Enqueue")
  case False
  have "world_inv out_ty n w1"
    by (rule world_inv_step [OF inv c(2,3) one_step [OF step]])
      (use False s1 w1 simD(9) [OF c(3)] world_invD [OF inv] in \<open>simp_all add: sys_refs_def\<close>)
  then show ?thesis using False by (rule schedule_rings_ok)
next
  case True
  have pos: "strong (the_task s1) \<noteq> 0"
    using strong_positive [OF task_reachable.step [OF c(2) step]] True by simp
  show ?thesis
  proof (cases seen)
    case seen: True
    have "\<exists>w'. task_ref_drop p w1 = Inr w' \<and> world_inv out_ty n w'"
      by (rule drop_queued_ok [OF inv c one_step [OF step], of "run_queue s1"])
        (use True pos w1 seen flag world_invD [OF inv] in \<open>simp_all add: sys_refs_def\<close>)
    then show ?thesis using True seen by simp
  next
    case False
    let ?w = "w1\<lparr>executor := push_global (executor w1) p\<rparr>"
    have "refs ?w p = sys_refs out_ty (inst c) (apply_effect e s1)" "\<And>q. q \<noteq> p \<Longrightarrow> refs ?w q = refs w q"
      using True w1(3,4) by (simp_all add: refs_executor) (simp_all add: refs_def sys_refs_def)
    then have "world_inv out_ty n ?w"
      by (intro world_inv_step [OF inv c(2,3) one_step [OF step]])
        (use pos s1 w1(1,2) simD(9) [OF c(3)] world_invD [OF inv] in \<open>simp_all add: locals_empty_def\<close>)
    then show ?thesis using True False by simp
  qed
qed

lemma poll_call_live:
  assumes "world_inv out_ty n w" and mem: "(p, m, pc) \<in># poll_calls w"
  obtains c f s where "heap w p = Some c" and "task_reachable f s" and "sim out_ty w p c s"
    and "inst c = m" and "pc \<in># polls s"
proof -
  have "refs w p \<noteq> no_refs" using at_member [OF mem] by (auto simp: refs_def)
  then obtain c f s where c: "heap w p = Some c" "task_reachable f s" "sim out_ty w p c s"
    by (rule live_cell [OF assms(1)])
  moreover have "inst c = m" "pc \<in># polls s" using at_member [OF mem] simD(6) [OF c(3)] by auto
  ultimately show thesis by (rule that)
qed

lemma sched_call_live:
  assumes "world_inv out_ty n w" and mem: "(p, m, pc) \<in># sched_calls w" and "holds_ref pc"
  obtains c f s where "heap w p = Some c" and "task_reachable f s" and "sim out_ty w p c s"
    and "inst c = m" and "pc \<in># scheds s"
proof -
  have k: "(m, pc) \<in># owning (at p (sched_calls w))" using at_member [OF mem] assms(3) by (simp add: owning_def)
  then have "refs w p \<noteq> no_refs" by (auto simp: refs_def)
  then obtain c f s where c: "heap w p = Some c" "task_reachable f s" "sim out_ty w p c s"
    by (rule live_cell [OF assms(1)])
  moreover have "inst c = m" "pc \<in># scheds s" using k simD(7) [OF c(3)] by auto
  ultimately show thesis by (rule that)
qed

lemma poll_call_ok:
  assumes inv: "world_inv out_ty n w" and mem: "(p, m, pc) \<in># poll_calls w"
    and flag: "seen \<longrightarrow> shutdown (executor w)"
  shows "\<exists>w'. poll_call spurious seen fut (p, m, pc) w = Inr w' \<and> world_inv out_ty n w'"
proof -
  obtain c f s where c: "heap w p = Some c" "task_reachable f s" "sim out_ty w p c s"
    and m: "inst c = m" and pc: "pc \<in># polls s"
    by (rule poll_call_live [OF inv mem])
  note d = simD [OF c(3)]
  obtain M where M: "polls s = add_mset pc M" using pc by (auto dest: multi_member_split)
  obtain t "next" e where st: "poll_step spurious seen fut (raw c) pc = Inr (t, next, e)"
    using poll_progress [OF c(2) pc, of spurious seen fut] d(2) by auto
  let ?w = "put_task p t (w\<lparr>poll_calls := poll_calls w - {#(p, m, pc)#} +
    image_mset (\<lambda>pc'. (p, m, pc')) (next_calls next)\<rparr>)"
  have "\<exists>w'. spawner_schedule seen e p ?w = Inr w' \<and> world_inv out_ty n w'"
    by (rule effect_ok [OF inv c task_step.poll [OF M st [folded d(2)]] _ _ _ _ _ _ flag])
      (use c(1) d M m in \<open>simp_all add: put_task_def refs_def sys_refs_def at_remove [OF mem]\<close>)
  then show ?thesis using c(1) m st by (simp add: poll_call_def typed_def header_def Let_def)
qed

lemma sched_call_ok:
  assumes inv: "world_inv out_ty n w" and mem: "(p, m, pc) \<in># sched_calls w" and own: "holds_ref pc"
    and flag: "seen \<longrightarrow> shutdown (executor w)"
  shows "\<exists>w'. sched_call seen (p, m, pc) w = Inr w' \<and> world_inv out_ty n w'"
proof -
  obtain c f s where c: "heap w p = Some c" "task_reachable f s" "sim out_ty w p c s"
    and m: "inst c = m" and pc: "pc \<in># scheds s"
    by (rule sched_call_live [OF inv mem own])
  note d = simD [OF c(3)]
  obtain M where M: "scheds s = add_mset pc M" using pc by (auto dest: multi_member_split)
  obtain t "next" e where st: "sched_step seen (raw c) pc = (t, next, e)" by (cases "sched_step seen (raw c) pc")
  let ?w = "put_task p t (w\<lparr>sched_calls := sched_calls w - {#(p, m, pc)#} +
    image_mset (\<lambda>pc'. (p, m, pc')) (next_calls next)\<rparr>)"
  have "\<exists>w'. spawner_schedule seen e p ?w = Inr w' \<and> world_inv out_ty n w'"
    by (rule effect_ok [OF inv c task_step.sched [OF M st [folded d(2)]] _ _ _ _ _ _ flag])
      (use c(1) d M m own in \<open>simp_all add: put_task_def refs_def sys_refs_def at_remove [OF mem] owning_diff\<close>)
  then show ?thesis using c(1) m st by (simp add: sched_call_def typed_def header_def Let_def)
qed

text \<open>
  A call past its push only reads: where its allocation is still there it changes nothing but the unpark counter.
\<close>

lemma sched_call_past_push:
  assumes inv: "world_inv out_ty n w" and mem: "(p, m, pc) \<in># sched_calls w" and own: "\<not> holds_ref pc"
    and c: "heap w p = Some c" "inst c = m"
  shows "\<exists>w'. sched_call seen (p, m, pc) w = Inr w' \<and> world_inv out_ty n w'"
proof -
  have "cell_ok out_ty w p" using inv by (simp add: world_inv_def)
  then obtain f s where s: "sim out_ty w p c s" using c(1) by (auto simp: cell_ok_def)
  obtain "next" e where st: "sched_step seen (raw c) pc = (raw c, next, e)" "e \<noteq> Enqueue"
    and no: "\<forall>pc' \<in># next_calls next. \<not> holds_ref pc'"
    using own by (cases pc) auto
  let ?K = "sched_calls w - {#(p, m, pc)#} + image_mset (\<lambda>pc'. (p, m, pc')) (next_calls next)"
  have "put_task p (raw c) (w\<lparr>sched_calls := ?K\<rparr>) = w\<lparr>sched_calls := ?K\<rparr>"
    using c(1) simD(3) [OF s] by (simp add: put_task_def fun_upd_idem)
  moreover have "refs (w\<lparr>sched_calls := ?K\<rparr>) q = refs w q" for q
    using own no mem by (cases "next"; cases "q = p") (simp_all add: refs_def at_remove owning_diff)
  then have "world_inv out_ty n (w\<lparr>sched_calls := ?K\<rparr>)"
    using inv cell_ok_other [of out_ty w _ "w\<lparr>sched_calls := ?K\<rparr>"] by (simp add: world_inv_def)
  ultimately show ?thesis
    using schedule_rings_ok [OF _ st(2), of out_ty n "w\<lparr>sched_calls := ?K\<rparr>" seen p] c st(1)
    by (simp add: sched_call_def typed_def header_def Let_def)
qed

lemma sched_call_inv:
  assumes inv: "world_inv out_ty n w" and mem: "(p, m, pc) \<in># sched_calls w" and flag: "seen \<longrightarrow> shutdown (executor w)"
    and "sched_call seen (p, m, pc) w = Inr w'"
  shows "world_inv out_ty n w'"
proof (cases "holds_ref pc")
  case True
  then show ?thesis using sched_call_ok [OF inv mem True flag] assms(4) by auto
next
  case False
  obtain c where c: "heap w p = Some c" "inst c = m"
    using assms(4) by (auto simp: sched_call_def typed_def header_def split: option.splits if_splits)
  show ?thesis by (rule same_result [OF sched_call_past_push [OF inv mem False c] assms(4)])
qed

subsection \<open>Join handles\<close>

lemma handle_live:
  assumes "world_inv out_ty n w" and mem: "(p, T, pc) \<in># handles w"
  obtains c f s where "heap w p = Some c" and "task_reachable f s" and "sim out_ty w p c s"
    and "T = out_ty (fut_ty (inst c))" and "joiner s = pc" and "join_refs pc \<noteq> 0"
proof -
  have "refs w p \<noteq> no_refs" using at_member [OF mem] by (auto simp: refs_def)
  then obtain c f s where c: "heap w p = Some c" "task_reachable f s" "sim out_ty w p c s"
    by (rule live_cell [OF assms(1)])
  moreover have "T = out_ty (fut_ty (inst c))" "joiner s = pc" "join_refs pc \<noteq> 0"
    using at_member [OF mem] simD(8) [OF c(3)] by (auto split: if_splits)
  ultimately show thesis by (rule that)
qed

abbreviation listed :: "('o, 'w) join_pc \<Rightarrow> ('o, 'w) join_pc option" where
  "listed pc \<equiv> (if join_refs pc = 0 then None else Some pc)"

lemma set_handle_frame [simp]:
  "heap (set_handle k next w) = heap w" "executor (set_handle k next w) = executor w"
  by (simp_all add: set_handle_def split: prod.splits)

lemma put_task_set_handle: "set_handle k next (put_task p t w) = put_task p t (set_handle k next w)"
  by (simp add: set_handle_def put_task_def split: prod.splits)

lemma refs_set_handle_other:
  "(p, T, pc) \<in># handles w \<Longrightarrow> q \<noteq> p \<Longrightarrow> refs (set_handle (p, T, pc) next w) q = refs w q"
  by (simp add: refs_def set_handle_def at_remove)

lemma refs_set_handle:
  assumes mem: "(p, T, pc) \<in># handles w" and "sim out_ty w p c s"
    and s': "run_queue s' = run_queue s" "waker_refs s' = waker_refs s" "polls s' = polls s" "scheds s' = scheds s"
      "joiner s' = pc'"
    and T: "T = out_ty (fut_ty (inst c))" "joiner s = pc" "join_refs pc \<noteq> 0"
  shows "refs (set_handle (p, T, pc) (listed pc') w) p = sys_refs out_ty (inst c) s'"
proof -
  note d = simD [OF assms(2)]
  have "at p (handles w - {#(p, T, pc)#}) = {#}" using at_remove [OF mem, of p] d(8) T by simp
  then show ?thesis using d s' T(1) by (simp add: refs_def sys_refs_def set_handle_def)
qed

lemma handle_step_ok:
  assumes inv: "world_inv out_ty n w" and mem: "(p, T, pc) \<in># handles w"
    and c: "heap w p = Some c" "task_reachable f s" "sim out_ty w p c s"
    and T: "T = out_ty (fut_ty (inst c))" "joiner s = pc" "join_refs pc \<noteq> 0"
    and st: "\<not> join_at_rest pc" "join_step (raw c) pc = Inr (t, pc')"
  shows "world_inv out_ty n (put_task p t (set_handle (p, T, pc) (listed pc') w))"
proof -
  note d = simD [OF c(3)]
  have step: "join_step (the_task s) (joiner s) = Inr (t, pc')" "\<not> join_at_rest (joiner s)"
    using st T d by simp_all
  have "heap (set_handle (p, T, pc) (listed pc') w) p = Some c" using c(1) by simp
  note h = heap_put_task [OF this]
  show ?thesis
  proof (rule world_inv_step [OF inv c(2,3) one_step [OF task_step.join [OF step(2,1)]]], goal_cases)
    case 2
    show ?case unfolding put_task_frame by (rule refs_set_handle [OF mem c(3) _ _ _ _ _ T]) simp_all
  next
    case (3 q)
    then show ?case by (simp only: put_task_frame refs_set_handle_other [OF mem] simp_thms)
  qed (use d(9) world_invD [OF inv] in \<open>simp_all add: h\<close>)
qed

lemma handle_call_ok:
  assumes inv: "world_inv out_ty n w" and mem: "(p, T, pc) \<in># handles w" and rest: "\<not> join_at_rest pc"
  shows "\<exists>w'. handle_call out_ty (p, T, pc) w = Inr w' \<and> world_inv out_ty n w'"
proof -
  obtain c f s where c: "heap w p = Some c" "task_reachable f s" "sim out_ty w p c s"
    and T: "T = out_ty (fut_ty (inst c))" "joiner s = pc" "join_refs pc \<noteq> 0"
    by (rule handle_live [OF inv mem])
  note d = simD [OF c(3)]
  note ok = handle_step_ok [OF inv mem c T rest]
  have c': "heap (set_handle (p, T, pc) next w) p = Some c" for "next" using c(1) by simp
  note ref_drop = call_live(4) [OF c' d(1)]
  show ?thesis
  proof (cases pc)
    case JTake
    then obtain out where o: "try_take_output (raw c) = ((raw c)\<lparr>stage := StageEmpty\<rparr>, Some out)"
      using join_take_progress [OF c(2)] T(2) d(2) by metis
    then have "join_step (raw c) pc = Inr ((raw c)\<lparr>stage := StageEmpty\<rparr>, JReleaseTaken out)"
      using JTake by simp
    from ok [OF this] show ?thesis
      using JTake o c(1) d(1) T(1)
      by (simp add: take_output_def header_def typed_def vtable_def put_task_set_handle)
  next
    case JDropInterest
    then have "join_step (raw c) pc = Inr (fst (clear_join_interest (raw c)),
        if snd (clear_join_interest (raw c)) then JDropOutput else JReleaseDropped)"
      by (simp add: case_prod_beta)
    from ok [OF this] show ?thesis
      using JDropInterest c(1) d(1)
      by (simp add: drop_join_interest_def header_def typed_def vtable_def put_task_set_handle case_prod_beta
          split: if_splits)
  next
    case (JReleaseTaken out)
    then have "join_step (raw c) pc = Inr (drop_ref (raw c), JTaken)" by simp
    from ok [OF this] show ?thesis using JReleaseTaken ref_drop by (simp add: task_ref_drop_def)
  next
    case JReleaseDropped
    then have "join_step (raw c) pc = Inr (drop_ref (raw c), JGone)" by simp
    from ok [OF this] show ?thesis using JReleaseDropped ref_drop by (simp add: task_ref_drop_def)
  qed (use rest c(1) ok in \<open>simp_all add: header_def put_task_set_handle split: if_splits\<close>)
qed

lemma handle_entry_ok:
  assumes inv: "world_inv out_ty n w" and mem: "(p, T, pc) \<in># handles w"
    and call: "join_poll x pc = Some (Inr pc') \<or> join_drop pc = Some pc'"
  shows "world_inv out_ty n (set_handle (p, T, pc) (Some pc') w)"
proof -
  obtain c f s where c: "heap w p = Some c" "task_reachable f s" "sim out_ty w p c s"
    and T: "T = out_ty (fut_ty (inst c))" "joiner s = pc" "join_refs pc \<noteq> 0"
    by (rule handle_live [OF inv mem])
  note d = simD [OF c(3)]
  have step: "task_step s (s\<lparr>joiner := pc'\<rparr>)"
    using call T(2) task_step.join_begin [of x s pc'] task_step.join_drop [of s pc'] by auto
  have "join_refs pc' = join_refs pc" using call join_poll_refs join_drop_refs by metis
  then have pc': "listed pc' = Some pc'" using T(3) by simp
  have "world_inv out_ty n (set_handle (p, T, pc) (listed pc') w)"
    by (rule world_inv_step_same [OF inv c step _ _ _ refs_set_handle [OF mem c(3) _ _ _ _ _ T] refs_set_handle_other [OF mem]])
      (use world_invD [OF inv] in simp_all)
  then show ?thesis by (simp only: pc')
qed

subsection \<open>The executor\<close>

lemma all_tasks_injector: "locals_empty sh \<Longrightarrow> all_tasks sh = mset (injector sh)"
  using local_tasks_empty [of sh] by (simp add: all_tasks_def locals_empty_def)

lemma worker_turn_queues:
  assumes "locals_empty sh" and "i < length (workers sh)" and "worker_turn sh i rs = Inr (sh', rs', u)"
  shows "locals_empty sh'" "workers sh' = workers sh" "shutdown sh' = shutdown sh"
    "all_tasks sh = all_tasks sh' + turn_task u"
proof -
  note turn = worker_turn_locals_empty [OF assms(1,2), of rs]
  have "shutdown sh' = shutdown sh \<and> workers sh' = workers sh \<and> mset (injector sh) = mset (injector sh') + turn_task u"
  proof (cases "shutdown sh")
    case True
    then show ?thesis using assms(3) by (auto simp: worker_turn_def)
  next
    case False
    then show ?thesis using turn assms(3) by (auto split: list.splits)
  qed
  then show "locals_empty sh'" "workers sh' = workers sh" "shutdown sh' = shutdown sh"
    "all_tasks sh = all_tasks sh' + turn_task u"
    using assms(1) by (simp_all add: locals_empty_def all_tasks_def local_tasks_def)
qed

lemma worker_enter_queues:
  assumes "locals_empty sh" and "worker_enter sh i = Inr sh'"
  shows "locals_empty sh'" "length (workers sh') = length (workers sh)" "shutdown sh' = shutdown sh"
    "all_tasks sh' = all_tasks sh"
proof -
  show l: "locals_empty sh'" "length (workers sh') = length (workers sh)" "shutdown sh' = shutdown sh"
    using assms by (auto simp: worker_enter_def locals_empty_def all_set_conv_all_nth nth_list_update split: if_splits)
  have "injector sh' = injector sh" using assms(2) by (auto simp: worker_enter_def split: if_splits)
  then show "all_tasks sh' = all_tasks sh" using l(1) assms(1) by (simp add: all_tasks_injector)
qed

text \<open>The address a queue holds, with the entry taken out of the queue.\<close>

lemma queued_live:
  assumes inv: "world_inv out_ty n w" and q: "all_tasks (executor w) = add_mset p (all_tasks sh)"
    and sh: "locals_empty sh" "length (workers sh) = n" "shutdown sh = shutdown (executor w)"
  obtains c f s k where "heap w p = Some c" and "task_reachable f s" and "sim out_ty w p c s" and "run_queue s = Suc k"
    and "refs (w\<lparr>executor := sh\<rparr>) p = sys_refs out_ty (inst c) (s\<lparr>run_queue := k\<rparr>)"
    and "\<And>q. q \<noteq> p \<Longrightarrow> refs (w\<lparr>executor := sh\<rparr>) q = refs w q"
proof -
  have "refs w p \<noteq> no_refs" using q by (simp add: refs_def)
  then obtain c f s where c: "heap w p = Some c" "task_reachable f s" "sim out_ty w p c s"
    by (rule live_cell [OF inv])
  note d = simD [OF c(3)]
  have k: "run_queue s = Suc (count (all_tasks sh) p)" using d(4) q by simp
  show thesis
    by (rule that [OF c k]) (use d q in \<open>simp_all add: refs_def sys_refs_def\<close>)
qed

lemma task_ref_poll_ok:
  assumes inv: "world_inv out_ty n w" and q: "all_tasks (executor w) = add_mset p (all_tasks sh)"
    and sh: "locals_empty sh" "length (workers sh) = n" "shutdown sh = shutdown (executor w)"
  shows "\<exists>w'. task_ref_poll p (w\<lparr>executor := sh\<rparr>) = Inr w' \<and> world_inv out_ty n w'"
proof -
  obtain c f s k where c: "heap w p = Some c" "task_reachable f s" "sim out_ty w p c s" "run_queue s = Suc k"
    and r: "refs (w\<lparr>executor := sh\<rparr>) p = sys_refs out_ty (inst c) (s\<lparr>run_queue := k\<rparr>)"
      "\<And>q. q \<noteq> p \<Longrightarrow> refs (w\<lparr>executor := sh\<rparr>) q = refs w q"
    by (rule queued_live [OF assms]) blast
  note d = simD [OF c(3)]
  let ?w = "w\<lparr>executor := sh\<rparr>"
  have "world_inv out_ty n (?w\<lparr>poll_calls := add_mset (p, inst c, PLoad) (poll_calls ?w)\<rparr>)"
    by (rule world_inv_step_same [OF inv c(1-3) task_step.pop [OF c(4)]])
      (use r sh in \<open>simp_all add: refs_def sys_refs_def\<close>)
  then show ?thesis using call_live(1) [of ?w p c] c(1) d(1) by (simp add: task_ref_poll_def)
qed

lemma clear_head_ok:
  assumes inv: "world_inv out_ty n w" and "shutdown (executor w)"
  shows "\<exists>w'. clear_head w = Inr w' \<and> world_inv out_ty n w'"
proof (cases "injector (executor w)")
  case Nil
  then show ?thesis using inv by (simp add: clear_head_def)
next
  case (Cons p ts)
  let ?sh = "(executor w)\<lparr>injector := ts\<rparr>"
  have q: "all_tasks (executor w) = add_mset p (all_tasks ?sh)" "locals_empty ?sh" "length (workers ?sh) = n"
    using Cons world_invD [OF inv] by (simp_all add: all_tasks_def local_tasks_def locals_empty_def)
  then obtain c f s k where c: "heap w p = Some c" "task_reachable f s" "sim out_ty w p c s" and k: "run_queue s = Suc k"
    and r: "refs (w\<lparr>executor := ?sh\<rparr>) p = sys_refs out_ty (inst c) (s\<lparr>run_queue := k\<rparr>)"
      "\<And>q. q \<noteq> p \<Longrightarrow> refs (w\<lparr>executor := ?sh\<rparr>) q = refs w q"
    by (rule queued_live [OF inv]) (simp, blast)
  have "\<exists>w'. task_ref_drop p (w\<lparr>executor := ?sh\<rparr>) = Inr w' \<and> world_inv out_ty n w'"
    by (rule drop_queued_ok [OF inv c rtranclp.rtrancl_refl k])
      (use r c(1) simD(2,3) [OF c(3)] q(2,3) assms(2) in \<open>auto simp: fun_upd_idem\<close>)
  then show ?thesis using Cons by (simp add: clear_head_def)
qed

lemma spawner_spawn_ok:
  assumes inv: "world_inv out_ty n w" and p: "heap w p = None"
  shows "world_inv out_ty n (spawner_spawn out_ty m f p w)" (is "world_inv out_ty n ?w")
proof -
  have "cell_ok out_ty w p" using inv by (simp add: world_inv_def)
  then have none: "refs w p = no_refs" using p by (simp add: cell_ok_def)
  have "cell_ok out_ty ?w q" for q
  proof (cases "q = p")
    case True
    have "sim out_ty ?w p \<lparr>inst = m, header_vtable = vtable m, raw = spawn_raw f\<rparr> (task_system f)"
      using none by (simp add: sim_simps spawner_spawn_def join_handle_new_def task_system_def spawn_raw_def)
    then show ?thesis using True task_reachable.start [of f] by (auto simp: cell_ok_def spawner_spawn_def join_handle_new_def)
  next
    case False
    show ?thesis
    proof (rule cell_ok_other [of _ w])
      show "cell_ok out_ty w q" using inv by (simp add: world_inv_def)
      show "refs ?w q = refs w q" "heap ?w q = heap w q" "shutdown (executor w) \<longrightarrow> shutdown (executor ?w)"
        using False by (simp_all add: spawner_spawn_def join_handle_new_def refs_def spawn_eq(3))
    qed
  qed
  then show ?thesis using world_invD [OF inv] by (simp add: world_inv_def spawner_spawn_def join_handle_new_def spawn_eq locals_empty_def)
qed

section \<open>The invariant holds\<close>

lemma world_step_inv:
  assumes "world_step out_ty fut w w'" and inv: "world_inv out_ty n w"
  shows "world_inv out_ty n w'"
  using assms(1)
proof cases
  case (w_spawn p m f)
  then show ?thesis using spawner_spawn_ok [OF inv] by simp
next
  case (w_enter i sh)
  show ?thesis unfolding w_enter(1)
    by (rule world_inv_executor [OF inv])
      (use worker_enter_queues [OF world_invD(1) [OF inv] w_enter(2)] world_invD [OF inv] in simp_all)
next
  case (w_poll_task i rs sh rs' p)
  note t = worker_turn_queues [OF world_invD(1) [OF inv] w_poll_task(1,2)]
  show ?thesis
    by (rule same_result [OF task_ref_poll_ok [OF inv] w_poll_task(3)]) (use t world_invD [OF inv] in simp_all)
next
  case (w_no_task i rs sh rs' u)
  note t = worker_turn_queues [OF world_invD(1) [OF inv] w_no_task(2,3)]
  show ?thesis unfolding w_no_task(1)
    by (rule world_inv_executor [OF inv]) (use t w_no_task(4) world_invD [OF inv] in auto)
next
  case (w_driver a b)
  show ?thesis unfolding w_driver
    by (rule world_inv_executor [OF inv])
      (use world_invD [OF inv] in \<open>simp_all add: all_tasks_def local_tasks_def locals_empty_def\<close>)
next
  case w_shutdown
  show ?thesis unfolding w_shutdown
    by (rule world_inv_executor [OF inv])
      (use world_invD [OF inv] in \<open>simp_all add: all_tasks_def local_tasks_def locals_empty_def\<close>)
next
  case w_clear
  then show ?thesis using same_result [OF clear_head_ok [OF inv]] by blast
next
  case (w_poll k seen spurious env)
  obtain p m pc where k: "k = (p, m, pc)" by (cases k)
  show ?thesis by (rule same_result [OF poll_call_ok [OF inv] w_poll(3) [unfolded k]]) (use w_poll k in simp_all)
next
  case (w_sched k seen)
  obtain p m pc where k: "k = (p, m, pc)" by (cases k)
  show ?thesis by (rule sched_call_inv [OF inv _ _ w_sched(3) [unfolded k]]) (use w_sched k in simp_all)
next
  case (w_clone p)
  then show ?thesis using same_result [OF world_clone_ok [OF inv]] by blast
next
  case (w_wake p)
  then show ?thesis using same_result [OF world_wake_ok [OF inv]] by blast
next
  case (w_wake_by_ref p)
  then show ?thesis using same_result [OF world_wake_by_ref_ok [OF inv]] by blast
next
  case (w_drop p)
  then show ?thesis using same_result [OF world_drop_ok [OF inv]] by blast
next
  case (w_join_begin p T pc x pc')
  then show ?thesis using handle_entry_ok [OF inv] by blast
next
  case (w_join_drop p T pc pc')
  then show ?thesis using handle_entry_ok [OF inv] by blast
next
  case (w_join p T pc)
  then show ?thesis using same_result [OF handle_call_ok [OF inv]] by blast
qed

lemma world_reachable_inv: "world_reachable out_ty fut n w \<Longrightarrow> world_inv out_ty n w"
proof (induction rule: world_reachable.induct)
  case (world_start sh)
  have l: "locals_empty sh" "length (workers sh) = n" using exec_reachable_locals [OF exec_new [OF world_start]] by simp_all
  have "injector sh = []" using world_start by (auto simp: shared_new_def split: if_splits)
  then show ?case using l by (simp add: world_inv_def cell_ok_def world_new_def refs_def all_tasks_injector)
qed (auto intro: world_step_inv)

end
