(* ===== verification/Wakes.thy ===== *)
theory Wakes
  imports World
begin

text \<open>
  Wakes from start to end. A wake consumes the waker's reference in a call of \<open>schedule_fn\<close>, which marks
  the task as notified and either queues it or drops the reference. Here the steps of one such call are run
  in sequence, for one waker and for the list of wakers that a reactor or a timer driver hands out, and the
  effect on heap, wakers and injector is given exactly. Wakes that interleave are steps of the program.
\<close>

unbundle bit_operations_syntax

section \<open>One wake\<close>

abbreviation idle_state :: "u64 \<Rightarrow> bool" where
  "idle_state s \<equiv> s AND (RUNNING OR NOTIFIED OR COMPLETE) = 0"

definition idle_task :: "('f, 'o, 'w) world \<Rightarrow> addr \<Rightarrow> bool" where
  "idle_task w p = (case heap w p of None \<Rightarrow> False | Some c \<Rightarrow> idle_state (state (raw c)))"

text \<open>What a wake leaves of the allocation it is for.\<close>

definition woken_cell :: "('f, 'o, 'w) raw_task \<Rightarrow> ('f, 'o, 'w) raw_task option" where
  "woken_cell c = (let t = (raw c)\<lparr>state := state (raw c) OR NOTIFIED\<rparr> in
     if idle_state (state (raw c)) then Some (c\<lparr>raw := t\<rparr>)
     else if strong t = 1 then None else Some (c\<lparr>raw := t\<lparr>strong := strong t - 1\<rparr>\<rparr>))"

text \<open>\<open>schedule_fn\<close> from a program counter to its end.\<close>

fun sched_left :: "sched_pc \<Rightarrow> nat" where
  "sched_left SNotify = 3"
| "sched_left SPush = 2"
| "sched_left SWakeDriver = 1"
| "sched_left _ = 0"

function sched_run ::
  "bool \<Rightarrow> addr \<Rightarrow> monomorph \<Rightarrow> sched_pc \<Rightarrow> ('f, 'o, 'w) world \<Rightarrow> ('f, 'o, 'w) world checked" where
  "sched_run seen p m pc w =
     fbind (typed m w p) (\<lambda>c. fbind (sched_call seen (p, m, pc) w) (\<lambda>w'.
       case fst (snd (sched_step seen (raw c) pc)) of None \<Rightarrow> Inr w' | Some pc' \<Rightarrow> sched_run seen p m pc' w'))"
  by pat_completeness auto
termination
proof (relation "measure (\<lambda>(seen, p, m, pc, w). sched_left pc)", goal_cases)
  case (2 seen p m pc w c w' pc')
  then show ?case by (cases pc) (auto simp: Let_def split: if_splits)
qed simp

declare sched_run.simps [simp del]

text \<open>\<open>Waker::wake\<close>: the vtable entry of the erased waker and the call it starts.\<close>

definition wake_run :: "addr \<Rightarrow> ('f, 'o, 'w) world \<Rightarrow> ('f, 'o, 'w) world checked" where
  "wake_run p w =
     fbind (header w p) (\<lambda>c. fbind (world_wake p w)
       (\<lambda>w'. sched_run (shutdown (executor w)) p (inst c) SNotify w'))"

lemma notified_not_idle: "\<not> idle_state (s OR NOTIFIED)"
  by (simp add: state_bits)

lemma sched_run_reachable:
  assumes "sched_run seen p m pc w = Inr w'" and "world_reachable out_ty fut n w" and "(p, m, pc) \<in># sched_calls w"
    and "seen \<longrightarrow> shutdown (executor w)"
  shows "world_reachable out_ty fut n w'"
  using assms
proof (induction seen p m pc w rule: sched_run.induct)
  case (1 seen p m pc w)
  obtain c w1 where c: "typed m w p = Inr c" and w1: "sched_call seen (p, m, pc) w = Inr w1"
    and rest: "(case fst (snd (sched_step seen (raw c) pc)) of None \<Rightarrow> Inr w1 | Some pc' \<Rightarrow> sched_run seen p m pc' w1) = Inr w'"
    using "1.prems"(1) by (subst (asm) sched_run.simps) auto
  have r1: "world_reachable out_ty fut n w1" by (rule world_next [OF "1.prems"(2) w_sched [OF "1.prems"(3,4) w1]])
  show ?case
  proof (cases "fst (snd (sched_step seen (raw c) pc))")
    case None
    then show ?thesis using rest r1 by simp
  next
    case (Some pc')
    then have "(p, m, pc') \<in># sched_calls w1 \<and> shutdown (executor w1) = shutdown (executor w)"
      using w1 c by (cases pc) (auto simp: sched_call_def Let_def split: if_splits)
    then show ?thesis using "1.IH" [OF Some] rest r1 Some "1.prems"(4) by simp
  qed
qed

text \<open>
  A wake from start to end. The task's reference stays with its queue entry while the call rings and unparks,
  so nothing in a run of one wake without interference touches freed memory.
\<close>

lemma wake_outcome:
  assumes "world_inv out_ty n w" and "p \<in># wakers w" and "heap w p = Some c"
  obtains w1 w' where "world_wake p w = Inr w1" and "(p, inst c, SNotify) \<in># sched_calls w1" and "executor w1 = executor w"
    and "sched_run False p (inst c) SNotify w1 = Inr w'"
    and "sched_calls w' = sched_calls w" and "wakers w' = wakers w - {#p#}"
    and "heap w' = (heap w)(p := woken_cell c)"
    and "executor w' = (if idle_state (state (raw c)) then fst (spawn (executor w) p) else executor w)"
proof -
  obtain c' f s where c': "heap w p = Some c'" "task_reachable f s" "sim out_ty w p c' s"
    by (rule waker_live [OF assms(1) disjI1 [OF assms(2)]])
  then have c: "heap w p = Some c" "header_vtable c = vtable (inst c)" "strong (raw c) \<noteq> 0"
    using assms(3) simD(1,3) [OF c'(3)] by simp_all
  let ?t = "(raw c)\<lparr>state := state (raw c) OR NOTIFIED\<rparr>" and ?idle = "idle_state (state (raw c))"
  let ?w0 = "w\<lparr>wakers := wakers w - {#p#}\<rparr>"
  let ?w1 = "?w0\<lparr>sched_calls := add_mset (p, inst c, SNotify) (sched_calls w)\<rparr>"
  let ?w' = "?w0\<lparr>heap := (heap w)(p := woken_cell c),
    executor := if ?idle then fst (spawn (executor w) p) else executor w\<rparr>"
  have "world_wake p w = Inr ?w1"
    using call_live(2) [of ?w0 p c] c by (simp add: world_wake_def)
  moreover have "sched_run False p (inst c) SNotify ?w1 = Inr ?w'"
    using c by (auto simp: sched_run.simps sched_call_def typed_def header_def put_task_def woken_cell_def drop_ref_def
        Let_def spawn_def case_prod_beta fun_upd_idem)
  ultimately show thesis by (intro that [of ?w1 ?w']) simp_all
qed

lemma wake_run_ok:
  assumes "world_reachable out_ty fut n w" and "p \<in># wakers w" and "\<not> shutdown (executor w)"
  obtains w' where "wake_run p w = Inr w'" and "world_reachable out_ty fut n w'"
    and "wakers w' = wakers w - {#p#}" and "\<not> shutdown (executor w')"
    and "injector (executor w') = injector (executor w) @ (if idle_task w p then [p] else [])"
    and "\<And>q. idle_task w' q \<longleftrightarrow> q \<noteq> p \<and> idle_task w q"
proof -
  note inv = world_reachable_inv [OF assms(1)]
  obtain c where c: "heap w p = Some c" using waker_live [OF inv disjI1 [OF assms(2)]] by metis
  obtain w1 w' where w: "world_wake p w = Inr w1" "(p, inst c, SNotify) \<in># sched_calls w1" "executor w1 = executor w"
    "sched_run False p (inst c) SNotify w1 = Inr w'" "sched_calls w' = sched_calls w" "wakers w' = wakers w - {#p#}"
    "heap w' = (heap w)(p := woken_cell c)"
    "executor w' = (if idle_state (state (raw c)) then fst (spawn (executor w) p) else executor w)"
    by (rule wake_outcome [OF inv assms(2) c])
  have "world_reachable out_ty fut n w1" using world_next [OF assms(1) w_wake [OF assms(2) w(1)]] .
  from sched_run_reachable [OF w(4) this w(2)] have r: "world_reachable out_ty fut n w'" by simp
  have "wake_run p w = Inr w'" using w(1,4) c assms(3) by (simp add: wake_run_def header_def)
  moreover have "idle_task w' q \<longleftrightarrow> q \<noteq> p \<and> idle_task w q" for q
    using w(7) notified_not_idle [of "state (raw c)"] by (auto simp: idle_task_def woken_cell_def Let_def)
  ultimately show thesis
    by (intro that [OF _ r w(6)]) (use w(8) assms(3) c in \<open>auto simp: spawn_eq idle_task_def\<close>)
qed

section \<open>A batch of wakes\<close>

fun wake_all :: "addr list \<Rightarrow> ('f, 'o, 'w) world \<Rightarrow> ('f, 'o, 'w) world checked" where
  "wake_all [] w = Inr w"
| "wake_all (p # ps) w = fbind (wake_run p w) (wake_all ps)"

fun firsts :: "'a list \<Rightarrow> 'a list" where
  "firsts [] = []"
| "firsts (x # xs) = x # removeAll x (firsts xs)"

lemma firsts_set [simp]: "set (firsts xs) = set xs" "distinct (firsts xs)"
  by (induction xs) (auto simp: distinct_removeAll)

text \<open>
  A batch of wakes queues the tasks that were idle, each once and in the order of its first wake, and
  uses up exactly the references of the wakers woken.
\<close>

lemma wake_all_ok:
  assumes "world_reachable out_ty fut n w" and "mset ps \<subseteq># wakers w" and "\<not> shutdown (executor w)"
  obtains w' where "wake_all ps w = Inr w'" and "world_reachable out_ty fut n w'"
    and "wakers w' = wakers w - mset ps" and "\<not> shutdown (executor w')"
    and "injector (executor w') = injector (executor w) @ filter (idle_task w) (firsts ps)"
proof -
  have "\<exists>w'. wake_all ps w = Inr w' \<and> world_reachable out_ty fut n w' \<and> wakers w' = wakers w - mset ps \<and>
     \<not> shutdown (executor w') \<and> injector (executor w') = injector (executor w) @ filter (idle_task w) (firsts ps)"
    using assms
  proof (induction ps arbitrary: w)
    case Nil
    then show ?case by simp
  next
    case (Cons p ps)
    have "p \<in># wakers w" using Cons.prems(2) by (auto dest: mset_subset_eqD)
    from wake_run_ok [OF Cons.prems(1) this Cons.prems(3)] obtain w1 where w1: "wake_run p w = Inr w1"
      "world_reachable out_ty fut n w1" "wakers w1 = wakers w - {#p#}" "\<not> shutdown (executor w1)"
      "injector (executor w1) = injector (executor w) @ (if idle_task w p then [p] else [])"
      and idle: "\<And>q. idle_task w1 q \<longleftrightarrow> q \<noteq> p \<and> idle_task w q" by metis
    have "mset ps \<subseteq># wakers w1" using Cons.prems(2) w1(3) by (simp add: insert_subset_eq_iff)
    from Cons.IH [OF w1(2) this w1(4)] obtain w' where "wake_all ps w1 = Inr w'" "world_reachable out_ty fut n w'"
      "wakers w' = wakers w1 - mset ps" "\<not> shutdown (executor w')"
      "injector (executor w') = injector (executor w1) @ filter (idle_task w1) (firsts ps)" by blast
    moreover have "filter (idle_task w1) (firsts ps) = filter (idle_task w) (removeAll p (firsts ps))"
      by (auto simp: removeAll_filter_not_eq idle intro: filter_cong)
    ultimately show ?case using w1 by (intro exI [of _ w']) simp
  qed
  then show thesis using that by blast
qed

end
