(* ===== verification/Program.thy ===== *)
theory Program
  imports Wakes
begin

text \<open>
  What the invariant of the whole program gives: no use of an erased task reference faults except
  in the rest of \<open>schedule_fn\<close> after it has pushed its reference, where it can, each task
  behaves as its own system says, a notified task is polled in its turn, and a join handle receives a value
  of its type. The types of outputs are followed through the erased pointers here; a small program that
  spawns, polls and joins one task is the concrete instance.
\<close>

unbundle bit_operations_syntax

section \<open>Outputs keep their type\<close>

text \<open>
  \<open>vty\<close> gives the type of a value. What Rust's type checker guarantees of the user's code is that a future
  of type \<open>F\<close> only returns values of \<open>F::Output\<close>; everything after that goes through erased pointers.
\<close>

definition futures_typed ::
  "('o \<Rightarrow> ty) \<Rightarrow> (ty \<Rightarrow> ty) \<Rightarrow> (monomorph \<Rightarrow> nat \<Rightarrow> 'f \<Rightarrow> 'f \<times> 'o polled) \<Rightarrow> bool" where
  "futures_typed vty out_ty fut \<longleftrightarrow>
     (\<forall>m env f f' out. fut m env f = (f', FutReady out) \<longrightarrow> vty out = out_ty (fut_ty m))"

definition outputs_typed :: "('o \<Rightarrow> ty) \<Rightarrow> (ty \<Rightarrow> ty) \<Rightarrow> ('f, 'o, 'w) world \<Rightarrow> bool" where
  "outputs_typed vty out_ty w \<longleftrightarrow>
     (\<forall>p c out. heap w p = Some c \<longrightarrow> stage (raw c) = StageReady out \<longrightarrow> vty out = out_ty (fut_ty (inst c))) \<and>
     (\<forall>p m out. (p, m, PWriteOutput out) \<in># poll_calls w \<longrightarrow> vty out = out_ty (fut_ty m)) \<and>
     (\<forall>p T out. (p, T, JReleaseTaken out) \<in># handles w \<longrightarrow> vty out = T)"

lemma typed_Inr: "typed m w p = Inr c \<longleftrightarrow> heap w p = Some c \<and> inst c = m"
  by (auto simp: typed_def header_def split: option.splits if_splits)

lemma outputs_typed_put:
  assumes "outputs_typed vty out_ty w" and "heap w p = Some c"
    and "\<And>out. stage t = StageReady out \<Longrightarrow> stage (raw c) = StageReady out \<or> vty out = out_ty (fut_ty (inst c))"
  shows "outputs_typed vty out_ty (put_task p t w)"
  using assms by (fastforce simp: outputs_typed_def heap_put_task split: if_splits)

lemma outputs_typed_keep:
  assumes "outputs_typed vty out_ty w" and "heap w p = Some c" and "stage t = stage (raw c)"
  shows "outputs_typed vty out_ty (put_task p t w)"
  by (rule outputs_typed_put [OF assms(1,2)]) (use assms(3) in simp)

lemma outputs_typed_frame [simp]:
  "outputs_typed vty out_ty (w\<lparr>executor := sh\<rparr>) = outputs_typed vty out_ty w"
  "outputs_typed vty out_ty (w\<lparr>wakers := M\<rparr>) = outputs_typed vty out_ty w"
  "outputs_typed vty out_ty (w\<lparr>sched_calls := K\<rparr>) = outputs_typed vty out_ty w"
  "outputs_typed vty out_ty (w\<lparr>poll_calls := add_mset (p, m, PLoad) (poll_calls w)\<rparr>) = outputs_typed vty out_ty w"
  by (simp_all add: outputs_typed_def)

lemma call_outputs_typed:
  assumes ok: "outputs_typed vty out_ty w" and "call entry p w = Inr w'"
  shows "outputs_typed vty out_ty w'"
proof -
  obtain c b where c: "heap w p = Some c" and f: "call_fn (entry (header_vtable c)) p w = Inr (w', b)"
    using assms(2) by (auto simp: call_def header_def split: option.splits)
  note keep = outputs_typed_keep [OF ok c]
  show ?thesis
  proof (cases "entry (header_vtable c)")
    case (CloneRefFn m)
    then show ?thesis using f c keep [of "clone_ref (raw c)"] by (simp add: typed_Inr clone_ref_def)
  next
    case (DropRefFn m)
    then show ?thesis using f c keep [of "drop_ref (raw c)"] by (simp add: typed_Inr drop_ref_def)
  next
    case (DropJoinInterestFn m)
    then show ?thesis using f c keep [of "fst (clear_join_interest (raw c))"]
      by (simp add: typed_Inr clear_join_interest_def case_prod_beta Let_def)
  qed (use f ok in \<open>auto simp: typed_Inr\<close>)
qed

lemma spawner_schedule_typed:
  assumes "outputs_typed vty out_ty w" and "spawner_schedule seen e p w = Inr w'"
  shows "outputs_typed vty out_ty w'"
  using assms call_outputs_typed by (cases e) (auto simp: task_ref_drop_def split: if_splits)

text \<open>What a step of \<open>poll_fn\<close> does to the cell, and where the value it is about to write comes from.\<close>

lemma poll_step_stage:
  assumes "poll_step spurious seen fut t pc = Inr (t', next, e)"
  shows "stage t' = StageReady out \<Longrightarrow> stage t = StageReady out \<or> pc = PWriteOutput out"
    and "next = Some (PWriteOutput out) \<Longrightarrow> \<exists>f f'. fut f = (f', FutReady out)"
  using assms
  by (cases pc; force simp: Let_def clone_ref_def drop_ref_def
      split: if_splits stage.splits polled.splits option.splits prod.splits)+

lemma poll_call_typed:
  assumes ok: "outputs_typed vty out_ty w" and mem: "(p, m, pc) \<in># poll_calls w"
    and fut: "\<And>f f' out. fut f = (f', FutReady out) \<Longrightarrow> vty out = out_ty (fut_ty m)"
    and "poll_call spurious seen fut (p, m, pc) w = Inr w'"
  shows "outputs_typed vty out_ty w'"
proof -
  obtain c where c: "heap w p = Some c" "inst c = m" using assms(4) by (auto simp: poll_call_def typed_Inr)
  obtain t "next" e where st: "poll_step spurious seen fut (raw c) pc = Inr (t, next, e)"
    using assms(4) c by (cases "poll_step spurious seen fut (raw c) pc") (auto simp: poll_call_def typed_def header_def)
  let ?w = "w\<lparr>poll_calls := poll_calls w - {#(p, m, pc)#} + image_mset (\<lambda>pc'. (p, m, pc')) (next_calls next)\<rparr>"
  have "vty out = out_ty (fut_ty m)" if "next = Some (PWriteOutput out)" for out
    using poll_step_stage(2) [OF st that] fut by blast
  then have "outputs_typed vty out_ty ?w"
    using ok by (cases "next") (auto simp: outputs_typed_def dest!: in_diffD)
  moreover have "stage (raw c) = StageReady out \<or> vty out = out_ty (fut_ty (inst c))" if "stage t = StageReady out" for out
    using poll_step_stage(1) [OF st that] ok mem c(2) by (auto simp: outputs_typed_def)
  ultimately have "outputs_typed vty out_ty (put_task p t ?w)" using c(1) by (intro outputs_typed_put) simp_all
  then show ?thesis
    using assms(4) c st spawner_schedule_typed
    by (auto simp: poll_call_def typed_def header_def Let_def split: if_splits)
qed

lemma sched_call_typed:
  assumes ok: "outputs_typed vty out_ty w" and "sched_call seen (p, m, pc) w = Inr w'"
  shows "outputs_typed vty out_ty w'"
proof -
  obtain c where c: "heap w p = Some c" "inst c = m" using assms(2) by (auto simp: sched_call_def typed_Inr)
  obtain t "next" e where st: "sched_step seen (raw c) pc = (t, next, e)" by (cases "sched_step seen (raw c) pc")
  have "stage t = stage (raw c)" using st by (cases pc) (auto simp: Let_def drop_ref_def split: if_splits)
  then have "outputs_typed vty out_ty (put_task p t (w\<lparr>sched_calls := K\<rparr>))" for K
    using c(1) ok by (intro outputs_typed_keep) simp_all
  note this spawner_schedule_typed [OF this]
  then show ?thesis
    using assms(2) c st by (auto simp: sched_call_def typed_def header_def Let_def split: if_splits)
qed

lemma set_handle_typed:
  assumes "outputs_typed vty out_ty w" and "\<And>out. next = Some (JReleaseTaken out) \<Longrightarrow> vty out = T"
  shows "outputs_typed vty out_ty (set_handle (p, T, pc) next w)"
  using assms by (cases "next") (auto simp: outputs_typed_def set_handle_def dest!: in_diffD)

lemma take_output_typed:
  assumes ok: "outputs_typed vty out_ty w" and inv: "world_inv out_ty n w" and mem: "(p, T, JTake) \<in># handles w"
  obtains w' out where "take_output out_ty T p w = Inr (w', Some out)" and "vty out = T"
    and "outputs_typed vty out_ty w'"
proof -
  obtain c f s where c: "heap w p = Some c" "task_reachable f s" "sim out_ty w p c s"
    and T: "T = out_ty (fut_ty (inst c))" "joiner s = JTake"
    by (rule handle_live [OF inv mem])
  note d = simD [OF c(3)]
  obtain out where o: "try_take_output (raw c) = ((raw c)\<lparr>stage := StageEmpty\<rparr>, Some out)" "stage (raw c) = StageReady out"
    using join_take_progress [OF c(2) T(2)] unfolding d(2) by blast
  have "outputs_typed vty out_ty (put_task p ((raw c)\<lparr>stage := StageEmpty\<rparr>) w)"
    using ok c(1) by (intro outputs_typed_put) simp_all
  moreover have "vty out = T" using ok c(1) o(2) T(1) by (simp add: outputs_typed_def)
  ultimately show thesis
    using c(1) d(1) o T(1) by (intro that) (auto simp: take_output_def header_def typed_def vtable_def)
qed

lemma join_step_stage:
  assumes "join_step t pc = Inr (t', pc')" and "pc \<noteq> JTake"
  shows "stage t' = StageReady out \<Longrightarrow> stage t = StageReady out" "pc' = JReleaseTaken out \<Longrightarrow> pc = JReleaseTaken out"
  using assms by (cases pc; auto simp: drop_ref_def clear_join_interest_def Let_def split: if_splits)+

lemma handle_call_typed:
  assumes ok: "outputs_typed vty out_ty w" and inv: "world_inv out_ty n w" and mem: "(p, T, pc) \<in># handles w"
    and call: "handle_call out_ty (p, T, pc) w = Inr w'"
  shows "outputs_typed vty out_ty w'"
proof -
  have release: "outputs_typed vty out_ty w'" if "task_ref_drop p (set_handle (p, T, pc) None w) = Inr w'"
    by (rule call_outputs_typed [OF set_handle_typed [OF ok] that [unfolded task_ref_drop_def]]) simp
  have step: "outputs_typed vty out_ty w'"
    if pc: "pc \<notin> {JTake, JDropInterest, JReleaseDropped}" "\<And>out. pc \<noteq> JReleaseTaken out"
  proof -
    have eq: "handle_call out_ty (p, T, pc) w = fbind (header w p) (\<lambda>c. case join_step (raw c) pc of
         Inl e \<Rightarrow> Inl (Panicked e)
       | Inr (t, pc') \<Rightarrow> Inr (set_handle (p, T, pc) (Some pc') (put_task p t w)))"
      using pc by (cases pc) auto
    then obtain c t pc' where c: "heap w p = Some c" and st: "join_step (raw c) pc = Inr (t, pc')"
      and w': "w' = set_handle (p, T, pc) (Some pc') (put_task p t w)"
      using call by (auto simp: header_def split: option.splits sum.splits prod.splits)
    show ?thesis unfolding w'
      by (intro set_handle_typed outputs_typed_put [OF ok c]) (use join_step_stage [OF st] pc in auto)
  qed
  show ?thesis
  proof (cases pc)
    case JTake
    obtain w1 out where w1: "take_output out_ty T p w = Inr (w1, Some out)" "vty out = T" "outputs_typed vty out_ty w1"
      by (rule take_output_typed [OF ok inv mem [unfolded JTake]])
    then have "w' = set_handle (p, T, JTake) (Some (JReleaseTaken out)) w1" using call JTake by simp
    moreover have "outputs_typed vty out_ty (set_handle (p, T, JTake) (Some (JReleaseTaken out)) w1)"
      by (rule set_handle_typed [OF w1(3)]) (use w1(2) in simp)
    ultimately show ?thesis by simp
  next
    case JDropInterest
    then obtain w1 b where w1: "drop_join_interest p w = Inr (w1, b)"
      and w': "w' = set_handle (p, T, pc) (Some (if b then JDropOutput else JReleaseDropped)) w1"
      using call by auto
    have "call vt_drop_join_interest p w = Inr w1" using w1 by (auto simp: drop_join_interest_def call_def)
    then show ?thesis unfolding w' using call_outputs_typed [OF ok] by (intro set_handle_typed) (auto split: if_splits)
  qed (use call release step in auto)
qed

lemma world_step_typed:
  assumes "world_step out_ty fut w w'" and ok: "outputs_typed vty out_ty w" and inv: "world_inv out_ty n w"
    and fut: "futures_typed vty out_ty fut"
  shows "outputs_typed vty out_ty w'"
  using assms(1)
proof cases
  case (w_spawn p m f)
  then show ?thesis using ok by (auto simp: outputs_typed_def spawner_spawn_def join_handle_new_def spawn_raw_def)
next
  case (w_poll k seen spurious env)
  obtain p m pc where k: "k = (p, m, pc)" by (cases k)
  show ?thesis
    by (rule poll_call_typed [OF ok _ _ w_poll(3) [unfolded k]])
      (use w_poll(1) fut k in \<open>auto simp: futures_typed_def\<close>)
next
  case (w_sched k seen)
  then show ?thesis using sched_call_typed [OF ok] by (cases k) auto
next
  case w_clear
  then show ?thesis
    using ok call_outputs_typed [of vty out_ty "w\<lparr>executor := sh\<rparr>" for sh]
    by (auto simp: clear_head_def task_ref_drop_def split: list.splits)
next
  case (w_wake_by_ref p)
  then obtain w1 where "call vt_clone_ref p w = Inr w1" "call vt_schedule p w1 = Inr w'"
    by (auto simp: world_wake_by_ref_def)
  then show ?thesis using call_outputs_typed [OF call_outputs_typed [OF ok]] by blast
next
  case (w_join_begin p T pc x pc')
  then have "pc' \<noteq> JReleaseTaken out" for out by (cases pc) auto
  then show ?thesis unfolding w_join_begin(1) by (intro set_handle_typed [OF ok]) simp
next
  case (w_join_drop p T pc pc')
  then have "pc' \<noteq> JReleaseTaken out" for out by (cases pc) auto
  then show ?thesis unfolding w_join_drop(1) by (intro set_handle_typed [OF ok]) simp
next
  case (w_join p T pc)
  then show ?thesis using handle_call_typed [OF ok inv] by blast
next
  case (w_poll_task i rs sh rs' p)
  show ?thesis by (rule call_outputs_typed [OF _ w_poll_task(3) [unfolded task_ref_poll_def]]) (simp add: ok)
next
  case (w_wake p)
  show ?thesis by (rule call_outputs_typed [OF _ w_wake(2) [unfolded world_wake_def]]) (simp add: ok)
next
  case (w_drop p)
  show ?thesis by (rule call_outputs_typed [OF _ w_drop(2) [unfolded world_drop_def]]) (simp add: ok)
qed (use ok call_outputs_typed [OF ok] in \<open>auto simp: world_clone_def\<close>)

lemma world_reachable_typed:
  assumes "world_reachable out_ty fut n w" and fut: "futures_typed vty out_ty fut"
  shows "outputs_typed vty out_ty w"
  using assms(1)
proof (induction rule: world_reachable.induct)
  case (world_next w w')
  then show ?case using world_step_typed [OF _ _ world_reachable_inv fut] by blast
qed (simp add: outputs_typed_def world_new_def)

section \<open>A sample program\<close>

text \<open>
  One worker, one task at address 5 whose future waits while the environment is not 0 and then returns 42, and its
  join handle.
\<close>

definition sample_mono :: monomorph where "sample_mono = Monomorph 1 2"

definition sample_out_ty :: "ty \<Rightarrow> ty" where "sample_out_ty F = F + 6"

definition sample_vty :: "nat \<Rightarrow> ty" where "sample_vty v = 7"

definition sample_fut :: "monomorph \<Rightarrow> nat \<Rightarrow> unit \<Rightarrow> unit \<times> nat polled" where
  "sample_fut m env f = (f, if fut_ty m = 1 \<and> env = 0 then FutReady 42 else FutPending)"

definition sample_shared :: "addr list \<Rightarrow> u64 \<Rightarrow> addr shared" where
  "sample_shared q k = \<lparr>injector = q, workers = [\<lparr>thread_set = False, local = []\<rparr>], next_unpark = k, shutdown = False,
     driver_held = False, driver_parked = False\<rparr>"

definition sample_world ::
  "u64 \<Rightarrow> (unit, nat) stage \<Rightarrow> nat \<Rightarrow> addr list \<Rightarrow> (nat, string) poll_pc multiset \<Rightarrow> (nat, string) join_pc \<Rightarrow>
     (unit, nat, string) world" where
  "sample_world st stg k q pcs j = \<lparr>heap = [5 \<mapsto> \<lparr>inst = sample_mono, header_vtable = vtable sample_mono,
       raw = \<lparr>state = st, join_waker = None, stage = stg, strong = k\<rparr>\<rparr>],
     executor = sample_shared q 1, wakers = {#}, poll_calls = image_mset (\<lambda>pc. (5, sample_mono, pc)) pcs,
     sched_calls = {#}, handles = {#(5, 7, j)#}\<rparr>"

abbreviation sample_reachable :: "(unit, nat, string) world \<Rightarrow> bool" where
  "sample_reachable \<equiv> world_reachable sample_out_ty sample_fut 1"

lemma sample_futures_typed: "futures_typed sample_vty sample_out_ty sample_fut"
  by (auto simp: futures_typed_def sample_fut_def sample_vty_def sample_out_ty_def split: if_splits)

lemma sample_spawned: "sample_reachable (sample_world 9 (StagePending ()) 2 [5] {#} JIdle)"
proof -
  have "shared_new 1 = Inr (sample_shared [] 0)" by (simp add: shared_new_def sample_shared_def worker_slot_new_def)
  from world_start [OF this] have "sample_reachable (world_new (sample_shared [] 0))" .
  from world_next [OF this w_spawn [of _ 5 _ _ sample_mono "()"]] show ?thesis
    by (simp add: world_new_def spawner_spawn_def join_handle_new_def sample_world_def sample_shared_def spawn_def push_global_def
        unpark_one_def wake_driver_if_parked_def spawn_raw_def state_bit_values sample_out_ty_def sample_mono_def
        numeral_2_eq_2)
qed

lemma sample_popped: "sample_reachable (sample_world 9 (StagePending ()) 2 [] {#PLoad#} JIdle)"
proof -
  let ?w = "sample_world 9 (StagePending ()) 2 [5] {#} JIdle"
  have turn: "worker_turn (executor ?w) 0 (run_state_new 0) = Inr (sample_shared [] 1, \<lparr>tick = 1, rng = rng (run_state_new 0)\<rparr>, Poll 5)"
    by (simp add: sample_world_def sample_shared_def worker_turn_def worker_pop_def pop_global_def run_state_new_def)
  have "task_ref_poll 5 (?w\<lparr>executor := sample_shared [] 1\<rparr>) = Inr (sample_world 9 (StagePending ()) 2 [] {#PLoad#} JIdle)"
    by (simp add: task_ref_poll_def call_def header_def sample_world_def vtable_def typed_def)
  from world_next [OF sample_spawned w_poll_task [OF _ turn this]] show ?thesis
    by (simp add: sample_world_def sample_shared_def)
qed

text \<open>The only call in flight takes its next step.\<close>

lemma sample_poll_step_any:
  assumes "sample_reachable ((sample_world st stg k q {#pc#} j)\<lparr>wakers := ws, sched_calls := K, handles := H\<rparr>)"
    and "poll_step False False (sample_fut sample_mono env) \<lparr>state = st, join_waker = None, stage = stg, strong = k\<rparr> pc =
      Inr (\<lparr>state = st', join_waker = None, stage = stg', strong = k'\<rparr>, next, NoEffect)" and "k' \<noteq> 0"
  shows "sample_reachable ((sample_world st' stg' k' q (next_calls next) j)\<lparr>wakers := ws, sched_calls := K, handles := H\<rparr>)"
proof -
  let ?w = "(sample_world st stg k q {#pc#} j)\<lparr>wakers := ws, sched_calls := K, handles := H\<rparr>"
  have "poll_call False False (sample_fut (fst (snd (5 :: addr, sample_mono, pc))) env) (5, sample_mono, pc) ?w =
      Inr ((sample_world st' stg' k' q (next_calls next) j)\<lparr>wakers := ws, sched_calls := K, handles := H\<rparr>)"
    using assms(2,3) by (simp add: poll_call_def typed_def header_def sample_world_def put_task_def)
  from world_next [OF assms(1) w_poll [where fut = sample_fut, OF _ _ this]] show ?thesis by (simp add: sample_world_def)
qed

lemma sample_poll_step_env:
  assumes "sample_reachable ((sample_world st stg k q {#pc#} j)\<lparr>wakers := ws\<rparr>)"
    and "poll_step False False (sample_fut sample_mono env) \<lparr>state = st, join_waker = None, stage = stg, strong = k\<rparr> pc =
      Inr (\<lparr>state = st', join_waker = None, stage = stg', strong = k'\<rparr>, next, NoEffect)" and "k' \<noteq> 0"
  shows "sample_reachable ((sample_world st' stg' k' q (next_calls next) j)\<lparr>wakers := ws\<rparr>)"
  using sample_poll_step_any [where K = "{#}" and H = "{#(5, 7, j)#}", OF _ assms(2,3)] assms(1) by (simp add: sample_world_def)

lemma sample_poll_step:
  assumes "sample_reachable (sample_world st stg k q {#pc#} j)"
    and "poll_step False False (sample_fut sample_mono 0) \<lparr>state = st, join_waker = None, stage = stg, strong = k\<rparr> pc =
      Inr (\<lparr>state = st', join_waker = None, stage = stg', strong = k'\<rparr>, next, NoEffect)" and "k' \<noteq> 0"
  shows "sample_reachable (sample_world st' stg' k' q (next_calls next) j)"
  using sample_poll_step_env [where ws = "{#}", OF _ assms(2,3)] assms(1) by (simp add: sample_world_def)

lemma sample_polled: "sample_reachable (sample_world 10 (StagePending ()) 3 [] {#PPoll#} JIdle)"
proof -
  note [simp] = state_bit_values clone_ref_def sample_fut_def sample_mono_def
  let ?P = "StagePending ()"
  have "sample_reachable (sample_world 9 ?P 2 [] {#PLoop 9#} JIdle)"
    using sample_poll_step [OF sample_popped, of 9 ?P 2 "Some (PLoop 9)"] by simp
  from sample_poll_step [OF this, of 10 ?P 2 "Some PBuildWaker"]
  have "sample_reachable (sample_world 10 ?P 2 [] {#PBuildWaker#} JIdle)" by simp
  from sample_poll_step [OF this, of 10 ?P 3 "Some PPoll"] show ?thesis by simp
qed

lemma sample_taking: "sample_reachable (sample_world 12 (StageReady 42) 3 [] {#PFinish 14#} JTake)"
proof -
  note [simp] = state_bit_values clone_ref_def sample_fut_def sample_mono_def
  let ?P = "StagePending ()" and ?R = "StageReady 42"
  from sample_poll_step [OF sample_polled, of 10 ?P 3 "Some (PWriteOutput 42)"]
  have "sample_reachable (sample_world 10 ?P 3 [] {#PWriteOutput 42#} JIdle)" by simp
  from sample_poll_step [OF this, of 10 ?R 3 "Some PSetComplete"]
  have "sample_reachable (sample_world 10 ?R 3 [] {#PSetComplete#} JIdle)" by simp
  from sample_poll_step [OF this, of 14 ?R 3 "Some (PClearRunning 14)"]
  have "sample_reachable (sample_world 14 ?R 3 [] {#PClearRunning 14#} JIdle)" by simp
  from sample_poll_step [OF this, of 12 ?R 3 "Some (PFinish 14)"]
  have "sample_reachable (sample_world 12 ?R 3 [] {#PFinish 14#} JIdle)" by simp
  from world_next [OF this w_join_begin [of 5 7 JIdle _ "''w''" "JPoll ''w''"]]
  have *: "sample_reachable (sample_world 12 ?R 3 [] {#PFinish 14#} (JPoll ''w''))"
    by (simp add: sample_world_def set_handle_def)
  have "handle_call sample_out_ty (5, 7, JPoll ''w'') (sample_world 12 ?R 3 [] {#PFinish 14#} (JPoll ''w'')) =
      Inr (sample_world 12 ?R 3 [] {#PFinish 14#} JTake)"
    by (simp add: header_def sample_world_def set_handle_def put_task_def)
  from world_next [OF * w_join [OF _ _ this]] show ?thesis by (simp add: sample_world_def)
qed

section \<open>Properties of the program\<close>

text \<open>
  Claim C4. Memory safety of the erased tasks, but for one window: in every reachable state of the program, whatever
  interleaving led there and however addresses were reused, polling a queued task, clearing the queue at
  shutdown, every entry of a waker's vtable, every step of a call of \<open>poll_fn\<close>, every step of a join handle and every
  step of a call of \<open>schedule_fn\<close> up to its push finds its allocation live and of the type it casts to, and none
  of them panics. The one use of a task that can fault is the end of \<open>schedule_fn\<close> after the push: there it
  still reads the task's \<open>Spawner\<close>, and it faults only if the allocation has been freed, the address being
  unused or holding a task of another type.
\<close>

theorem world_no_fault:
  assumes "world_reachable out_ty fut n w"
  shows "(\<forall>i rs sh rs' p. i < n \<and> worker_turn (executor w) i rs = Inr (sh, rs', Poll p) \<longrightarrow>
        (\<exists>w'. task_ref_poll p (w\<lparr>executor := sh\<rparr>) = Inr w')) \<and>
     (shutdown (executor w) \<longrightarrow> (\<exists>w'. clear_head w = Inr w')) \<and>
     (\<forall>p. waker_at w p \<longrightarrow> (\<exists>w'. world_clone p w = Inr w') \<and> (\<exists>w'. world_wake_by_ref p w = Inr w')) \<and>
     (\<forall>p. p \<in># wakers w \<longrightarrow> (\<exists>w'. world_wake p w = Inr w') \<and> (\<exists>w'. world_drop p w = Inr w')) \<and>
     (\<forall>k spurious seen g. k \<in># poll_calls w \<and> (seen \<longrightarrow> shutdown (executor w)) \<longrightarrow>
        (\<exists>w'. poll_call spurious seen g k w = Inr w')) \<and>
     (\<forall>p m pc seen. (p, m, pc) \<in># sched_calls w \<and> (seen \<longrightarrow> shutdown (executor w)) \<longrightarrow>
        (\<exists>w'. sched_call seen (p, m, pc) w = Inr w') \<or>
        pc \<in> {SWakeDriver, SUnparkOne} \<and> (\<forall>c. heap w p = Some c \<longrightarrow> inst c \<noteq> m)) \<and>
     (\<forall>p T pc. (p, T, pc) \<in># handles w \<and> \<not> join_at_rest pc \<longrightarrow> (\<exists>w'. handle_call out_ty (p, T, pc) w = Inr w'))"
proof (intro conjI allI impI)
  note inv = world_reachable_inv [OF assms]
  note d = world_invD [OF inv]
  show "\<exists>w'. task_ref_poll p (w\<lparr>executor := sh\<rparr>) = Inr w'"
    if "i < n \<and> worker_turn (executor w) i rs = Inr (sh, rs', Poll p)" for i rs sh rs' p
    using worker_turn_queues [OF d(1), of i rs sh rs' "Poll p"] that d task_ref_poll_ok [OF inv, of p sh] by auto
  show "\<exists>w'. clear_head w = Inr w'" if "shutdown (executor w)" using clear_head_ok [OF inv that] by blast
  show "\<exists>w'. world_clone p w = Inr w'" if "waker_at w p" for p using world_clone_ok [OF inv that] by blast
  show "\<exists>w'. world_wake_by_ref p w = Inr w'" if "waker_at w p" for p using world_wake_by_ref_ok [OF inv that] by blast
  show "\<exists>w'. world_wake p w = Inr w'" if "p \<in># wakers w" for p using world_wake_ok [OF inv that] by blast
  show "\<exists>w'. world_drop p w = Inr w'" if "p \<in># wakers w" for p using world_drop_ok [OF inv that] by blast
  show "\<exists>w'. poll_call spurious seen g k w = Inr w'"
    if "k \<in># poll_calls w \<and> (seen \<longrightarrow> shutdown (executor w))" for k spurious seen g
    using poll_call_ok [OF inv] that by (cases k) blast
  show "(\<exists>w'. sched_call seen (p, m, pc) w = Inr w') \<or>
      pc \<in> {SWakeDriver, SUnparkOne} \<and> (\<forall>c. heap w p = Some c \<longrightarrow> inst c \<noteq> m)"
    if "(p, m, pc) \<in># sched_calls w \<and> (seen \<longrightarrow> shutdown (executor w))" for p m pc seen
    using sched_call_ok [OF inv, of p m pc seen] sched_call_past_push [OF inv, of p m pc _ seen] that by (cases pc) auto
  show "\<exists>w'. handle_call out_ty (p, T, pc) w = Inr w'"
    if "(p, T, pc) \<in># handles w \<and> \<not> join_at_rest pc" for p T pc
    using handle_call_ok [OF inv] that by blast
qed

theorem world_no_fault_witness:
  "\<exists>w'. handle_call sample_out_ty (5, 7, JTake) (sample_world 12 (StageReady 42) 3 [] {#PFinish 14#} JTake) = Inr w'"
proof -
  let ?w = "sample_world 12 (StageReady 42) 3 [] {#PFinish 14#} JTake"
  have "(5, 7, JTake) \<in># handles ?w \<and> \<not> join_at_rest (JTake :: (nat, string) join_pc)" by (simp add: sample_world_def)
  then show ?thesis using world_no_fault [OF sample_taking] by blast
qed

text \<open>
  Claim C7. The program refines the task: seen from any live allocation, every reachable state of the
  program is a reachable state of that task's own system, whose run queue, wakers, calls of \<open>poll_fn\<close>, calls of
  \<open>schedule_fn\<close> that still own their reference and join handle are exactly the queue entries, wakers, calls and handles
  of the program that hold the address; a task is queued at most once in all queues together. No reference to
  an address that is not allocated exists, and an allocation to which there is no reference does not exist, so
  none leaks. Calls of \<open>schedule_fn\<close> past their push own no reference and are not counted.
\<close>

theorem world_refines_task:
  assumes "world_reachable out_ty fut n w"
  shows "case heap w p of
       None \<Rightarrow> refs w p = no_refs
     | Some c \<Rightarrow> strong (raw c) \<noteq> 0 \<and> refs w p \<noteq> no_refs \<and> count (all_tasks (executor w)) p \<le> 1 \<and>
         (\<exists>f s. task_reachable f s \<and> the_task s = raw c \<and> refs w p = sys_refs out_ty (inst c) s)"
proof (cases "heap w p")
  case None
  then show ?thesis
    using world_reachable_inv [OF assms] by (auto simp: world_inv_def cell_ok_def split: option.splits dest: spec [of _ p])
next
  case (Some c)
  have "cell_ok out_ty w p" using world_reachable_inv [OF assms] by (simp add: world_inv_def)
  then obtain f s where s: "task_reachable f s" "sim out_ty w p c s" using Some by (auto simp: cell_ok_def)
  note d = simD [OF s(2)]
  have "inv_tokens s" using task_reachable_inv [OF s(1)] by (simp add: task_inv_def)
  then have "tokens s \<le> 1" unfolding inv_tokens_def by (auto split: if_splits)
  then have "count (all_tasks (executor w)) p \<le> 1" using d(4) by (simp add: tokens_def)
  moreover have "refs w p \<noteq> no_refs" using refs_nonzero [OF s(1), of out_ty "inst c"] s(2) by (simp add: sim_def)
  ultimately show ?thesis using Some s d(2,3) by (auto simp: sim_def)
qed

theorem world_refines_task_witness:
  "\<exists>s :: (unit, nat, string) tsys. task_reachable () s \<and> run_queue s = 1 \<and> joiner s = JIdle \<and> polls s = {#}"
proof -
  let ?w = "sample_world 9 (StagePending ()) 2 [5] {#} JIdle"
  obtain c where c: "heap ?w 5 = Some c" "inst c = sample_mono" by (simp add: sample_world_def)
  from world_refines_task [OF sample_spawned, of 5] have
    "\<exists>f s. task_reachable f s \<and> the_task s = raw c \<and> refs ?w 5 = sys_refs sample_out_ty sample_mono s"
    unfolding c(1) option.case c(2) by (elim conjE)
  then obtain f and s :: "(unit, nat, string) tsys" where
    "task_reachable f s" "refs ?w 5 = sys_refs sample_out_ty sample_mono s" by blast
  moreover have "refs ?w 5 = (1, 0, {#}, {#}, {#(7, JIdle)#})"
    by (simp add: refs_def sample_world_def sample_shared_def all_tasks_def local_tasks_def)
  moreover have "f = ()" by simp
  ultimately show ?thesis by (intro exI [of _ s]) (auto simp: sys_refs_def split: if_splits)
qed


text \<open>The sample task after its first poll has cloned the waker it was given, seen by that waker.\<close>

lemma sample_cloned:
  "sample_reachable ((sample_world 10 (StagePending ()) 4 [] {#PPoll#} JIdle)\<lparr>wakers := {#5#}\<rparr>)"
proof -
  let ?w = "sample_world 10 (StagePending ()) 3 [] {#PPoll#} JIdle"
  have "waker_at ?w 5" by (simp add: sample_world_def)
  moreover have "world_clone 5 ?w = Inr ((sample_world 10 (StagePending ()) 4 [] {#PPoll#} JIdle)\<lparr>wakers := {#5#}\<rparr>)"
    by (simp add: world_clone_def call_def header_def typed_def vtable_def put_task_def clone_ref_def sample_world_def)
  ultimately show ?thesis using world_next [OF sample_polled w_clone] by blast
qed

text \<open>That waker is kept while the poll returns pending and gives up its references.\<close>

lemma sample_idle:
  "sample_reachable ((sample_world 8 (StagePending ()) 2 [] {#} JIdle)\<lparr>wakers := {#5#}\<rparr>)"
proof -
  note [simp] = state_bit_values drop_ref_def sample_fut_def sample_mono_def
  let ?P = "StagePending ()" and ?W = "\<lambda>st k pcs. (sample_world st (StagePending ()) k [] pcs JIdle)\<lparr>wakers := {#5#}\<rparr>"
  have "sample_reachable (?W 10 4 {#PClearPending#})"
    using sample_poll_step_env [OF sample_cloned, of 1 10 ?P 4 "Some PClearPending"] by simp
  from sample_poll_step_env [OF this, of 1 8 ?P 4 "Some PDropWaker"] have "sample_reachable (?W 8 4 {#PDropWaker#})" by simp
  from sample_poll_step_env [OF this, of 1 8 ?P 3 "Some PDropArc"] have "sample_reachable (?W 8 3 {#PDropArc#})" by simp
  from sample_poll_step_env [OF this, of 1 8 ?P 2 None] show ?thesis by simp
qed


text \<open>
  The sample task with its join handle dropped, so that the waker holds the last reference; and after the wake has
  pushed the task and the worker has popped it.
\<close>

abbreviation detached ::
  "u64 \<Rightarrow> (unit, nat) stage \<Rightarrow> nat \<Rightarrow> addr list \<Rightarrow> (nat, string) poll_pc multiset \<Rightarrow> addr multiset \<Rightarrow> sched_pc multiset \<Rightarrow>
     (unit, nat, string) world" where
  "detached st stg k q pcs ws K \<equiv> (sample_world st stg k q pcs JIdle)\<lparr>wakers := ws,
     sched_calls := image_mset (\<lambda>pc. (5, sample_mono, pc)) K, handles := {#}\<rparr>"

lemma sample_detached: "sample_reachable (detached 0 (StagePending ()) 1 [] {#} {#5#} {#})"
proof -
  note [simp] = sample_world_def set_handle_def put_task_def header_def typed_def vtable_def
  let ?w = "\<lambda>st j. (sample_world st (StagePending ()) 2 [] {#} j)\<lparr>wakers := {#5#}\<rparr>"
  have 1: "sample_reachable (?w 8 JDropInterest)"
    using world_next [OF sample_idle w_join_drop [of 5 7 JIdle _ JDropInterest]] by simp
  have 2: "handle_call sample_out_ty (5, 7, JDropInterest) (?w 8 JDropInterest) = Inr (?w 0 JReleaseDropped)"
    by (simp add: drop_join_interest_def clear_join_interest_def state_bit_values)
  have 3: "handle_call sample_out_ty (5, 7, JReleaseDropped) (?w 0 JReleaseDropped) =
      Inr (detached 0 (StagePending ()) 1 [] {#} {#5#} {#})"
    by (simp add: task_ref_drop_def call_def drop_ref_def)
  from world_next [OF 1 w_join [OF _ _ 2]] have "sample_reachable (?w 0 JReleaseDropped)" by simp
  from world_next [OF this w_join [OF _ _ 3]] show ?thesis by simp
qed

lemma sample_pushed: "sample_reachable (detached 1 (StagePending ()) 1 [] {#PLoad#} {#} {#SWakeDriver#})"
proof -
  note [simp] = sample_world_def sample_shared_def put_task_def header_def typed_def vtable_def state_bit_values
  let ?P = "StagePending ()"
  have 1: "world_wake 5 (detached 0 ?P 1 [] {#} {#5#} {#}) = Inr (detached 0 ?P 1 [] {#} {#} {#SNotify#})"
    by (simp add: world_wake_def call_def)
  have 2: "sched_call False (5, sample_mono, SNotify) (detached 0 ?P 1 [] {#} {#} {#SNotify#}) =
      Inr (detached 1 ?P 1 [] {#} {#} {#SPush#})"
    by (simp add: sched_call_def)
  have 3: "sched_call False (5, sample_mono, SPush) (detached 1 ?P 1 [] {#} {#} {#SPush#}) =
      Inr (detached 1 ?P 1 [5] {#} {#} {#SWakeDriver#})"
    by (simp add: sched_call_def push_global_def)
  have turn: "worker_turn (executor (detached 1 ?P 1 [5] {#} {#} {#SWakeDriver#})) 0 (run_state_new 0) =
      Inr (sample_shared [] 1, \<lparr>tick = 1, rng = rng (run_state_new 0)\<rparr>, Poll 5)"
    by (simp add: worker_turn_def worker_pop_def pop_global_def run_state_new_def)
  have 4: "task_ref_poll 5 ((detached 1 ?P 1 [5] {#} {#} {#SWakeDriver#})\<lparr>executor := sample_shared [] 1\<rparr>) =
      Inr (detached 1 ?P 1 [] {#PLoad#} {#} {#SWakeDriver#})"
    by (simp add: task_ref_poll_def call_def)
  from world_next [OF sample_detached w_wake [OF _ 1]] have "sample_reachable (detached 0 ?P 1 [] {#} {#} {#SNotify#})" by simp
  from world_next [OF this w_sched [OF _ _ 2]] have "sample_reachable (detached 1 ?P 1 [] {#} {#} {#SPush#})" by simp
  from world_next [OF this w_sched [OF _ _ 3]] have "sample_reachable (detached 1 ?P 1 [5] {#} {#} {#SWakeDriver#})" by simp
  from world_next [OF this w_poll_task [OF _ turn 4]] show ?thesis by simp
qed

lemma sample_finishing: "sample_reachable (detached 4 StageEmpty 1 [] {#PDropArc#} {#} {#SWakeDriver#})"
proof -
  note [simp] = state_bit_values clone_ref_def drop_ref_def sample_fut_def sample_mono_def
  note run = sample_poll_step_any [where env = 0]
  let ?P = "StagePending ()" and ?R = "StageReady 42"
  let ?r = "\<lambda>st stg k pc. sample_reachable (detached st stg k [] {#pc#} {#} {#SWakeDriver#})"
  from run [OF sample_pushed, of 1 ?P 1 "Some (PLoop 1)"] have "?r 1 ?P 1 (PLoop 1)" by simp
  from run [OF this, of 2 ?P 1 "Some PBuildWaker"] have "?r 2 ?P 1 PBuildWaker" by simp
  from run [OF this, of 2 ?P 2 "Some PPoll"] have "?r 2 ?P 2 PPoll" by simp
  from run [OF this, of 2 ?P 2 "Some (PWriteOutput 42)"] have "?r 2 ?P 2 (PWriteOutput 42)" by simp
  from run [OF this, of 2 ?R 2 "Some PSetComplete"] have "?r 2 ?R 2 PSetComplete" by simp
  from run [OF this, of 6 ?R 2 "Some (PClearRunning 6)"] have "?r 6 ?R 2 (PClearRunning 6)" by simp
  from run [OF this, of 4 ?R 2 "Some (PFinish 6)"] have "?r 4 ?R 2 (PFinish 6)" by simp
  from run [OF this, of 4 StageEmpty 2 "Some PDropWaker"] have "?r 4 StageEmpty 2 PDropWaker" by simp
  from run [OF this, of 4 StageEmpty 1 "Some PDropArc"] show ?thesis by simp
qed

text \<open>
  Claim C37. The window is real: \<open>Spawner::schedule\<close> can read freed memory. There is a program with one worker and one
  task whose join handle was dropped, and an interleaving of it, in which the waker's last reference is
  pushed by \<open>wake\<close>, the worker pops the task, runs it to completion and frees it, and the waking thread, which
  has yet to ring the driver, then reads the \<open>Spawner\<close> of the freed task.
\<close>

theorem schedule_use_after_free:
  "\<exists>out_ty fut (w :: (unit, nat, string) world) p m. world_reachable out_ty fut 1 w \<and> \<not> shutdown (executor w) \<and>
     sched_calls w = {#(p, m, SWakeDriver)#} \<and> refs w p = no_refs \<and>
     sched_call False (p, m, SWakeDriver) w = Inl (DanglingPointer p)"
proof -
  let ?w = "detached 4 StageEmpty 1 [] {#PDropArc#} {#} {#SWakeDriver#}"
  let ?f = "(sample_world 4 StageEmpty 1 [] {#} JIdle)\<lparr>heap := Map.empty, sched_calls := {#(5, sample_mono, SWakeDriver)#}, handles := {#}\<rparr>"
  have "poll_call False False (sample_fut (fst (snd (5 :: addr, sample_mono, PDropArc :: (nat, string) poll_pc))) 0)
      (5, sample_mono, PDropArc) ?w = Inr ?f"
    by (simp add: poll_call_def typed_def header_def sample_world_def put_task_def drop_ref_def)
  from world_next [OF sample_finishing w_poll [where fut = sample_fut, OF _ _ this]]
  have "sample_reachable ?f" by (simp add: sample_world_def)
  moreover have "sched_call False (5, sample_mono, SWakeDriver) ?f = Inl (DanglingPointer 5)"
    by (simp add: sched_call_def typed_def header_def)
  moreover have "refs ?f 5 = no_refs" "\<not> shutdown (executor ?f)"
    by (simp_all add: refs_def sample_world_def sample_shared_def all_tasks_def local_tasks_def)
  ultimately show ?thesis by (intro exI [of _ sample_out_ty] exI [of _ sample_fut] exI [of _ ?f]) auto
qed

text \<open>
  Claim C16. A notification reaches the workers: a task that is notified and neither running nor complete,
  and on which no call is in flight, waits in the injector exactly once as long as the runtime is not shut
  down; whichever worker keeps taking turns, it polls this task after exactly the tasks queued before it.
\<close>

theorem notified_task_polled:
  assumes "world_reachable out_ty fut n w" and "heap w p = Some c"
    and "state (raw c) AND NOTIFIED \<noteq> 0" and "state (raw c) AND RUNNING = 0" and "state (raw c) AND COMPLETE = 0"
    and "at p (poll_calls w) = {#}" and "at p (sched_calls w) = {#}" and "\<not> shutdown (executor w)" and "i < n"
  shows "\<exists>before after sh rs'. injector (executor w) = before @ p # after \<and> p \<notin> set before \<and> p \<notin> set after \<and>
     deq_n (exec_deq i) (Suc (length before)) (executor w, rs) = (before @ [p], sh, rs') \<and> injector sh = after"
proof -
  note inv = world_reachable_inv [OF assms(1)]
  note d = world_invD [OF inv]
  have "cell_ok out_ty w p" using inv by (simp add: world_inv_def)
  then obtain f s where s: "task_reachable f s" "sim out_ty w p c s" using assms(2) by (auto simp: cell_ok_def)
  note v = simD [OF s(2)]
  have "inv_tokens s" using task_reachable_inv [OF s(1)] by (simp add: task_inv_def)
  moreover have "polls s = {#}" "\<forall>pc \<in># scheds s. \<not> holds_ref pc" using v(6,7) assms(6,7) by simp_all
  moreover have "sched_token pc = 0" if "\<not> holds_ref pc" for pc using that by (cases pc) simp_all
  ultimately have "tokens s = run_queue s" "inv_tokens s" by (simp_all add: tokens_def)
  then have "run_queue s = 1"
    using assms(3-5,8) v(2,9) unfolding inv_tokens_def by (auto simp: state_bits)
  then have one: "count (mset (injector (executor w))) p = 1" using v(4) d(1) by (simp add: all_tasks_injector)
  then have "p \<in> set (injector (executor w))" using count_inI [of "mset (injector (executor w))" p] by simp
  then obtain xs ys where q: "injector (executor w) = xs @ p # ys" by (auto dest: split_list)
  have e: "exec_inv i (executor w, rs)" using d assms(8,9) by (simp add: exec_inv_def)
  have "Suc (length xs) \<le> length ((injector \<circ> fst) (executor w, rs))" using q by simp
  from exec_q.deq_all [OF e this] obtain sh rs' where
    "deq_n (exec_deq i) (Suc (length xs)) (executor w, rs) = (xs @ [p], sh, rs')" "injector sh = ys"
    using q by auto
  moreover have "p \<notin> set xs" "p \<notin> set ys" using one q by (simp_all add: count_eq_zero_iff)
  ultimately show ?thesis using q by blast
qed

theorem notified_task_polled_witness:
  "\<exists>sh rs'. deq_n (exec_deq 0) 1 (sample_shared [5] 1, run_state_new 0) = ([5], sh, rs')"
proof -
  let ?w = "sample_world 9 (StagePending ()) 2 [5] {#} JIdle"
  let ?c = "\<lparr>inst = sample_mono, header_vtable = vtable sample_mono,
    raw = \<lparr>state = 9, join_waker = None, stage = StagePending (), strong = 2\<rparr>\<rparr> :: (unit, nat, string) raw_task"
  have h: "heap ?w 5 = Some ?c" "at 5 (poll_calls ?w) = {#}" "at 5 (sched_calls ?w) = {#}" "\<not> shutdown (executor ?w)"
    by (simp_all add: sample_world_def sample_shared_def)
  have b: "state (raw ?c) AND NOTIFIED \<noteq> 0" "state (raw ?c) AND RUNNING = 0" "state (raw ?c) AND COMPLETE = 0"
    by (simp_all add: state_bits bit_numeral_rec)
  obtain before after sh rs' where q: "injector (executor ?w) = before @ 5 # after"
    and deq: "deq_n (exec_deq 0) (Suc (length before)) (executor ?w, run_state_new 0) = (before @ [5], sh, rs')"
    using notified_task_polled [OF sample_spawned h(1) b h(2-4), of 0 "run_state_new 0"] by auto
  have "before = []" using q by (auto simp: sample_world_def sample_shared_def Cons_eq_append_conv)
  moreover have "executor ?w = sample_shared [5] 1" by (simp add: sample_world_def)
  ultimately show ?thesis using deq by (simp del: deq_n.simps)
qed

text \<open>
  Claim C8. Type soundness of the erased output: if futures return only values of their output type, a
  \<open>JoinHandle<T>\<close> always belongs to an allocation whose future has output type \<open>T\<close>, the value that the vtable
  writes into its \<open>MaybeUninit<T>\<close> has type \<open>T\<close>, and taking it never finds the cell empty.
\<close>

theorem join_output_typed:
  assumes "world_reachable out_ty fut n w" and "futures_typed vty out_ty fut" and "(p, T, pc) \<in># handles w"
  shows "(\<exists>c. heap w p = Some c \<and> T = out_ty (fut_ty (inst c))) \<and>
     (pc = JTake \<longrightarrow> (\<exists>w' out. take_output out_ty T p w = Inr (w', Some out) \<and> vty out = T)) \<and>
     (\<forall>out. pc = JReleaseTaken out \<longrightarrow> vty out = T)"
proof -
  note inv = world_reachable_inv [OF assms(1)] and ok = world_reachable_typed [OF assms(1,2)]
  have "\<exists>c. heap w p = Some c \<and> T = out_ty (fut_ty (inst c))"
    by (rule handle_live [OF inv assms(3)]) blast
  moreover have "\<exists>w' out. take_output out_ty T p w = Inr (w', Some out) \<and> vty out = T" if "pc = JTake"
    by (rule take_output_typed [OF ok inv assms(3) [unfolded that]]) blast
  moreover have "\<forall>out. pc = JReleaseTaken out \<longrightarrow> vty out = T" using ok assms(3) by (auto simp: outputs_typed_def)
  ultimately show ?thesis by blast
qed

theorem join_output_typed_witness:
  "\<exists>w'. take_output sample_out_ty 7 5 (sample_world 12 (StageReady 42) 3 [] {#PFinish 14#} JTake) = Inr (w', Some 42) \<and>
     sample_vty 42 = 7"
proof -
  let ?w = "sample_world 12 (StageReady 42) 3 [] {#PFinish 14#} JTake"
  have "(5, 7, JTake) \<in># handles ?w" by (simp add: sample_world_def)
  from join_output_typed [OF sample_taking sample_futures_typed this] obtain w' out where
    out: "take_output sample_out_ty 7 5 ?w = Inr (w', Some out)" "sample_vty out = 7" by blast
  moreover have "out = 42"
    using out(1) by (auto simp: take_output_def header_def typed_def vtable_def sample_world_def try_take_output_def
        sample_out_ty_def sample_mono_def split: if_splits)
  ultimately show ?thesis by blast
qed

end
