(* ===== verification/Slab.thy ===== *)
theory Slab
  imports Prelude
begin

text \<open>
  The slab of \<^verbatim>\<open>src/src/reactor/slab.rs\<close>: a vector of entries whose vacant ones form a linked free
  list. The slab is generic in the slot type, because the Linux and the Windows build have different
  slots; \<open>Slot::default()\<close> is then an argument of \<open>slab_insert\<close>. A \<open>usize\<close> is a natural number here;
  \<open>SENTINEL\<close> is \<open>usize::MAX\<close>, and \<open>Vec::push\<close> panics at the capacity limit of \<open>isize::MAX\<close> bytes.
\<close>

section \<open>The slab\<close>

datatype 's slab_entry = Vacant nat | Occupied 's

definition SENTINEL :: nat where
  "SENTINEL = 2 ^ 64 - 1"

definition VEC_CAPACITY :: nat where
  "VEC_CAPACITY = 2 ^ 63 - 1"

record 's slab =
  entries :: "'s slab_entry list"
  next_free :: nat

definition slab_new :: "'s slab" where
  "slab_new = \<lparr>entries = [], next_free = SENTINEL\<rparr>"

definition slab_insert :: "'s \<Rightarrow> 's slab \<Rightarrow> ('s slab \<times> nat) outcome" where
  "slab_insert dflt s =
     (if next_free s = SENTINEL
      then let key = length (entries s) in
           if key < VEC_CAPACITY
           then Inr (s\<lparr>entries := entries s @ [Occupied dflt]\<rparr>, key)
           else Inl (ExpectFailed ''capacity overflow'')
      else let key = next_free s in
           if key < length (entries s)
           then (case entries s ! key of
                   Vacant n \<Rightarrow> Inr (s\<lparr>next_free := n, entries := (entries s)[key := Occupied dflt]\<rparr>, key)
                 | Occupied _ \<Rightarrow> Inl (UnreachableCode ''free list pointed at occupied slot''))
           else Inl IndexOutOfBounds)"

definition slab_remove :: "'s slab \<Rightarrow> nat \<Rightarrow> 's slab" where
  "slab_remove s key =
     (if key < length (entries s)
      then (case entries s ! key of
              Vacant _ \<Rightarrow> s
            | Occupied _ \<Rightarrow> s\<lparr>entries := (entries s)[key := Vacant (next_free s)], next_free := key\<rparr>)
      else s)"

text \<open>\<open>get_mut\<close> hands out a mutable reference: \<open>slab_get\<close> reads through it, \<open>slab_put\<close> writes through it.\<close>

definition slab_get :: "'s slab \<Rightarrow> nat \<Rightarrow> 's option" where
  "slab_get s key =
     (if key < length (entries s)
      then (case entries s ! key of Occupied x \<Rightarrow> Some x | Vacant _ \<Rightarrow> None)
      else None)"

definition slab_put :: "'s slab \<Rightarrow> nat \<Rightarrow> 's \<Rightarrow> 's slab" where
  "slab_put s key x =
     (if slab_get s key \<noteq> None then s\<lparr>entries := (entries s)[key := Occupied x]\<rparr> else s)"

section \<open>Interface\<close>

text \<open>
  What the reactors rely on: a table of slots under numeric keys. Insertion chooses a key that is not
  in use and keeps every other slot; the other operations act like updates of a finite map.
\<close>

locale slot_table =
  fixes st_insert :: "'s \<Rightarrow> 't \<Rightarrow> ('t \<times> nat) outcome"
    and st_remove :: "'t \<Rightarrow> nat \<Rightarrow> 't"
    and st_get :: "'t \<Rightarrow> nat \<Rightarrow> 's option"
    and st_put :: "'t \<Rightarrow> nat \<Rightarrow> 's \<Rightarrow> 't"
    and st_inv :: "'t \<Rightarrow> bool"
    and st_room :: "'t \<Rightarrow> bool"
  assumes insert_spec: "st_inv t \<Longrightarrow> st_room t \<Longrightarrow>
      \<exists>t' k. st_insert x t = Inr (t', k) \<and> st_inv t' \<and> st_get t k = None \<and> k < 2 ^ 63 \<and>
             st_get t' = (st_get t)(k \<mapsto> x)"
    and remove_inv: "st_inv t \<Longrightarrow> st_inv (st_remove t k)"
    and get_remove: "st_get (st_remove t k) = (st_get t)(k := None)"
    and put_inv: "st_inv t \<Longrightarrow> st_inv (st_put t k x)"
    and get_put: "st_get (st_put t k x) = (if st_get t k = None then st_get t else (st_get t)(k \<mapsto> x))"
    and remove_room: "st_inv t \<Longrightarrow> st_get t k \<noteq> None \<Longrightarrow> st_room (st_remove t k)"
begin

lemma insertE:
  assumes "st_inv t" and "st_room t"
  obtains t' k where "st_insert x t = Inr (t', k)" and "st_inv t'" and "st_get t k = None"
    and "k < 2 ^ 63" and "st_get t' = (st_get t)(k \<mapsto> x)"
  using insert_spec [OF assms] by blast

lemma insert_keeps:
  assumes "st_inv t" and "st_room t" and "st_insert x t = Inr (t', k)" and "st_get t j \<noteq> None"
  shows "j \<noteq> k \<and> st_get t' j = st_get t j"
  using insert_spec [OF assms(1,2), of x] assms(3,4) by auto

lemma remove_insert_room:
  assumes "st_inv t" and "st_get t k \<noteq> None"
  obtains t' j where "st_insert x (st_remove t k) = Inr (t', j)" and "st_inv t'"
  using insert_spec [OF remove_inv [OF assms(1)] remove_room [OF assms], of x] by blast

lemma put_twice: "st_get (st_put (st_put t k x) k y) = st_get (st_put t k y)"
  by (simp add: get_put)

end

section \<open>Invariant: the free list threads exactly the vacant entries\<close>

fun free_chain :: "'s slab_entry list \<Rightarrow> nat \<Rightarrow> nat list \<Rightarrow> bool" where
  "free_chain es n [] \<longleftrightarrow> n = SENTINEL"
| "free_chain es n (k # ks) \<longleftrightarrow>
     n = k \<and> k < length es \<and> (case es ! k of Vacant m \<Rightarrow> free_chain es m ks | Occupied _ \<Rightarrow> False)"

definition vacant_keys :: "'s slab_entry list \<Rightarrow> nat set" where
  "vacant_keys es = {k. k < length es \<and> (\<exists>m. es ! k = Vacant m)}"

definition slab_inv :: "'s slab \<Rightarrow> bool" where
  "slab_inv s \<longleftrightarrow> length (entries s) \<le> VEC_CAPACITY \<and>
     (\<exists>ks. free_chain (entries s) (next_free s) ks \<and> distinct ks \<and> set ks = vacant_keys (entries s))"

definition slab_room :: "'s slab \<Rightarrow> bool" where
  "slab_room s \<longleftrightarrow> length (entries s) < VEC_CAPACITY \<or> next_free s \<noteq> SENTINEL"

lemma SENTINEL_bound: "n \<le> VEC_CAPACITY \<Longrightarrow> n \<noteq> SENTINEL" "n < VEC_CAPACITY \<Longrightarrow> n < 2 ^ 63"
  by (simp_all add: VEC_CAPACITY_def SENTINEL_def)

lemma free_chain_update: "k \<notin> set ks \<Longrightarrow> free_chain (es[k := e]) n ks = free_chain es n ks"
  by (induction ks arbitrary: n) (auto split: slab_entry.splits)

lemma free_chain_append: "free_chain es n ks \<Longrightarrow> free_chain (es @ [e]) n ks"
  by (induction ks arbitrary: n) (auto simp: nth_append split: slab_entry.splits)

lemma vacant_keys_append: "vacant_keys (es @ [Occupied x]) = vacant_keys es"
  by (auto simp: vacant_keys_def nth_append less_Suc_eq)

lemma vacant_keys_occupy: "vacant_keys (es[k := Occupied x]) = vacant_keys es - {k}"
proof -
  have "k' \<in> vacant_keys (es[k := Occupied x]) \<longleftrightarrow> k' \<in> vacant_keys es - {k}" for k'
    by (cases "k' = k") (auto simp: vacant_keys_def)
  then show ?thesis by blast
qed

lemma vacant_keys_vacate: "k < length es \<Longrightarrow> vacant_keys (es[k := Vacant n]) = insert k (vacant_keys es)"
  by (auto simp: vacant_keys_def nth_list_update)

lemma slab_new_inv: "slab_inv slab_new"
  by (auto simp: slab_inv_def slab_new_def vacant_keys_def intro: exI [of _ "[]"])

lemma slab_get_vacant: "slab_get s k = None \<longleftrightarrow> k \<ge> length (entries s) \<or> k \<in> vacant_keys (entries s)"
  by (auto simp: slab_get_def vacant_keys_def split: slab_entry.splits)

lemma slab_insert_spec:
  assumes "slab_inv s" and "slab_room s"
  shows "\<exists>s' k. slab_insert x s = Inr (s', k) \<and> slab_inv s' \<and> slab_get s k = None \<and> k < 2 ^ 63 \<and>
     slab_get s' = (slab_get s)(k \<mapsto> x)"
proof -
  obtain ks where len: "length (entries s) \<le> VEC_CAPACITY"
    and ks: "free_chain (entries s) (next_free s) ks" "distinct ks" "set ks = vacant_keys (entries s)"
    using assms(1) by (auto simp: slab_inv_def)
  show ?thesis
  proof (cases "next_free s = SENTINEL")
    case True
    let ?k = "length (entries s)" and ?s = "s\<lparr>entries := entries s @ [Occupied x]\<rparr>"
    have room: "?k < VEC_CAPACITY" using assms(2) True by (simp add: slab_room_def)
    have "slab_inv ?s"
      using ks room free_chain_append [OF ks(1)] by (auto simp: slab_inv_def vacant_keys_append)
    moreover have "slab_get ?s = (slab_get s)(?k \<mapsto> x)"
      by (auto simp: slab_get_def fun_eq_iff nth_append less_Suc_eq)
    moreover have "slab_get s ?k = None" by (simp add: slab_get_def)
    ultimately show ?thesis using True room SENTINEL_bound(2) [OF room]
      by (auto simp: slab_insert_def)
  next
    case False
    then obtain k ks' where k: "ks = k # ks'" using ks(1) by (cases ks) auto
    then obtain m where m: "next_free s = k" "k < length (entries s)" "entries s ! k = Vacant m"
        "free_chain (entries s) m ks'" using ks(1) by (auto split: slab_entry.splits)
    let ?s = "s\<lparr>next_free := m, entries := (entries s)[k := Occupied x]\<rparr>"
    have "free_chain (entries ?s) (next_free ?s) ks'" using m(4) k ks(2) by (simp add: free_chain_update)
    moreover have "set ks' = vacant_keys (entries ?s)"
      using ks(2,3) k by (auto simp: vacant_keys_occupy)
    ultimately have "slab_inv ?s" using ks(2) k len by (auto simp: slab_inv_def)
    moreover have "slab_get ?s = (slab_get s)(k \<mapsto> x)"
      using m(2) by (auto simp: slab_get_def fun_eq_iff nth_list_update)
    moreover have "slab_get s k = None" using m by (simp add: slab_get_def)
    moreover have "k < 2 ^ 63" using m(2) len by (simp add: VEC_CAPACITY_def)
    ultimately show ?thesis using m False by (auto simp: slab_insert_def)
  qed
qed

lemma slab_remove_inv:
  assumes "slab_inv s"
  shows "slab_inv (slab_remove s k)"
proof (cases "slab_get s k")
  case None
  then show ?thesis using assms by (auto simp: slab_remove_def slab_get_def split: slab_entry.splits)
next
  case (Some x)
  then have k: "k < length (entries s)" "entries s ! k = Occupied x"
    by (auto simp: slab_get_def split: if_splits slab_entry.splits)
  obtain ks where ks: "free_chain (entries s) (next_free s) ks" "distinct ks"
      "set ks = vacant_keys (entries s)" and len: "length (entries s) \<le> VEC_CAPACITY"
    using assms by (auto simp: slab_inv_def)
  have new: "k \<notin> set ks" using k(2) ks(3) by (simp add: vacant_keys_def)
  let ?es = "(entries s)[k := Vacant (next_free s)]"
  have "free_chain ?es k (k # ks)" using k(1) ks(1) new by (simp add: free_chain_update)
  moreover have "set (k # ks) = vacant_keys ?es" using ks(3) k(1) by (simp add: vacant_keys_vacate)
  ultimately have "slab_inv (s\<lparr>entries := ?es, next_free := k\<rparr>)"
    using ks(2) new len k(1) unfolding slab_inv_def by (intro conjI exI [of _ "k # ks"]) simp_all
  then show ?thesis using k by (simp add: slab_remove_def)
qed

lemma slab_get_remove: "slab_get (slab_remove s k) = (slab_get s)(k := None)"
  by (auto simp: slab_get_def slab_remove_def fun_eq_iff nth_list_update split: slab_entry.splits)

lemma slab_put_inv:
  assumes "slab_inv s"
  shows "slab_inv (slab_put s k x)"
proof (cases "slab_get s k = None")
  case False
  then have k: "k \<notin> vacant_keys (entries s)" by (simp add: slab_get_vacant)
  obtain ks where ks: "free_chain (entries s) (next_free s) ks" "distinct ks"
      "set ks = vacant_keys (entries s)" and len: "length (entries s) \<le> VEC_CAPACITY"
    using assms by (auto simp: slab_inv_def)
  have "free_chain ((entries s)[k := Occupied x]) (next_free s) ks"
    using ks k by (simp add: free_chain_update)
  then show ?thesis using False ks len k
    by (auto simp: slab_put_def slab_inv_def vacant_keys_occupy)
qed (use assms in \<open>simp add: slab_put_def\<close>)

lemma slab_get_put:
  "slab_get (slab_put s k x) = (if slab_get s k = None then slab_get s else (slab_get s)(k \<mapsto> x))"
  by (auto simp: slab_put_def slab_get_def fun_eq_iff nth_list_update split: if_splits)

lemma slab_remove_room:
  assumes "slab_inv s" and "slab_get s k \<noteq> None"
  shows "slab_room (slab_remove s k)"
proof -
  have "k < length (entries s)" using assms(2) by (auto simp: slab_get_def split: if_splits)
  then have "k \<noteq> SENTINEL" using assms(1) SENTINEL_bound(1) [of k] by (auto simp: slab_inv_def)
  then show ?thesis using assms(2)
    by (auto simp: slab_room_def slab_remove_def slab_get_def split: slab_entry.splits if_splits)
qed

interpretation slab_st: slot_table slab_insert slab_remove slab_get slab_put slab_inv slab_room
  by (unfold_locales; rule slab_insert_spec slab_remove_inv slab_get_remove slab_put_inv slab_get_put
      slab_remove_room; assumption)

lemma slab_reuse:
  assumes "slab_inv s" and "slab_get s k \<noteq> None"
  shows "\<exists>s'. slab_insert x (slab_remove s k) = Inr (s', k)"
proof -
  have k: "k < length (entries s)" "k \<noteq> SENTINEL"
    using assms SENTINEL_bound(1) [of k]
    by (auto simp: slab_inv_def slab_get_def split: if_splits)
  then show ?thesis using assms(2)
    by (auto simp: slab_insert_def slab_remove_def slab_get_def split: slab_entry.splits)
qed

section \<open>Properties of the slab\<close>

text \<open>Every slab a reactor can build up.\<close>

inductive slab_reachable :: "'s slab \<Rightarrow> bool" where
  reach_slab_new: "slab_reachable slab_new"
| reach_slab_insert: "slab_reachable s \<Longrightarrow> slab_insert x s = Inr (s', k) \<Longrightarrow> slab_reachable s'"
| reach_slab_remove: "slab_reachable s \<Longrightarrow> slab_reachable (slab_remove s k)"
| reach_slab_put: "slab_reachable s \<Longrightarrow> slab_reachable (slab_put s k x)"

lemma slab_insert_room: "slab_insert x s = Inr r \<Longrightarrow> slab_room s"
  by (auto simp: slab_insert_def slab_room_def Let_def split: if_splits)

lemma slab_reachable_inv: "slab_reachable s \<Longrightarrow> slab_inv s"
proof (induction rule: slab_reachable.induct)
  case (reach_slab_insert s x s' k)
  then show ?case using slab_insert_spec [of s x] slab_insert_room [of x s] by auto
qed (simp_all add: slab_new_inv slab_remove_inv slab_put_inv)

text \<open>
  Claim C29. In every slab reached by inserts, removals and slot updates, inserting returns as long
  as the vector can grow or a vacant entry exists: the key is not in use, no live slot changes, the
  panic branches (a free list that points outside the vector or at an occupied entry) are not taken,
  and a removed key is the next one handed out.
\<close>

theorem slab_insert_fresh:
  assumes "slab_reachable s" and "slab_room s"
  shows "(\<exists>s' k. slab_insert x s = Inr (s', k) \<and> slab_get s k = None \<and>
            slab_get s' = (slab_get s)(k \<mapsto> x) \<and> slab_get (slab_remove s' k) = slab_get s) \<and>
         (\<forall>k. slab_get s k \<noteq> None \<longrightarrow> (\<exists>s'. slab_insert x (slab_remove s k) = Inr (s', k)))"
proof (rule conjI)
  have inv: "slab_inv s" by (rule slab_reachable_inv [OF assms(1)])
  obtain s' k where "slab_insert x s = Inr (s', k)" "slab_get s k = None"
      "slab_get s' = (slab_get s)(k \<mapsto> x)"
    by (rule slab_st.insertE [OF inv assms(2)])
  moreover from this have "slab_get (slab_remove s' k) = slab_get s"
    by (auto simp: slab_get_remove fun_eq_iff)
  ultimately show "\<exists>s' k. slab_insert x s = Inr (s', k) \<and> slab_get s k = None \<and>
            slab_get s' = (slab_get s)(k \<mapsto> x) \<and> slab_get (slab_remove s' k) = slab_get s" by blast
  show "\<forall>k. slab_get s k \<noteq> None \<longrightarrow> (\<exists>s'. slab_insert x (slab_remove s k) = Inr (s', k))"
    using slab_reuse [OF inv] by blast
qed

theorem slab_insert_fresh_witness:
  "\<exists>s'. slab_insert ''x'' (slab_new :: string slab) = Inr (s', 0) \<and> slab_get s' 0 = Some ''x''"
proof -
  have r: "slab_room (slab_new :: string slab)"
    by (simp add: slab_room_def slab_new_def VEC_CAPACITY_def)
  obtain s' k where "slab_insert ''x'' slab_new = Inr (s', k)" "slab_get s' = (slab_get slab_new)(k \<mapsto> ''x'')"
    using slab_insert_fresh [OF reach_slab_new r, of "''x''"] by blast
  moreover from this(1) have "k = 0" by (auto simp: slab_insert_def slab_new_def Let_def split: if_splits)
  ultimately show ?thesis by auto
qed

end
