(* ===== verification/Reactor.thy ===== *)
theory Reactor
  imports Slab
begin

text \<open>
  The Linux reactor: \<^verbatim>\<open>src/src/reactor/mod.rs\<close>, \<^verbatim>\<open>src/src/reactor/linux.rs\<close> and the system call
  wrappers \<^verbatim>\<open>src/src/sys/linux/epoll.rs\<close> and \<^verbatim>\<open>src/src/sys/linux/eventfd.rs\<close>; and the condition-variable reactor of
  \<^verbatim>\<open>src/src/reactor/fallback.rs\<close>. The system calls and the constants of libc are not part of the
  repository: they are the fields of a record \<open>linux_sys\<close> that every operation takes, over a kernel
  state it threads through. A call returns its result code and the \<open>errno\<close> it left behind.
\<close>

unbundle bit_operations_syntax

section \<open>System calls\<close>

record 'k linux_sys =
  sys_epoll_create1 :: "int \<Rightarrow> 'k \<Rightarrow> 'k \<times> int \<times> int"
  sys_epoll_ctl :: "int \<Rightarrow> int \<Rightarrow> int \<Rightarrow> (u32 \<times> u64) option \<Rightarrow> 'k \<Rightarrow> 'k \<times> int \<times> int"
  sys_epoll_wait :: "int \<Rightarrow> nat \<Rightarrow> int \<Rightarrow> 'k \<Rightarrow> 'k \<times> int \<times> int \<times> (u32 \<times> u64) list"
  sys_eventfd :: "int \<Rightarrow> int \<Rightarrow> 'k \<Rightarrow> 'k \<times> int \<times> int"
  sys_write :: "int \<Rightarrow> u64 \<Rightarrow> 'k \<Rightarrow> 'k \<times> int \<times> int"
  sys_read :: "int \<Rightarrow> 'k \<Rightarrow> 'k \<times> int \<times> int"
  EPOLL_CLOEXEC :: int
  EFD_FLAGS :: int
  EPOLL_CTL_ADD :: int
  EPOLL_CTL_DEL :: int
  EPOLLIN :: u32
  EPOLLOUT :: u32
  EPOLLERR :: u32
  EPOLLHUP :: u32
  EINTR :: int
  EAGAIN :: int

record event =
  ev_token :: u64
  ev_ready :: u32

definition epoll_create :: "'k linux_sys \<Rightarrow> 'k \<Rightarrow> 'k \<times> (int, io_error) result" where
  "epoll_create sys k =
     (let (k', raw, errno) = sys_epoll_create1 sys (EPOLL_CLOEXEC sys) k in
      (k', if raw < 0 then Err (OsError errno) else Ok raw))"

definition epoll_ctl ::
  "'k linux_sys \<Rightarrow> int \<Rightarrow> int \<Rightarrow> int \<Rightarrow> u64 \<Rightarrow> u32 \<Rightarrow> 'k \<Rightarrow> 'k \<times> (unit, io_error) result" where
  "epoll_ctl sys epfd fd op token events k =
     (let ev = if op = EPOLL_CTL_DEL sys then None else Some (events, token);
          (k', rc, errno) = sys_epoll_ctl sys epfd op fd ev k in
      (k', if rc < 0 then Err (OsError errno) else Ok ()))"

definition epoll_add ::
  "'k linux_sys \<Rightarrow> int \<Rightarrow> int \<Rightarrow> u64 \<Rightarrow> u32 \<Rightarrow> 'k \<Rightarrow> 'k \<times> (unit, io_error) result" where
  "epoll_add sys epfd fd token events = epoll_ctl sys epfd fd (EPOLL_CTL_ADD sys) token events"

definition epoll_delete :: "'k linux_sys \<Rightarrow> int \<Rightarrow> int \<Rightarrow> 'k \<Rightarrow> 'k \<times> (unit, io_error) result" where
  "epoll_delete sys epfd fd = epoll_ctl sys epfd fd (EPOLL_CTL_DEL sys) 0 0"

definition MAX_EVENTS_PER_WAIT :: nat where
  "MAX_EVENTS_PER_WAIT = 64"

text \<open>
  \<open>wait\<close> fills the front of the caller's buffer of \<open>out_len\<close> events and returns the count. The kernel
  writes into a local buffer of 64 entries, of which the first \<open>count\<close> are copied.
\<close>

definition epoll_wait ::
  "'k linux_sys \<Rightarrow> int \<Rightarrow> nat \<Rightarrow> int \<Rightarrow> 'k \<Rightarrow> 'k \<times> (event list \<times> nat, io_error) result" where
  "epoll_wait sys epfd out_len timeout_ms k =
     (if out_len = 0 then (k, Ok ([], 0))
      else let cap = min out_len MAX_EVENTS_PER_WAIT;
               (k', rc, errno, buf) = sys_epoll_wait sys epfd cap timeout_ms k in
        if rc < 0 then (if errno = EINTR sys then (k', Ok ([], 0)) else (k', Err (OsError errno)))
        else let count = nat rc in
          (k', Ok (map (\<lambda>(events, token). \<lparr>ev_token = token, ev_ready = events\<rparr>) 
             (take (min count out_len) (buf @ replicate MAX_EVENTS_PER_WAIT (0, 0))), count)))"

definition eventfd_create :: "'k linux_sys \<Rightarrow> 'k \<Rightarrow> 'k \<times> (int, io_error) result" where
  "eventfd_create sys k =
     (let (k', raw, errno) = sys_eventfd sys 0 (EFD_FLAGS sys) k in
      (k', if raw < 0 then Err (OsError errno) else Ok raw))"

definition eventfd_write :: "'k linux_sys \<Rightarrow> int \<Rightarrow> 'k \<Rightarrow> 'k \<times> (unit, io_error) result" where
  "eventfd_write sys fd k =
     (let (k', rc, errno) = sys_write sys fd 1 k in
      (k', if rc < 0 then (if errno = EAGAIN sys then Ok () else Err (OsError errno)) else Ok ()))"

definition eventfd_drain :: "'k linux_sys \<Rightarrow> int \<Rightarrow> 'k \<Rightarrow> 'k \<times> (unit, io_error) result" where
  "eventfd_drain sys fd k =
     (let (k', rc, errno) = sys_read sys fd k in
      (k', if rc < 0 then (if errno = EAGAIN sys then Ok () else Err (OsError errno)) else Ok ()))"

section \<open>The reactor\<close>

datatype direction = Read | Write

record interest =
  want_read :: bool
  want_write :: bool

definition interest_READ :: interest where "interest_READ = \<lparr>want_read = True, want_write = False\<rparr>"
definition interest_WRITE :: interest where "interest_WRITE = \<lparr>want_read = False, want_write = True\<rparr>"
definition interest_READ_WRITE :: interest where "interest_READ_WRITE = \<lparr>want_read = True, want_write = True\<rparr>"

record 'w slot =
  slot_read :: "'w option"
  slot_write :: "'w option"

definition slot_default :: "'w slot" where
  "slot_default = \<lparr>slot_read = None, slot_write = None\<rparr>"

record 'w inner =
  slots :: "'w slot slab"
  epfd :: int
  waker_fd :: int

definition SELF_WAKE_TOKEN :: u64 where
  "SELF_WAKE_TOKEN = 0"

definition inner_new :: "'k linux_sys \<Rightarrow> 'k \<Rightarrow> 'k \<times> ('w inner, io_error) result" where
  "inner_new sys k =
     (case epoll_create sys k of
        (k1, Err e) \<Rightarrow> (k1, Err e)
      | (k1, Ok ep) \<Rightarrow>
          (case eventfd_create sys k1 of
             (k2, Err e) \<Rightarrow> (k2, Err e)
           | (k2, Ok wfd) \<Rightarrow>
               (case epoll_add sys ep wfd SELF_WAKE_TOKEN (EPOLLIN sys) k2 of
                  (k3, Err e) \<Rightarrow> (k3, Err e)
                | (k3, Ok _) \<Rightarrow> (k3, Ok \<lparr>slots = slab_new, epfd = ep, waker_fd = wfd\<rparr>))))"

text \<open>A duration is a number of nanoseconds; \<open>as_millis\<close> rounds down.\<close>

definition poll_timeout_ms :: "nat option \<Rightarrow> int" where
  "poll_timeout_ms timeout =
     (case timeout of
        None \<Rightarrow> - 1
      | Some d \<Rightarrow> let ms = d div 1000000 in if ms < 2 ^ 31 then int ms else 2 ^ 31 - 1)"

definition ev_readable :: "'k linux_sys \<Rightarrow> event \<Rightarrow> bool" where
  "ev_readable sys ev \<longleftrightarrow>
     ev_ready ev AND EPOLLIN sys \<noteq> 0 \<or> ev_ready ev AND (EPOLLERR sys OR EPOLLHUP sys) \<noteq> 0"

definition ev_writable :: "'k linux_sys \<Rightarrow> event \<Rightarrow> bool" where
  "ev_writable sys ev \<longleftrightarrow>
     ev_ready ev AND EPOLLOUT sys \<noteq> 0 \<or> ev_ready ev AND (EPOLLERR sys OR EPOLLHUP sys) \<noteq> 0"

text \<open>What one readiness event takes out of a slot, and what it leaves.\<close>

definition slot_fire :: "'k linux_sys \<Rightarrow> event \<Rightarrow> 'w slot \<Rightarrow> 'w slot \<times> 'w list" where
  "slot_fire sys ev s =
     (let (s1, ws1) = (if ev_readable sys ev
                       then (s\<lparr>slot_read := None\<rparr>, case slot_read s of Some w \<Rightarrow> [w] | None \<Rightarrow> [])
                       else (s, []));
          (s2, ws2) = (if ev_writable sys ev
                       then (s1\<lparr>slot_write := None\<rparr>, case slot_write s1 of Some w \<Rightarrow> [w] | None \<Rightarrow> [])
                       else (s1, []))
      in (s2, ws1 @ ws2))"

text \<open>The loop over the events, under the slab's lock; \<open>?\<close> on the drain leaves the loop and the function.\<close>

fun dispatch ::
  "'k linux_sys \<Rightarrow> int \<Rightarrow> event list \<Rightarrow> 'w slot slab \<Rightarrow> 'w list \<Rightarrow> 'k \<Rightarrow>
     'k \<times> 'w slot slab \<times> ('w list, io_error) result" where
  "dispatch sys wfd [] sl to_wake k = (k, sl, Ok to_wake)"
| "dispatch sys wfd (ev # evs) sl to_wake k =
     (if ev_token ev = SELF_WAKE_TOKEN
      then (case eventfd_drain sys wfd k of
              (k', Err e) \<Rightarrow> (k', sl, Err e)
            | (k', Ok _) \<Rightarrow> dispatch sys wfd evs sl to_wake k')
      else let key = unat (ev_token ev - 1) in
        (case slab_get sl key of
           None \<Rightarrow> dispatch sys wfd evs sl to_wake k
         | Some s \<Rightarrow> let (s', ws) = slot_fire sys ev s in
             dispatch sys wfd evs (slab_put sl key s') (to_wake @ ws) k))"

definition inner_poll ::
  "'k linux_sys \<Rightarrow> 'w inner \<Rightarrow> nat option \<Rightarrow> 'k \<Rightarrow> ('k \<times> 'w inner \<times> ('w list, io_error) result) outcome" where
  "inner_poll sys r timeout k =
     (case epoll_wait sys (epfd r) MAX_EVENTS_PER_WAIT (poll_timeout_ms timeout) k of
        (k1, Err e) \<Rightarrow> Inr (k1, r, Err e)
      | (k1, Ok (evs, n)) \<Rightarrow>
          if n = 0 then Inr (k1, r, Ok [])
          else if n > MAX_EVENTS_PER_WAIT then Inl IndexOutOfBounds
          else let (k2, sl, res) = dispatch sys (waker_fd r) evs (slots r) [] k1 in
            Inr (k2, r\<lparr>slots := sl\<rparr>, res))"

definition inner_wake :: "'k linux_sys \<Rightarrow> 'w inner \<Rightarrow> 'k \<Rightarrow> 'k \<times> (unit, io_error) result" where
  "inner_wake sys r k = eventfd_write sys (waker_fd r) k"

definition interest_events :: "'k linux_sys \<Rightarrow> interest \<Rightarrow> u32" where
  "interest_events sys i =
     (let e0 = 0; e1 = (if want_read i then e0 OR EPOLLIN sys else e0) in
      if want_write i then e1 OR EPOLLOUT sys else e1)"

definition token_of_key :: "nat \<Rightarrow> u64 outcome" where
  "token_of_key key =
     (if key \<ge> 2 ^ 64 then Inl (ExpectFailed ''slab key fits in u64'')
      else if key + 1 \<ge> 2 ^ 64 then Inl (ExpectFailed ''slab key under u64::MAX'')
      else Inr (of_nat key + 1))"

definition inner_register ::
  "'k linux_sys \<Rightarrow> 'w inner \<Rightarrow> int \<Rightarrow> interest \<Rightarrow> 'k \<Rightarrow> ('k \<times> 'w inner \<times> (u64, io_error) result) outcome" where
  "inner_register sys r fd i k =
     obind (slab_insert slot_default (slots r)) (\<lambda>(sl, key).
     obind (token_of_key key) (\<lambda>token.
       case epoll_add sys (epfd r) fd token (interest_events sys i) k of
         (k', Err e) \<Rightarrow> Inr (k', r\<lparr>slots := slab_remove sl key\<rparr>, Err e)
       | (k', Ok _) \<Rightarrow> Inr (k', r\<lparr>slots := sl\<rparr>, Ok token)))"

fun slot_set :: "direction \<Rightarrow> 'w \<Rightarrow> 'w slot \<Rightarrow> 'w slot" where
  "slot_set Read w s = s\<lparr>slot_read := Some w\<rparr>"
| "slot_set Write w s = s\<lparr>slot_write := Some w\<rparr>"

definition inner_set_waker :: "'w inner \<Rightarrow> u64 \<Rightarrow> direction \<Rightarrow> 'w \<Rightarrow> 'w inner" where
  "inner_set_waker r token d w =
     (if token = 0 then r
      else let key = unat (token - 1) in
        case slab_get (slots r) key of
          Some s \<Rightarrow> r\<lparr>slots := slab_put (slots r) key (slot_set d w s)\<rparr>
        | None \<Rightarrow> r)"

definition inner_deregister ::
  "'k linux_sys \<Rightarrow> 'w inner \<Rightarrow> int \<Rightarrow> u64 \<Rightarrow> 'k \<Rightarrow> 'k \<times> 'w inner \<times> (unit, io_error) result" where
  "inner_deregister sys r fd token k =
     (if token = 0 then (k, r, Ok ())
      else let key = unat (token - 1) in
        case epoll_delete sys (epfd r) fd k of
          (k', Err e) \<Rightarrow> (k', r, Err e)
        | (k', Ok _) \<Rightarrow> (k', r\<lparr>slots := slab_remove (slots r) key\<rparr>, Ok ()))"

section \<open>Dispatching events\<close>

definition opt_list :: "'w option \<Rightarrow> 'w list" where
  "opt_list x = (case x of Some w \<Rightarrow> [w] | None \<Rightarrow> [])"

lemma opt_list_simps [simp]: "opt_list None = []" "opt_list (Some w) = [w]"
  by (simp_all add: opt_list_def)

lemma slot_fire_eq:
  "slot_fire sys ev s =
     (s\<lparr>slot_read := if ev_readable sys ev then None else slot_read s,
        slot_write := if ev_writable sys ev then None else slot_write s\<rparr>,
      (if ev_readable sys ev then opt_list (slot_read s) else []) @
      (if ev_writable sys ev then opt_list (slot_write s) else []))"
  by (cases s) (simp add: slot_fire_def opt_list_def)

abbreviation ev_key :: "event \<Rightarrow> nat" where
  "ev_key ev \<equiv> unat (ev_token ev - 1)"

abbreviation io_event :: "event \<Rightarrow> bool" where
  "io_event ev \<equiv> ev_token ev \<noteq> SELF_WAKE_TOKEN"

text \<open>
  Reference, stated apart from the code's own tests and takes: an event makes a direction ready when it has the
  direction's bit or one of the error and hang-up bits, and what it wakes is what is parked on the directions it
  makes ready, the reader before the writer.
\<close>

fun ready_mask :: "'k linux_sys \<Rightarrow> direction \<Rightarrow> u32" where
  "ready_mask sys Read = EPOLLIN sys OR EPOLLERR sys OR EPOLLHUP sys"
| "ready_mask sys Write = EPOLLOUT sys OR EPOLLERR sys OR EPOLLHUP sys"

definition dir_ready :: "'k linux_sys \<Rightarrow> event \<Rightarrow> direction \<Rightarrow> bool" where
  "dir_ready sys ev d \<longleftrightarrow> ev_ready ev AND ready_mask sys d \<noteq> 0"

definition key_ready :: "'k linux_sys \<Rightarrow> event list \<Rightarrow> nat \<Rightarrow> direction \<Rightarrow> bool" where
  "key_ready sys evs key d \<longleftrightarrow> (\<exists>ev \<in> set evs. io_event ev \<and> ev_key ev = key \<and> dir_ready sys ev d)"

fun parked_on :: "'w slot \<Rightarrow> direction \<Rightarrow> 'w option" where
  "parked_on s Read = slot_read s"
| "parked_on s Write = slot_write s"

definition slot_after :: "'k linux_sys \<Rightarrow> event list \<Rightarrow> nat \<Rightarrow> 'w slot \<Rightarrow> 'w slot" where
  "slot_after sys evs key s =
     s\<lparr>slot_read := if key_ready sys evs key Read then None else slot_read s,
       slot_write := if key_ready sys evs key Write then None else slot_write s\<rparr>"

definition fired_by :: "'k linux_sys \<Rightarrow> 'w slot slab \<Rightarrow> event \<Rightarrow> 'w list" where
  "fired_by sys sl ev =
     (if io_event ev
      then case slab_get sl (ev_key ev) of
             None \<Rightarrow> []
           | Some s \<Rightarrow> concat (map (\<lambda>d. opt_list (parked_on s d)) (filter (dir_ready sys ev) [Read, Write]))
      else [])"

lemma and_or3: "x AND (a OR b OR c) \<noteq> 0 \<longleftrightarrow> x AND a \<noteq> 0 \<or> x AND (b OR c) \<noteq> 0" for x a b c :: u32
  by (simp add: bit.conj_disj_distrib or_eq_0_iff)

lemma dir_ready_eq: "dir_ready sys ev Read = ev_readable sys ev" "dir_ready sys ev Write = ev_writable sys ev"
  unfolding dir_ready_def ready_mask.simps and_or3 ev_readable_def ev_writable_def by simp_all

lemma fired_by_Some:
  "io_event ev \<Longrightarrow> slab_get sl (ev_key ev) = Some s \<Longrightarrow> fired_by sys sl ev = snd (slot_fire sys ev s)"
  by (simp add: fired_by_def slot_fire_eq dir_ready_eq)

lemmas slot_after_defs = slot_after_def key_ready_def dir_ready_eq

lemma slot_after_Nil [simp]: "slot_after sys [] key s = s"
  by (simp add: slot_after_defs)

lemma slot_after_other: "io_event ev \<longrightarrow> ev_key ev \<noteq> key \<Longrightarrow> slot_after sys (ev # evs) key s = slot_after sys evs key s"
  by (auto simp: slot_after_defs)

lemma slot_after_fire:
  "io_event ev \<Longrightarrow> slot_after sys (ev # evs) (ev_key ev) s = slot_after sys evs (ev_key ev) (fst (slot_fire sys ev s))"
  by (cases s) (auto simp: slot_after_defs slot_fire_eq)

lemma slot_fire_of_after: "set (snd (slot_fire sys ev s)) \<subseteq> set (opt_list (slot_read s)) \<union> set (opt_list (slot_write s))"
  by (auto simp: slot_fire_eq)

lemma slab_get_fire:
  "slab_get sl (ev_key ev) = Some s \<Longrightarrow>
     slab_get (slab_put sl (ev_key ev) (fst (slot_fire sys ev s))) =
     (slab_get sl)(ev_key ev \<mapsto> fst (slot_fire sys ev s))"
  by (simp add: slab_st.get_put)

lemma fired_by_other_token:
  assumes "slab_get sl (ev_key ev) = Some s" and "io_event ev"
    and "distinct (map ev_token (filter io_event (ev # evs)))"
  shows "map (fired_by sys (slab_put sl (ev_key ev) (fst (slot_fire sys ev s)))) evs = map (fired_by sys sl) evs"
proof (rule map_cong [OF refl])
  fix x assume "x \<in> set evs"
  show "fired_by sys (slab_put sl (ev_key ev) (fst (slot_fire sys ev s))) x = fired_by sys sl x"
  proof (cases "io_event x")
    case True
    then have "ev_token x \<in> set (map ev_token (filter io_event evs))" using \<open>x \<in> set evs\<close> by simp
    then have "ev_token x \<noteq> ev_token ev" using assms(2,3) by auto
    then have "ev_token x - 1 \<noteq> ev_token ev - 1" by simp
    then have "ev_key x \<noteq> ev_key ev" by (simp only: word_unat_eq_iff [symmetric] not_False_eq_True)
    then show ?thesis using slab_get_fire [OF assms(1), of sys] by (simp add: fired_by_def)
  qed (simp add: fired_by_def)
qed

lemma slot_after_no_slot:
  "\<not> io_event ev \<or> slab_get sl (ev_key ev) = None \<Longrightarrow>
     map_option (slot_after sys (ev # evs) key) (slab_get sl key) =
     map_option (slot_after sys evs key) (slab_get sl key)"
  by (cases "slab_get sl key"; cases "ev_key ev = key") (auto simp: slot_after_other)

lemma slot_after_put:
  assumes "slab_get sl (ev_key ev) = Some s" and "io_event ev"
  shows "map_option (slot_after sys evs key) (slab_get (slab_put sl (ev_key ev) (fst (slot_fire sys ev s))) key) =
     map_option (slot_after sys (ev # evs) key) (slab_get sl key)"
  unfolding slab_get_fire [OF assms(1)] using assms
  by (cases "slab_get sl key"; cases "ev_key ev = key") (auto simp: slot_after_fire slot_after_other)

lemma dispatch_slots:
  assumes "\<And>k. snd (eventfd_drain sys wfd k) = Ok ()"
  shows "\<exists>k' sl' ws. dispatch sys wfd evs sl acc k = (k', sl', Ok (acc @ ws)) \<and>
     (slab_inv sl \<longrightarrow> slab_inv sl') \<and>
     slab_get sl' = (\<lambda>key. map_option (slot_after sys evs key) (slab_get sl key)) \<and>
     (distinct (map ev_token (filter io_event evs)) \<longrightarrow> ws = concat (map (fired_by sys sl) evs))"
proof (induction evs arbitrary: sl acc k)
  case Nil
  then show ?case by (auto simp: option.map_ident)
next
  case (Cons ev evs)
  show ?case
  proof (cases "io_event ev")
    case False
    obtain k1 where k1: "eventfd_drain sys wfd k = (k1, Ok ())" using assms [of k] by (metis prod.collapse)
    with Cons.IH [of sl acc k1] False show ?thesis by (auto simp: fired_by_def slot_after_no_slot)
  next
    case True
    show ?thesis
    proof (cases "slab_get sl (ev_key ev)")
      case None
      with Cons.IH [of sl acc k] True None show ?thesis by (auto simp: fired_by_def slot_after_no_slot)
    next
      case (Some s)
      let ?sl = "slab_put sl (ev_key ev) (fst (slot_fire sys ev s))"
      obtain k' sl' ws where d: "dispatch sys wfd evs ?sl (acc @ snd (slot_fire sys ev s)) k =
            (k', sl', Ok ((acc @ snd (slot_fire sys ev s)) @ ws))"
        "slab_inv ?sl \<longrightarrow> slab_inv sl'"
        "slab_get sl' = (\<lambda>key. map_option (slot_after sys evs key) (slab_get ?sl key))"
        "distinct (map ev_token (filter io_event evs)) \<longrightarrow> ws = concat (map (fired_by sys ?sl) evs)"
        using Cons.IH [of ?sl "acc @ snd (slot_fire sys ev s)" k] by blast
      have "dispatch sys wfd (ev # evs) sl acc k = (k', sl', Ok (acc @ (snd (slot_fire sys ev s) @ ws)))"
        using d(1) True Some by (simp add: Let_def case_prod_beta)
      moreover have "snd (slot_fire sys ev s) @ ws = concat (map (fired_by sys sl) (ev # evs))"
        if dist: "distinct (map ev_token (filter io_event (ev # evs)))"
      proof -
        have "ws = concat (map (fired_by sys ?sl) evs)" using d(4) dist True by simp
        also have "\<dots> = concat (map (fired_by sys sl) evs)" by (simp only: fired_by_other_token [OF Some True dist])
        finally show ?thesis using True Some by (simp add: fired_by_Some)
      qed
      moreover have "slab_inv sl \<longrightarrow> slab_inv sl'" using d(2) slab_st.put_inv [of sl "ev_key ev"] by simp
      moreover have "slab_get sl' = (\<lambda>key. map_option (slot_after sys (ev # evs) key) (slab_get sl key))"
        using d(3) slot_after_put [OF Some True, of sys evs] by simp
      ultimately show ?thesis by blast
    qed
  qed
qed

section \<open>Ownership of wakers\<close>

definition slot_wakers :: "'w slot \<Rightarrow> 'w multiset" where
  "slot_wakers s = mset (opt_list (slot_read s) @ opt_list (slot_write s))"

definition slab_sum :: "('s \<Rightarrow> 'w multiset) \<Rightarrow> 's slab \<Rightarrow> 'w multiset" where
  "slab_sum f sl = (\<Sum>key \<in> dom (slab_get sl). f (the (slab_get sl key)))"

abbreviation slab_wakers :: "'w slot slab \<Rightarrow> 'w multiset" where
  "slab_wakers \<equiv> slab_sum slot_wakers"

lemma slot_fire_splits: "slot_wakers s = mset (snd (slot_fire sys ev s)) + slot_wakers (fst (slot_fire sys ev s))"
  by (simp add: slot_wakers_def slot_fire_eq)

lemma slab_sum_split:
  assumes "slab_get sl key = Some s"
  shows "slab_sum f sl = f s + (\<Sum>j \<in> dom (slab_get sl) - {key}. f (the (slab_get sl j)))"
proof -
  have "finite (dom (slab_get sl))"
    by (rule finite_subset [of _ "{..<length (entries sl)}"]) (auto simp: slab_get_def split: if_splits)
  moreover have "key \<in> dom (slab_get sl)" using assms by blast
  ultimately show ?thesis using assms by (simp add: slab_sum_def sum.remove)
qed

lemma slab_sum_put:
  assumes "slab_get sl key = Some s"
  shows "slab_sum f (slab_put sl key s') + f s = slab_sum f sl + f s'"
proof -
  let ?sl = "slab_put sl key s'"
  have get: "slab_get ?sl = (slab_get sl)(key \<mapsto> s')" using assms by (simp add: slab_st.get_put)
  have "(\<Sum>j \<in> dom (slab_get ?sl) - {key}. f (the (slab_get ?sl j))) = (\<Sum>j \<in> dom (slab_get sl) - {key}. f (the (slab_get sl j)))"
    by (rule sum.cong) (auto simp: get)
  then show ?thesis using slab_sum_split [OF assms, of f] slab_sum_split [of ?sl key s' f] get by simp
qed

lemma slab_sum_remove:
  assumes "slab_get sl key = Some s"
  shows "slab_sum f (slab_remove sl key) + f s = slab_sum f sl"
proof -
  have get: "slab_get (slab_remove sl key) = (slab_get sl)(key := None)" using assms by (simp add: slab_st.get_remove)
  have "slab_sum f (slab_remove sl key) = (\<Sum>j \<in> dom (slab_get sl) - {key}. f (the (slab_get sl j)))"
    unfolding slab_sum_def by (rule sum.cong) (auto simp: get)
  then show ?thesis using slab_sum_split [OF assms, of f] by simp
qed

text \<open>Dispatching neither loses nor duplicates a waker: those not handed out are still in the slab.\<close>

lemma dispatch_conserves:
  "dispatch sys wfd evs sl acc k = (k', sl', Ok ws) \<Longrightarrow> mset ws + slab_wakers sl' = mset acc + slab_wakers sl"
proof (induction evs arbitrary: sl acc k)
  case Nil
  then show ?case by simp
next
  case (Cons ev evs)
  show ?case
  proof (cases "slab_get sl (ev_key ev)")
    case (Some s)
    have "slab_wakers (slab_put sl (ev_key ev) (fst (slot_fire sys ev s))) + mset (snd (slot_fire sys ev s)) = slab_wakers sl"
      using slab_sum_put [OF Some, of slot_wakers "fst (slot_fire sys ev s)"] slot_fire_splits [of s sys ev] by simp
    with Cons Some show ?thesis by (fastforce simp: Let_def case_prod_beta ac_simps split: if_splits prod.splits result.splits)
  qed (use Cons in \<open>auto split: if_splits prod.splits result.splits\<close>)
qed

section \<open>Registration\<close>

lemma unat_token: "key < 2 ^ 63 \<Longrightarrow> token_of_key key = Inr (of_nat key + 1)"
  "key < 2 ^ 63 \<Longrightarrow> (of_nat key + 1 :: u64) \<noteq> 0"
  "key < 2 ^ 63 \<Longrightarrow> unat (of_nat key + 1 - 1 :: u64) = key"
proof -
  assume k: "key < 2 ^ 63"
  then show "token_of_key key = Inr (of_nat key + 1)" by (simp add: token_of_key_def)
  have u: "unat (of_nat key :: u64) = key" using k by (simp add: unat_of_nat)
  then show "unat (of_nat key + 1 - 1 :: u64) = key" by simp
  have "unat (of_nat key + 1 :: u64) = key + 1" using k u unat_plus_word [of "of_nat key" 1] by simp
  then show "(of_nat key + 1 :: u64) \<noteq> 0" by auto
qed

lemma inner_register_cases:
  assumes inv: "slab_inv (slots r)" and room: "slab_room (slots r)"
  obtains sl key where "slab_inv sl" and "slab_get (slots r) key = None" and "key < 2 ^ 63"
    and "slab_get sl = (slab_get (slots r))(key \<mapsto> slot_default)"
    and "inner_register sys r fd i k =
      (case epoll_add sys (epfd r) fd (of_nat key + 1) (interest_events sys i) k of
         (k', Err e) \<Rightarrow> Inr (k', r\<lparr>slots := slab_remove sl key\<rparr>, Err e)
       | (k', Ok _) \<Rightarrow> Inr (k', r\<lparr>slots := sl\<rparr>, Ok (of_nat key + 1)))"
proof (rule slab_st.insertE [OF inv room, of slot_default])
  fix sl key
  assume a: "slab_insert slot_default (slots r) = Inr (sl, key)" "slab_inv sl"
    "slab_get (slots r) key = None" "key < 2 ^ 63" "slab_get sl = (slab_get (slots r))(key \<mapsto> slot_default)"
  show thesis
    by (rule that [of sl key]) (use a in \<open>simp_all add: inner_register_def unat_token(1)\<close>)
qed

lemma inner_register_Ok:
  assumes "slab_inv (slots r)" and "slab_room (slots r)"
    and "inner_register sys r fd i k = Inr (k1, r1, Ok token)"
  shows "slab_inv (slots r1)" "token \<noteq> 0" "slab_get (slots r) (unat (token - 1)) = None"
    "slab_get (slots r1) = (slab_get (slots r))(unat (token - 1) \<mapsto> slot_default)"
    "epfd r1 = epfd r" "waker_fd r1 = waker_fd r"
  by (rule inner_register_cases [OF assms(1,2), of sys fd i k];
      use assms(3) unat_token(2,3) in \<open>auto split: prod.splits result.splits\<close>)+

lemma inner_set_waker_get:
  assumes "slab_get (slots r) (unat (token - 1)) = Some s" and "token \<noteq> 0"
  shows "slab_get (slots (inner_set_waker r token d w)) = (slab_get (slots r))(unat (token - 1) \<mapsto> slot_set d w s)"
  using assms by (simp add: inner_set_waker_def slab_st.get_put)

lemma inner_set_waker_inv: "slab_inv (slots r) \<Longrightarrow> slab_inv (slots (inner_set_waker r token d w))"
  by (simp add: inner_set_waker_def slab_st.put_inv Let_def split: option.splits)

fun ev_direction :: "'k linux_sys \<Rightarrow> direction \<Rightarrow> event \<Rightarrow> bool" where
  "ev_direction sys Read ev = ev_readable sys ev"
| "ev_direction sys Write ev = ev_writable sys ev"

lemma dispatch_one:
  assumes "io_event ev" and "slab_get sl (ev_key ev) = Some s"
  shows "dispatch sys wfd [ev] sl acc k =
     (k, slab_put sl (ev_key ev) (fst (slot_fire sys ev s)), Ok (acc @ snd (slot_fire sys ev s)))"
  using assms by (simp add: Let_def case_prod_beta)

lemma dispatch_unknown:
  "io_event ev \<Longrightarrow> slab_get sl (ev_key ev) = None \<Longrightarrow> dispatch sys wfd [ev] sl acc k = (k, sl, Ok acc)"
  by simp

section \<open>Interface: a table of wakers\<close>

text \<open>
  What a future that waits for readiness relies on, on every platform: a waker set under a live token stays
  parked until an event makes its direction ready, and that event takes it out and wakes it.
  \<open>wt_can r e\<close> says that the reactor can be handed event \<open>e\<close>.
\<close>

locale waker_table =
  fixes wt_parked :: "'r \<Rightarrow> u64 \<Rightarrow> direction \<Rightarrow> 'w option"
    and wt_live :: "'r \<Rightarrow> u64 \<Rightarrow> bool"
    and wt_set :: "'r \<Rightarrow> u64 \<Rightarrow> direction \<Rightarrow> 'w \<Rightarrow> 'r"
    and wt_ready :: "'r \<Rightarrow> 'e \<Rightarrow> u64 \<Rightarrow> direction \<Rightarrow> bool"
    and wt_can :: "'r \<Rightarrow> 'e \<Rightarrow> bool"
    and wt_deliver :: "'e \<Rightarrow> 'r \<Rightarrow> ('r \<times> 'w list) option"
  assumes set_parked: "wt_live r t \<Longrightarrow>
      wt_parked (wt_set r t d w) t' d' = (if t' = t \<and> d' = d then Some w else wt_parked r t' d')"
    and set_live: "wt_live (wt_set r t d w) t' = wt_live r t'"
    and set_ready: "wt_ready (wt_set r t d w) e = wt_ready r e"
    and set_can: "wt_can r e \<Longrightarrow> wt_can (wt_set r t d w) e"
    and deliver: "wt_can r e \<Longrightarrow> \<exists>r' ws. wt_deliver e r = Some (r', ws) \<and>
      (\<forall>t d. wt_parked r' t d = (if wt_ready r e t d then None else wt_parked r t d)) \<and>
      set ws = {w. \<exists>t d. wt_ready r e t d \<and> wt_parked r t d = Some w}"
begin

lemma woken:
  assumes "wt_live r t" and "wt_can r e" and "wt_ready r e t d"
  obtains r' ws where "wt_deliver e (wt_set r t d w) = Some (r', ws)" and "w \<in> set ws" and "wt_parked r' t d = None"
proof -
  obtain r' ws where "wt_deliver e (wt_set r t d w) = Some (r', ws)"
    "\<forall>t' d'. wt_parked r' t' d' = (if wt_ready r e t' d' then None else wt_parked (wt_set r t d w) t' d')"
    "set ws = {w'. \<exists>t' d'. wt_ready r e t' d' \<and> wt_parked (wt_set r t d w) t' d' = Some w'}"
    using deliver [OF set_can [OF assms(2)], of t d w] unfolding set_ready by blast
  moreover from this(3) have "w \<in> set ws" using assms(1,3) set_parked [of r t d w t d] by auto
  ultimately show thesis using assms(3) that [of r' ws] by simp
qed

lemma kept:
  assumes "wt_can r e" and "\<not> wt_ready r e t d" and "wt_deliver e r = Some (r', ws)"
  shows "wt_parked r' t d = wt_parked r t d"
  using deliver [OF assms(1)] assms(2,3) by auto

lemma replaced:
  assumes "wt_live r t" and "wt_can r e" and "wt_ready r e t d" and "w \<noteq> w'"
    and alone: "\<And>t' d'. (t', d') \<noteq> (t, d) \<Longrightarrow> wt_parked r t' d' \<noteq> Some w"
    and del: "wt_deliver e (wt_set (wt_set r t d w) t d w') = Some (r', ws)"
  shows "w' \<in> set ws \<and> w \<notin> set ws"
proof -
  let ?r = "wt_set (wt_set r t d w) t d w'"
  have p: "wt_parked ?r t' d' = (if t' = t \<and> d' = d then Some w' else wt_parked r t' d')" for t' d'
    using assms(1) by (simp add: set_parked set_live)
  have "wt_can ?r e" by (intro set_can assms(2))
  then have "set ws = {x. \<exists>t' d'. wt_ready r e t' d' \<and> wt_parked ?r t' d' = Some x}"
    using deliver [of ?r e] del by (auto simp: set_ready)
  then show ?thesis using assms(3,4) alone by (auto simp: p)
qed

end

text \<open>The Linux reactor is such a table; the event that rings the self-wake descriptor is not handed to it.\<close>

fun slot_waker :: "direction \<Rightarrow> 'w slot \<Rightarrow> 'w option" where
  "slot_waker Read s = slot_read s"
| "slot_waker Write s = slot_write s"

definition inner_parked :: "'w inner \<Rightarrow> u64 \<Rightarrow> direction \<Rightarrow> 'w option" where
  "inner_parked r token d = (if token = 0 then None else Option.bind (slab_get (slots r) (unat (token - 1))) (slot_waker d))"

definition inner_live :: "'w inner \<Rightarrow> u64 \<Rightarrow> bool" where
  "inner_live r token \<longleftrightarrow> token \<noteq> 0 \<and> slab_get (slots r) (unat (token - 1)) \<noteq> None"

definition inner_ready :: "'k linux_sys \<Rightarrow> 'w inner \<Rightarrow> event \<Rightarrow> u64 \<Rightarrow> direction \<Rightarrow> bool" where
  "inner_ready sys r ev token d \<longleftrightarrow> io_event ev \<and> ev_token ev = token \<and> ev_direction sys d ev"

definition inner_deliver ::
  "'k linux_sys \<Rightarrow> int \<Rightarrow> 'k \<Rightarrow> event \<Rightarrow> 'w inner \<Rightarrow> ('w inner \<times> 'w list) option" where
  "inner_deliver sys wfd k ev r = (case dispatch sys wfd [ev] (slots r) [] k of
     (_, sl, Ok ws) \<Rightarrow> Some (r\<lparr>slots := sl\<rparr>, ws) | _ \<Rightarrow> None)"

lemma token_eq: "unat (t - 1) = unat (t' - 1) \<longleftrightarrow> t = t'" for t t' :: u64
  by (simp only: word_unat_eq_iff [symmetric] diff_left_imp_eq) simp

lemma slot_waker_set [simp]: "slot_waker d' (slot_set d w s) = (if d' = d then Some w else slot_waker d' s)"
  by (cases d; cases d') simp_all

lemma slot_waker_fire:
  "slot_waker d (fst (slot_fire sys ev s)) = (if ev_direction sys d ev then None else slot_waker d s)"
  by (cases d) (simp_all add: slot_fire_eq)

lemma direction_ex: "(\<exists>d. P d) \<longleftrightarrow> P Read \<or> P Write"
  by (metis direction.exhaust)

lemma slot_fire_wakers:
  "set (snd (slot_fire sys ev s)) = {w. \<exists>d. ev_direction sys d ev \<and> slot_waker d s = Some w}"
  by (cases "slot_read s"; cases "slot_write s") (auto simp: slot_fire_eq direction_ex)

interpretation linux_wt: waker_table inner_parked inner_live inner_set_waker "inner_ready sys" "\<lambda>r ev. io_event ev"
  "inner_deliver sys wfd k" for sys :: "'k linux_sys" and wfd k
proof unfold_locales
  fix r :: "'w inner" and t d w t' d'
  show "inner_parked (inner_set_waker r t d w) t' d' = (if t' = t \<and> d' = d then Some w else inner_parked r t' d')"
    if l: "inner_live r t"
  proof -
    obtain s where s: "slab_get (slots r) (unat (t - 1)) = Some s" "t \<noteq> 0" using l by (auto simp: inner_live_def)
    show ?thesis using s by (auto simp: inner_parked_def inner_set_waker_get [OF s] token_eq)
  qed
  show "inner_live (inner_set_waker r t d w) t' = inner_live r t'"
    by (auto simp: inner_live_def inner_set_waker_def slab_st.get_put Let_def split: option.splits)
  show "inner_ready sys (inner_set_waker r t d w) e = inner_ready sys r e" for e
    by (intro ext) (simp add: inner_ready_def)
  show "\<exists>r' ws. inner_deliver sys wfd k e r = Some (r', ws) \<and>
      (\<forall>t d. inner_parked r' t d = (if inner_ready sys r e t d then None else inner_parked r t d)) \<and>
      set ws = {w. \<exists>t d. inner_ready sys r e t d \<and> inner_parked r t d = Some w}" if io: "io_event e" for e
  proof (cases "slab_get (slots r) (ev_key e)")
    case None
    then have "inner_parked r (ev_token e) d = None" for d by (simp add: inner_parked_def)
    then show ?thesis
      using dispatch_unknown [OF io None, of sys wfd "[]" k] by (auto simp: inner_deliver_def inner_ready_def)
  next
    case (Some s)
    have tok: "ev_token e \<noteq> 0" using io by (simp add: SELF_WAKE_TOKEN_def)
    let ?sl = "slab_put (slots r) (ev_key e) (fst (slot_fire sys e s))"
    have g: "slab_get ?sl = (slab_get (slots r))(ev_key e \<mapsto> fst (slot_fire sys e s))"
      using Some by (simp add: slab_st.get_put)
    have "inner_deliver sys wfd k e r = Some (r\<lparr>slots := ?sl\<rparr>, snd (slot_fire sys e s))"
      using dispatch_one [OF io Some, of sys wfd "[]" k] by (simp add: inner_deliver_def del: dispatch.simps)
    moreover have "inner_parked (r\<lparr>slots := ?sl\<rparr>) t d = (if inner_ready sys r e t d then None else inner_parked r t d)" for t d
    proof (cases "t = ev_token e")
      case True
      then show ?thesis using g io Some tok by (simp add: inner_parked_def inner_ready_def slot_waker_fire)
    next
      case False
      then show ?thesis using g by (simp add: inner_parked_def inner_ready_def token_eq)
    qed
    moreover have "set (snd (slot_fire sys e s)) = {w. \<exists>t d. inner_ready sys r e t d \<and> inner_parked r t d = Some w}"
      using io Some tok by (auto simp: slot_fire_wakers inner_ready_def inner_parked_def)
    ultimately show ?thesis by blast
  qed
qed simp

text \<open>A kernel for the concrete instances: every call succeeds and \<open>epoll_wait\<close> reports token 1 readable.\<close>

definition sample_sys :: "unit linux_sys" where
  "sample_sys = \<lparr>sys_epoll_create1 = (\<lambda>_ k. (k, 3, 0)), sys_epoll_ctl = (\<lambda>_ _ _ _ k. (k, 0, 0)),
     sys_epoll_wait = (\<lambda>_ _ _ k. (k, 1, 0, [(1, 1)])), sys_eventfd = (\<lambda>_ _ k. (k, 4, 0)),
     sys_write = (\<lambda>_ _ k. (k, 8, 0)), sys_read = (\<lambda>_ k. (k, 8, 0)),
     EPOLL_CLOEXEC = 524288, EFD_FLAGS = 526336, EPOLL_CTL_ADD = 1, EPOLL_CTL_DEL = 2,
     EPOLLIN = 1, EPOLLOUT = 4, EPOLLERR = 8, EPOLLHUP = 16, EINTR = 4, EAGAIN = 11\<rparr>"

lemma sample_drain: "snd (eventfd_drain sample_sys wfd k) = Ok ()"
  by (simp add: eventfd_drain_def sample_sys_def)

section \<open>The fallback reactor\<close>

text \<open>
  A flag under a mutex with a condition variable. A thread in \<open>poll\<close> that finds the flag unset blocks;
  \<open>notify_one\<close> releases one blocked thread, which clears the flag once it has the mutex again. A
  blocked thread may also go on by itself, when its timeout expires or spuriously.
\<close>

record fallback =
  notify :: bool
  blocked :: nat
  released :: nat

definition fallback_new :: fallback where
  "fallback_new = \<lparr>notify = False, blocked = 0, released = 0\<rparr>"

definition fallback_poll :: "fallback \<Rightarrow> fallback \<times> bool" where
  "fallback_poll f =
     (if \<not> notify f then (f\<lparr>blocked := blocked f + 1\<rparr>, False)
      else (f\<lparr>notify := False\<rparr>, True))"

definition fallback_resume :: "fallback \<Rightarrow> fallback" where
  "fallback_resume f = f\<lparr>notify := False\<rparr>"

definition fallback_wake :: "fallback \<Rightarrow> fallback" where
  "fallback_wake f =
     (let f' = f\<lparr>notify := True\<rparr> in
      if blocked f' = 0 then f' else f'\<lparr>blocked := blocked f' - 1, released := released f' + 1\<rparr>)"

inductive fallback_reachable :: "fallback \<Rightarrow> bool" where
  fb_new: "fallback_reachable fallback_new"
| fb_poll: "fallback_reachable f \<Longrightarrow> fallback_poll f = (f', done) \<Longrightarrow> fallback_reachable f'"
| fb_wake: "fallback_reachable f \<Longrightarrow> fallback_reachable (fallback_wake f)"
| fb_resume: "fallback_reachable f \<Longrightarrow> released f = Suc n \<Longrightarrow>
    fallback_reachable (fallback_resume (f\<lparr>released := n\<rparr>))"
| fb_timeout: "fallback_reachable f \<Longrightarrow> blocked f = Suc n \<Longrightarrow>
    fallback_reachable (fallback_resume (f\<lparr>blocked := n\<rparr>))"

lemma fallback_reachable_inv: "fallback_reachable f \<Longrightarrow> notify f \<and> blocked f > 0 \<longrightarrow> released f > 0"
  by (induction rule: fallback_reachable.induct)
    (auto simp: fallback_new_def fallback_poll_def fallback_wake_def fallback_resume_def Let_def split: if_splits)

section \<open>Properties of the Linux reactor\<close>

text \<open>
  Claim C13. When the self-wake descriptor drains without error, dispatching a batch of events with
  distinct tokens wakes, in the order of the events, exactly the wakers stored for the directions
  that are ready on live slots (an error or hang-up makes both directions ready), takes each of them
  out of its slot, and changes nothing else; events of unknown tokens are ignored.
\<close>

theorem dispatch_exact:
  assumes "\<And>k. snd (eventfd_drain sys wfd k) = Ok ()" and "distinct (map ev_token (filter io_event evs))"
  shows "\<exists>k' sl'. dispatch sys wfd evs sl [] k = (k', sl', Ok (concat (map (fired_by sys sl) evs))) \<and>
     (slab_inv sl \<longrightarrow> slab_inv sl') \<and>
     (\<forall>key. slab_get sl' key = map_option (slot_after sys evs key) (slab_get sl key))"
  using dispatch_slots [OF assms(1), of evs sl "[]" k] assms(2) by auto

theorem dispatch_exact_witness:
  "\<exists>sl'. dispatch sample_sys 4 [\<lparr>ev_token = 0, ev_ready = 1\<rparr>, \<lparr>ev_token = 1, ev_ready = 16\<rparr>]
      \<lparr>entries = [Occupied \<lparr>slot_read = Some ''r'', slot_write = Some ''w''\<rparr>], next_free = SENTINEL\<rparr> [] () =
    ((), sl', Ok [''r'', ''w''])"
proof -
  let ?sl = "\<lparr>entries = [Occupied \<lparr>slot_read = Some ''r'', slot_write = Some ''w''\<rparr>], next_free = SENTINEL\<rparr>"
  let ?evs = "[\<lparr>ev_token = 0, ev_ready = 1\<rparr>, \<lparr>ev_token = 1, ev_ready = 16\<rparr>]"
  have "concat (map (fired_by sample_sys ?sl) ?evs) = [''r'', ''w'']"
    by (simp add: fired_by_def SELF_WAKE_TOKEN_def slab_get_def dir_ready_def sample_sys_def)
  then show ?thesis
    using dispatch_exact [OF sample_drain [of 4], of ?evs ?sl "()"] by (auto simp: SELF_WAKE_TOKEN_def)
qed

text \<open>
  A registered source wakes the waker set for a direction when the kernel reports that
  direction, and only once: registration gives a fresh non-zero token, a waker stored under it is
  woken by the next event of its direction, and a further event wakes nobody until a waker is set
  again.
\<close>

lemma reactor_ready_wakes:
  assumes "slab_inv (slots r)" and "slab_room (slots r)"
    and "inner_register sys r fd i k = Inr (k1, r1, Ok token)"
    and "ev_token ev = token" and "ev_direction sys d ev"
  shows "token \<noteq> 0 \<and> slab_get (slots r) (unat (token - 1)) = None \<and>
     (\<exists>sl sl'. dispatch sys wfd [ev] (slots (inner_set_waker r1 token d w)) [] k2 = (k2, sl, Ok [w]) \<and>
        dispatch sys wfd [ev] sl [] k3 = (k3, sl', Ok []))"
proof -
  note reg = inner_register_Ok [OF assms(1-3)]
  let ?key = "unat (token - 1)" and ?r = "inner_set_waker r1 token d w"
  have s: "slab_get (slots ?r) ?key = Some (slot_set d w slot_default)"
    using inner_set_waker_get [of r1 token slot_default d w] reg(2,4) by simp
  have io: "ev_token ev \<noteq> SELF_WAKE_TOKEN" using assms(4) reg(2) by (simp add: SELF_WAKE_TOKEN_def)
  let ?sl = "slab_put (slots ?r) ?key (fst (slot_fire sys ev (slot_set d w slot_default)))"
  have fire: "snd (slot_fire sys ev (slot_set d w slot_default)) = [w]"
    "snd (slot_fire sys ev (fst (slot_fire sys ev (slot_set d w slot_default)))) = []"
    using assms(5) by (cases d; simp add: slot_fire_eq slot_default_def)+
  have s': "slab_get ?sl ?key = Some (fst (slot_fire sys ev (slot_set d w slot_default)))"
    using s by (simp add: slab_st.get_put)
  have "dispatch sys wfd [ev] (slots ?r) [] k2 = (k2, ?sl, Ok [w])"
    using io assms(4) s fire(1) by (simp add: Let_def case_prod_beta)
  moreover have "\<exists>sl'. dispatch sys wfd [ev] ?sl [] k3 = (k3, sl', Ok [])"
    using io assms(4) s' fire(2) by (simp add: Let_def case_prod_beta)
  ultimately show ?thesis using reg(2,3) by blast
qed

theorem reactor_ready_wakes_witness:
  "\<exists>r1 sl. inner_register sample_sys \<lparr>slots = slab_new, epfd = 3, waker_fd = 4\<rparr> 7 interest_READ () =
       Inr ((), r1, Ok 1) \<and>
     dispatch sample_sys 4 [\<lparr>ev_token = 1, ev_ready = 1\<rparr>] (slots (inner_set_waker r1 1 Read ''w'')) [] () =
       ((), sl, Ok [''w''])"
proof -
  let ?r = "\<lparr>slots = slab_new, epfd = 3, waker_fd = 4\<rparr> :: string inner"
  let ?ev = "\<lparr>ev_token = 1, ev_ready = 1\<rparr>"
  have inv: "slab_inv (slots ?r)" "slab_room (slots ?r)"
    by (simp_all add: slab_new_inv) (simp add: slab_room_def slab_new_def VEC_CAPACITY_def)
  obtain r1 where r1: "inner_register sample_sys ?r 7 interest_READ () = Inr ((), r1, Ok 1)"
    by (simp add: inner_register_def slab_insert_def slab_new_def VEC_CAPACITY_def token_of_key_def
        epoll_add_def epoll_ctl_def sample_sys_def)
  have "ev_token ?ev = 1" "ev_direction sample_sys Read ?ev"
    by (simp_all add: ev_readable_def sample_sys_def)
  from reactor_ready_wakes [OF inv r1 this, of 4 "''w''" "()" "()"] r1 show ?thesis by blast
qed

text \<open>
  Claim C30. Errors leave the table of slots consistent: a registration the kernel refuses gives its
  slot back and changes no other, a deregistration the kernel refuses changes nothing, and a
  successful one empties exactly the token's slot.
\<close>

theorem reactor_error_paths:
  assumes "slab_inv (slots r)" and "slab_room (slots r)"
  shows "(\<forall>k1 r1 e. inner_register sys r fd i k = Inr (k1, r1, Err e) \<longrightarrow>
        slab_inv (slots r1) \<and> slab_get (slots r1) = slab_get (slots r)) \<and>
     (\<forall>k1 r1 e. inner_deregister sys r fd token k = (k1, r1, Err e) \<longrightarrow> r1 = r) \<and>
     (\<forall>k1 r1. token \<noteq> 0 \<and> inner_deregister sys r fd token k = (k1, r1, Ok ()) \<longrightarrow>
        slab_inv (slots r1) \<and> slab_get (slots r1) = (slab_get (slots r))(unat (token - 1) := None))"
proof (intro conjI allI impI)
  show "slab_inv (slots r1)" "slab_get (slots r1) = slab_get (slots r)"
    if "inner_register sys r fd i k = Inr (k1, r1, Err e)" for k1 r1 e
    by (rule inner_register_cases [OF assms, of sys fd i k];
        use that in \<open>auto simp: slab_st.remove_inv slab_st.get_remove fun_eq_iff split: prod.splits result.splits\<close>)+
qed (auto simp: inner_deregister_def slab_st.remove_inv slab_st.get_remove assms(1) Let_def
      split: if_splits prod.splits result.splits)

text \<open>A kernel that refuses every change of the interest list, and a reactor with one slot taken.\<close>

definition refusing_sys :: "unit linux_sys" where
  "refusing_sys = sample_sys\<lparr>sys_epoll_ctl := \<lambda>_ _ _ _ k. (k, - 1, 9)\<rparr>"

definition sample_taken :: "string inner" where
  "sample_taken = \<lparr>slots = \<lparr>entries = [Occupied \<lparr>slot_read = Some ''r'', slot_write = None\<rparr>], next_free = SENTINEL\<rparr>,
     epfd = 3, waker_fd = 4\<rparr>"

lemma sample_taken_inv: "slab_inv (slots sample_taken)" "slab_room (slots sample_taken)"
proof -
  obtain sl key where "slab_insert \<lparr>slot_read = Some ''r'', slot_write = None\<rparr> slab_new = Inr (sl, key)" "slab_inv sl"
    by (rule slab_st.insertE [OF slab_new_inv]) (simp add: slab_room_def slab_new_def VEC_CAPACITY_def)
  then show "slab_inv (slots sample_taken)"
    by (simp add: slab_insert_def slab_new_def VEC_CAPACITY_def sample_taken_def)
  show "slab_room (slots sample_taken)" by (simp add: slab_room_def sample_taken_def VEC_CAPACITY_def)
qed

theorem reactor_error_paths_witness:
  "\<exists>r1. inner_register refusing_sys sample_taken 7 interest_READ () = Inr ((), r1, Err (OsError 9)) \<and>
     slab_inv (slots r1) \<and> slab_get (slots r1) = [0 \<mapsto> \<lparr>slot_read = Some ''r'', slot_write = None\<rparr>] \<and>
     inner_deregister refusing_sys sample_taken 7 1 () = ((), sample_taken, Err (OsError 9)) \<and>
     (\<exists>r2. inner_deregister sample_sys sample_taken 7 1 () = ((), r2, Ok ()) \<and> slab_get (slots r2) = Map.empty)"
proof -
  note ok = reactor_error_paths [OF sample_taken_inv]
  have g: "slab_get (slots sample_taken) = [0 \<mapsto> \<lparr>slot_read = Some ''r'', slot_write = None\<rparr>]"
    by (auto simp: slab_get_def sample_taken_def)
  obtain r1 where r1: "inner_register refusing_sys sample_taken 7 interest_READ () = Inr ((), r1, Err (OsError 9))"
    by (simp add: inner_register_def slab_insert_def sample_taken_def VEC_CAPACITY_def token_of_key_def
        epoll_add_def epoll_ctl_def refusing_sys_def)
  obtain r2 where r2: "inner_deregister refusing_sys sample_taken 7 1 () = ((), r2, Err (OsError 9))"
    by (simp add: inner_deregister_def epoll_delete_def epoll_ctl_def refusing_sys_def)
  obtain r3 where r3: "inner_deregister sample_sys sample_taken 7 1 () = ((), r3, Ok ())"
    by (simp add: inner_deregister_def epoll_delete_def epoll_ctl_def sample_sys_def)
  have "slab_inv (slots r1)" "slab_get (slots r1) = slab_get (slots sample_taken)" "r2 = sample_taken"
    using ok [of refusing_sys 7 interest_READ "()" 1] r1 r2 by blast+
  moreover have "slab_get (slots r3) = (slab_get (slots sample_taken))(unat (1 - 1 :: u64) := None)"
    using ok [of sample_sys 7 interest_READ "()" 1] r3 by (metis one_neq_zero)
  ultimately show ?thesis using r1 r2 r3 g by auto
qed

text \<open>
  The time limit handed to \<open>epoll_wait\<close> never exceeds the requested one, misses it by less
  than a millisecond unless it saturates at \<open>i32::MAX\<close>, and is negative (wait for ever) only when no
  limit is given.
\<close>

lemma poll_timeout_bounds:
  "poll_timeout_ms None = - 1 \<and> 0 \<le> poll_timeout_ms (Some d) \<and> poll_timeout_ms (Some d) \<le> 2 ^ 31 - 1 \<and>
   poll_timeout_ms (Some d) * 1000000 \<le> int d \<and>
   (d < 2 ^ 31 * 1000000 \<longrightarrow> int d < (poll_timeout_ms (Some d) + 1) * 1000000)"
proof -
  have split: "int d = int (d div 1000000) * 1000000 + int (d mod 1000000)"
    using arg_cong [OF div_mult_mod_eq [of d 1000000], of int] by (simp only: of_nat_add of_nat_mult of_nat_numeral)
  define q m where "q = int (d div 1000000)" and "m = int (d mod 1000000)"
  have "int d = q * 1000000 + m" "m < 1000000" "0 \<le> m"
    using split by (simp_all add: q_def m_def)
  then have low: "int (d div 1000000) * 1000000 \<le> int d" and up: "int d < (int (d div 1000000) + 1) * 1000000"
    unfolding q_def [symmetric] by (simp_all add: algebra_simps)
  have sat: "d div 1000000 < 2 ^ 31 \<longleftrightarrow> d < 2 ^ 31 * 1000000" by (rule div_less_iff_less_mult) simp
  show ?thesis using low up sat by (auto simp: poll_timeout_ms_def Let_def)
qed

text \<open>
  When draining the self-wake descriptor fails in the middle of a batch, \<open>poll\<close> returns the
  error and drops the wakers it has already taken out of their slots: they are neither woken nor
  stored any more.
\<close>

lemma dispatch_drain_error_loses:
  assumes "slab_get sl (unat (ev_token ev - 1)) = Some s" and "io_event ev" and "ev_readable sys ev"
    and "slot_read s = Some w" and "eventfd_drain sys wfd k = (k', Err e)" and "ev_token self = SELF_WAKE_TOKEN"
  shows "\<exists>sl' s'. dispatch sys wfd [ev, self] sl [] k = (k', sl', Err e) \<and>
     slab_get sl' (unat (ev_token ev - 1)) = Some s' \<and> slot_read s' = None"
  using assms by (simp add: Let_def case_prod_beta slab_st.get_put slot_fire_eq)

theorem dispatch_drain_error_loses_witness:
  "\<exists>sl'. dispatch (sample_sys\<lparr>sys_read := \<lambda>_ k. (k, - 1, 5)\<rparr>) 4
      [\<lparr>ev_token = 1, ev_ready = 1\<rparr>, \<lparr>ev_token = 0, ev_ready = 1\<rparr>]
      \<lparr>entries = [Occupied \<lparr>slot_read = Some ''r'', slot_write = None\<rparr>], next_free = SENTINEL\<rparr> [] () =
    ((), sl', Err (OsError 5))"
proof -
  let ?sl = "\<lparr>entries = [Occupied \<lparr>slot_read = Some ''r'', slot_write = None\<rparr>], next_free = SENTINEL\<rparr>"
  let ?ev = "\<lparr>ev_token = 1, ev_ready = 1\<rparr>" and ?self = "\<lparr>ev_token = 0, ev_ready = 1\<rparr>"
  let ?sys = "sample_sys\<lparr>sys_read := \<lambda>_ k. (k, - 1, 5)\<rparr>"
  have "slab_get ?sl (unat (ev_token ?ev - 1)) = Some \<lparr>slot_read = Some ''r'', slot_write = None\<rparr>"
    "io_event ?ev" "ev_readable ?sys ?ev" "slot_read \<lparr>slot_read = Some ''r'', slot_write = None\<rparr> = Some ''r''"
    "eventfd_drain ?sys 4 () = ((), Err (OsError 5))" "ev_token ?self = SELF_WAKE_TOKEN"
    by (simp_all add: slab_get_def SELF_WAKE_TOKEN_def ev_readable_def eventfd_drain_def sample_sys_def)
  from dispatch_drain_error_loses [OF this] show ?thesis by blast
qed

text \<open>
  The fallback reactor loses no wake: whenever its flag is set, no thread stays blocked
  without one on its way out of \<open>poll\<close>, and a thread that calls \<open>poll\<close> then returns at once.
\<close>

lemma fallback_no_lost_wake:
  assumes "fallback_reachable f"
  shows "(blocked (fallback_wake f) > 0 \<longrightarrow> released (fallback_wake f) > 0) \<and>
     (notify f \<longrightarrow> (blocked f > 0 \<longrightarrow> released f > 0) \<and> snd (fallback_poll f))"
  using fallback_reachable_inv [OF assms] fallback_reachable_inv [OF fb_wake [OF assms]]
  by (auto simp: fallback_poll_def fallback_wake_def Let_def)

theorem fallback_no_lost_wake_witness:
  "notify (fallback_wake fallback_new) \<and> snd (fallback_poll (fallback_wake fallback_new))"
  using fallback_no_lost_wake [OF fb_wake [OF fb_new]] by (simp add: fallback_wake_def fallback_new_def)

end
