(* ===== verification/Parking.thy ===== *)
theory Parking
  imports Prelude
begin

text \<open>
  How workers go idle and are woken: \<open>idle\<close> of \<^verbatim>\<open>src/src/executor/multi/worker.rs\<close>, the run loop,
  \<open>schedule\<close> and \<open>Multi::drop\<close> of \<^verbatim>\<open>src/src/executor/multi.rs\<close>, and \<open>register\<close> of the timer driver as far as
  it wakes the reactor. Every access to shared state is one step, and the steps of all workers, of
  the threads that schedule tasks or register timers, and of the thread that drops the runtime
  interleave freely. The queues appear as the number of tasks in them (that \<open>has_work\<close> sees exactly
  the queued tasks is shown for the executor). \<open>Reactor::poll\<close> blocks until the self-wake descriptor
  rings, which it then drains, or until its deadline or an I/O source lets it return.
\<close>

section \<open>Workers\<close>

datatype worker_pc =
    WStart | WTop | WPop | WRun | WIdle | WHasWork | WCas | WSetParked | WRecheck | WUnparkFlag | WUnhold
  | WDeadline | WPoll "nat option" | WClearParked | WRelease | WAdvance | WThreadPark | WExit

datatype sched_phase = LoadParked | RingReactor | UnparkOne

datatype drop_phase = Running | DropRing | DropUnpark nat | DropJoin

record park =
  tasks :: nat
  held :: bool
  parked :: bool
  ring :: bool
  down :: bool
  deadline_at :: "nat option"
  io_sources :: bool
  cursor :: u64
  unpark_tokens :: "bool list"
  pcs :: "worker_pc list"
  schedulers :: "sched_phase multiset"
  timer_rings :: nat
  dropper :: drop_phase

definition park_new :: "nat \<Rightarrow> bool \<Rightarrow> park" where
  "park_new n io = \<lparr>tasks = 0, held = False, parked = False, ring = False, down = False, deadline_at = None,
     io_sources = io, cursor = 0, unpark_tokens = replicate n False, pcs = replicate n WStart, schedulers = {#},
     timer_rings = 0, dropper = Running\<rparr>"

text \<open>
  One step of worker \<open>i\<close>; \<open>None\<close> when it is blocked. The flag \<open>ext\<close> stands for what the worker does not
  control: whether a task it pops is the kind that returns, an I/O event or an expired deadline that
  ends the reactor's poll, or a spurious return of \<open>thread::park\<close>.
\<close>

fun worker_step :: "bool \<Rightarrow> park \<Rightarrow> nat \<Rightarrow> worker_pc \<Rightarrow> (park \<times> worker_pc) option" where
  "worker_step ext s i WStart = Some (s, WTop)"
| "worker_step ext s i WTop = Some (s, if down s then WExit else WPop)"
| "worker_step ext s i WPop =
     Some (if tasks s = 0 then (s, WIdle) else (s\<lparr>tasks := tasks s - 1\<rparr>, WRun))"
| "worker_step ext s i WRun = Some (s, WTop)"
| "worker_step ext s i WIdle = Some (s, if down s then WTop else WHasWork)"
| "worker_step ext s i WHasWork = Some (s, if tasks s \<noteq> 0 then WTop else WCas)"
| "worker_step ext s i WCas =
     Some (if held s then (s, WThreadPark) else (s\<lparr>held := True\<rparr>, WSetParked))"
| "worker_step ext s i WSetParked = Some (s\<lparr>parked := True\<rparr>, WRecheck)"
| "worker_step ext s i WRecheck = Some (s, if tasks s \<noteq> 0 then WUnparkFlag else WDeadline)"
| "worker_step ext s i WUnparkFlag = Some (s\<lparr>parked := False\<rparr>, WUnhold)"
| "worker_step ext s i WUnhold = Some (s\<lparr>held := False\<rparr>, WTop)"
| "worker_step ext s i WDeadline = Some (s, WPoll (deadline_at s))"
| "worker_step ext s i (WPoll d) =
     (if ext \<and> (io_sources s \<or> d \<noteq> None) then Some (s, WClearParked)
      else if ring s then Some (s\<lparr>ring := False\<rparr>, WClearParked)
      else None)"
| "worker_step ext s i WClearParked = Some (s\<lparr>parked := False\<rparr>, WRelease)"
| "worker_step ext s i WRelease = Some (s\<lparr>held := False\<rparr>, WAdvance)"
| "worker_step ext s i WAdvance = Some (s, WTop)"
| "worker_step ext s i WThreadPark =
     (if unpark_tokens s ! i then Some (s\<lparr>unpark_tokens := (unpark_tokens s)[i := False]\<rparr>, WTop)
      else if ext then Some (s, WTop)
      else None)"
| "worker_step ext s i WExit = None"

section \<open>Everybody else\<close>

text \<open>
  A scheduler has pushed its task and goes on to look at \<open>driver_parked\<close>, to ring the reactor if the
  flag is set, and to unpark the worker the round-robin cursor points at. Unparking a worker that has
  not stored its thread yet does nothing.
\<close>

definition unpark :: "park \<Rightarrow> nat \<Rightarrow> park" where
  "unpark s i = (if pcs s ! i = WStart then s else s\<lparr>unpark_tokens := (unpark_tokens s)[i := True]\<rparr>)"

fun sched_next :: "park \<Rightarrow> sched_phase \<Rightarrow> park \<times> sched_phase option" where
  "sched_next s LoadParked = (s, Some (if parked s then RingReactor else UnparkOne))"
| "sched_next s RingReactor = (s\<lparr>ring := True\<rparr>, Some UnparkOne)"
| "sched_next s UnparkOne =
     (let s' = s\<lparr>cursor := cursor s + 1\<rparr> in (unpark s' (unat (cursor s) mod length (pcs s')), None))"

fun drop_next :: "park \<Rightarrow> (park \<times> drop_phase) option" where
  "drop_next s = (case dropper s of
     Running \<Rightarrow> Some (s\<lparr>down := True\<rparr>, DropRing)
   | DropRing \<Rightarrow> Some (s\<lparr>ring := True\<rparr>, DropUnpark 0)
   | DropUnpark i \<Rightarrow> Some (if i < length (pcs s) then (unpark s i, DropUnpark (i + 1)) else (s, DropJoin))
   | DropJoin \<Rightarrow> None)"

definition dl_le :: "nat option \<Rightarrow> nat option \<Rightarrow> bool" where
  "dl_le a b \<longleftrightarrow> (case b of None \<Rightarrow> True | Some y \<Rightarrow> (case a of None \<Rightarrow> False | Some x \<Rightarrow> x \<le> y))"

fun phase_set :: "'a option \<Rightarrow> 'a multiset" where
  "phase_set None = {#}"
| "phase_set (Some p) = {#p#}"

inductive park_step :: "park \<Rightarrow> park \<Rightarrow> bool" where
  worker: "i < length (pcs s) \<Longrightarrow> worker_step ext s i (pcs s ! i) = Some (s', pc) \<Longrightarrow>
    park_step s (s'\<lparr>pcs := (pcs s)[i := pc]\<rparr>)"
| push: "park_step s (s\<lparr>tasks := tasks s + 1, schedulers := add_mset LoadParked (schedulers s)\<rparr>)"
| scheduler: "schedulers s = add_mset p M \<Longrightarrow> sched_next s p = (s', q) \<Longrightarrow>
    park_step s (s'\<lparr>schedulers := M + phase_set q\<rparr>)"
| timer_insert: "dl_le (Some d) (deadline_at s) \<Longrightarrow>
    park_step s (s\<lparr>deadline_at := Some d, timer_rings := timer_rings s + 1\<rparr>)"
| timer_insert_later: "dl_le (deadline_at s) (Some d) \<Longrightarrow> park_step s (s\<lparr>timer_rings := timer_rings s + 1\<rparr>)"
| timer_ring: "timer_rings s = Suc n \<Longrightarrow> park_step s (s\<lparr>timer_rings := n, ring := True\<rparr>)"
| advance: "i < length (pcs s) \<Longrightarrow> pcs s ! i = WAdvance \<Longrightarrow> dl_le (deadline_at s) d \<Longrightarrow>
    park_step s (s\<lparr>deadline_at := d\<rparr>)"
| drop_runtime: "drop_next s = Some (s', p) \<Longrightarrow> park_step s (s'\<lparr>dropper := p\<rparr>)"

inductive park_reachable :: "nat \<Rightarrow> park \<Rightarrow> bool" for n where
  park_start: "park_reachable n (park_new n io)"
| park_more: "park_reachable n s \<Longrightarrow> park_step s s' \<Longrightarrow> park_reachable n s'"

section \<open>Invariants\<close>

text \<open>The part of \<open>idle\<close> in which a worker holds the driver token.\<close>

fun holds :: "worker_pc \<Rightarrow> bool" where
  "holds WSetParked = True"
| "holds WRecheck = True"
| "holds WUnparkFlag = True"
| "holds WUnhold = True"
| "holds WDeadline = True"
| "holds (WPoll _) = True"
| "holds WClearParked = True"
| "holds WRelease = True"
| "holds _ = False"

text \<open>Where the holder has the flag set.\<close>

fun flags :: "worker_pc \<Rightarrow> bool" where
  "flags WRecheck = True"
| "flags WUnparkFlag = True"
| "flags WDeadline = True"
| "flags (WPoll _) = True"
| "flags WClearParked = True"
| "flags _ = False"

text \<open>Where it has looked at the queues for the last time before it blocks.\<close>

fun waiting :: "worker_pc \<Rightarrow> bool" where
  "waiting WDeadline = True"
| "waiting (WPoll _) = True"
| "waiting _ = False"

lemma waiting_flags: "waiting pc \<Longrightarrow> flags pc"
  by (cases pc) auto

lemma flags_holds: "flags pc \<Longrightarrow> holds pc"
  by (cases pc) auto

lemma holds_awake: "holds pc \<Longrightarrow> pc \<noteq> WThreadPark"
  by (cases pc) auto

text \<open>
  The invariants count workers, so that a step of one worker changes a count by what that worker
  contributes.
\<close>

definition num :: "(worker_pc \<Rightarrow> bool) \<Rightarrow> worker_pc list \<Rightarrow> nat" where
  "num P ps = length (filter P ps)"

lemma num_update:
  assumes "i < length ps"
  shows "num P (ps[i := pc]) + of_bool (P (ps ! i)) = num P ps + of_bool (P pc)"
proof -
  have "num P ps = num P (take i ps) + of_bool (P (ps ! i)) + num P (drop (Suc i) ps)"
    using arg_cong [OF id_take_nth_drop [OF assms], of "num P"] by (simp add: num_def)
  moreover have "num P (ps[i := pc]) = num P (take i ps) + of_bool (P pc) + num P (drop (Suc i) ps)"
    using arg_cong [OF upd_conv_take_nth_drop [OF assms, of pc], of "num P"] by (simp add: num_def)
  ultimately show ?thesis by simp
qed

lemma num_mono: "(\<And>pc. P pc \<Longrightarrow> Q pc) \<Longrightarrow> num P ps \<le> num Q ps"
  unfolding num_def by (induction ps) auto

lemma num_strict:
  assumes "\<And>pc. P pc \<Longrightarrow> Q pc" and "pc \<in> set ps" and "Q pc" and "\<not> P pc"
  shows "num P ps < num Q ps"
  using assms(2)
proof (induction ps)
  case (Cons p ps)
  have "num P ps \<le> num Q ps" by (rule num_mono) (rule assms(1))
  then show ?case using Cons assms(1,3,4) by (auto simp: num_def)
qed simp

lemma num_pos: "0 < num P ps \<longleftrightarrow> (\<exists>pc \<in> set ps. P pc)"
  by (auto simp: num_def filter_empty_conv)

lemma num_replicate [simp]: "num P (replicate n pc) = (if P pc then n else 0)"
  by (induction n) (auto simp: num_def)

text \<open>
  The driver token: at most one worker is between taking and releasing it, and the two flags say
  exactly whether one is.
\<close>

definition inv_token :: "park \<Rightarrow> bool" where
  "inv_token s \<longleftrightarrow> num holds (pcs s) = (if held s then 1 else 0) \<and> num flags (pcs s) = (if parked s then 1 else 0)"

text \<open>Somebody is on the way to end the reactor's poll.\<close>

definition wake_due :: "park \<Rightarrow> bool" where
  "wake_due s \<longleftrightarrow> ring s \<or> LoadParked \<in># schedulers s \<or> RingReactor \<in># schedulers s"

definition inv_wake :: "park \<Rightarrow> bool" where
  "inv_wake s \<longleftrightarrow> (0 < num waiting (pcs s) \<and> 0 < tasks s \<longrightarrow> wake_due s)"

definition inv_timer :: "park \<Rightarrow> bool" where
  "inv_timer s \<longleftrightarrow> (\<forall>d. WPoll d \<in> set (pcs s) \<longrightarrow> dl_le d (deadline_at s) \<or> ring s \<or> 0 < timer_rings s)"

text \<open>Not every worker waits in \<open>thread::park\<close>, and workers leave only after a shutdown has begun.\<close>

definition inv_awake :: "park \<Rightarrow> bool" where
  "inv_awake s \<longleftrightarrow> (pcs s \<noteq> [] \<longrightarrow> 0 < num (\<lambda>pc. pc \<noteq> WThreadPark) (pcs s)) \<and>
     (0 < num (\<lambda>pc. pc = WExit) (pcs s) \<longrightarrow> down s) \<and> (down s \<longleftrightarrow> dropper s \<noteq> Running)"

definition park_inv :: "park \<Rightarrow> bool" where
  "park_inv s \<longleftrightarrow> inv_token s \<and> inv_wake s \<and> inv_timer s \<and> inv_awake s"

text \<open>What a step of a worker leaves alone.\<close>

lemma worker_frame:
  assumes "worker_step ext s i pc0 = Some (s', pc)"
  shows "pcs s' = pcs s" "schedulers s' = schedulers s" "down s' = down s" "dropper s' = dropper s"
    "timer_rings s' = timer_rings s" "deadline_at s' = deadline_at s" "tasks s' \<le> tasks s"
    "io_sources s' = io_sources s"
  using assms by (cases pc0; auto split: if_splits)+

lemma worker_ring:
  assumes "worker_step ext s i pc0 = Some (s', pc)"
  shows "ring s' = ring s \<or> (\<exists>d. pc0 = WPoll d) \<and> pc = WClearParked"
  using assms by (cases pc0; auto split: if_splits)

lemma worker_token:
  assumes tok: "inv_token s" and i: "i < length (pcs s)" and st: "worker_step ext s i (pcs s ! i) = Some (s', pc)"
  shows "inv_token (s'\<lparr>pcs := (pcs s)[i := pc]\<rparr>)"
proof -
  note h = num_update [OF i, of holds pc] and f = num_update [OF i, of flags pc]
  have strict: "pcs s ! i = WSetParked \<Longrightarrow> num flags (pcs s) < num holds (pcs s)"
    by (rule num_strict [OF flags_holds, where pc = WSetParked]) (use i in \<open>auto simp: in_set_conv_nth\<close>)
  show ?thesis
    using st h f strict tok unfolding inv_token_def
    by (cases "pcs s ! i") (auto split: if_splits)
qed

lemma worker_wake:
  assumes tok: "inv_token s" and inv: "inv_wake s" and i: "i < length (pcs s)"
    and st: "worker_step ext s i (pcs s ! i) = Some (s', pc)"
  shows "inv_wake (s'\<lparr>pcs := (pcs s)[i := pc]\<rparr>)"
proof -
  have w: "num waiting ((pcs s)[i := pc]) + of_bool (waiting (pcs s ! i)) = num waiting (pcs s) + of_bool (waiting pc)"
    by (rule num_update [OF i])
  have "num waiting (pcs s) \<le> num holds (pcs s)"
    by (rule num_mono) (intro flags_holds waiting_flags)
  then have "num waiting (pcs s) \<le> 1" using tok by (simp add: inv_token_def split: if_splits)
  then show ?thesis
    using st w inv unfolding inv_wake_def wake_due_def
    by (cases "pcs s ! i") (auto split: if_splits)
qed

lemma worker_timer:
  assumes tok: "inv_token s" and inv: "inv_timer s" and i: "i < length (pcs s)"
    and st: "worker_step ext s i (pcs s ! i) = Some (s', pc)"
  shows "inv_timer (s'\<lparr>pcs := (pcs s)[i := pc]\<rparr>)"
  unfolding inv_timer_def
proof (intro allI impI)
  fix d
  assume d: "WPoll d \<in> set (pcs (s'\<lparr>pcs := (pcs s)[i := pc]\<rparr>))"
  then have m: "WPoll d = pc \<or> WPoll d \<in> set (pcs s)"
    using set_update_subset_insert [of "pcs s" i pc] by auto
  have "num waiting (pcs s) \<le> num holds (pcs s)"
    by (rule num_mono) (intro flags_holds waiting_flags)
  moreover have "0 < num waiting ((pcs s)[i := pc])" unfolding num_pos using d by (auto intro!: bexI [of _ "WPoll d"])
  ultimately have "\<not> ((\<exists>d. pcs s ! i = WPoll d) \<and> pc = WClearParked)"
    using num_update [OF i, of waiting pc] tok by (auto simp: inv_token_def split: if_splits)
  then have "ring s' = ring s" using worker_ring [OF st] by auto
  then show "dl_le d (deadline_at (s'\<lparr>pcs := (pcs s)[i := pc]\<rparr>)) \<or> ring (s'\<lparr>pcs := (pcs s)[i := pc]\<rparr>) \<or>
      0 < timer_rings (s'\<lparr>pcs := (pcs s)[i := pc]\<rparr>)"
    using m inv st worker_frame [OF st] unfolding inv_timer_def
    by (cases "pcs s ! i") (auto split: if_splits simp: dl_le_def split: option.splits)
qed

lemma worker_awake:
  assumes tok: "inv_token s" and inv: "inv_awake s" and i: "i < length (pcs s)"
    and st: "worker_step ext s i (pcs s ! i) = Some (s', pc)"
  shows "inv_awake (s'\<lparr>pcs := (pcs s)[i := pc]\<rparr>)"
proof -
  let ?ps = "(pcs s)[i := pc]"
  have "0 < num (\<lambda>pc. pc \<noteq> WThreadPark) ?ps"
  proof (cases "pc = WThreadPark")
    case True
    then have "held s" "\<not> holds (pcs s ! i)" using st by (cases "pcs s ! i"; auto split: if_splits)+
    then have "0 < num holds ?ps" using num_update [OF i, of holds pc] tok by (simp add: inv_token_def)
    then show ?thesis unfolding num_pos using holds_awake by auto
  next
    case False
    then show ?thesis using i by (auto simp: num_pos intro!: bexI [of _ pc] set_update_memI)
  qed
  moreover have "pc = WExit \<Longrightarrow> down s" using st by (cases "pcs s ! i") (auto split: if_splits)
  then have "0 < num (\<lambda>pc. pc = WExit) ?ps \<longrightarrow> down s"
    using inv set_update_subset_insert [of "pcs s" i pc] unfolding inv_awake_def num_pos by auto
  ultimately show ?thesis using inv worker_frame [OF st] by (simp add: inv_awake_def)
qed

text \<open>The steps of the other threads do not move a worker.\<close>

lemma unpark_frame [simp]:
  "pcs (unpark s i) = pcs s" "tasks (unpark s i) = tasks s" "held (unpark s i) = held s"
  "parked (unpark s i) = parked s" "down (unpark s i) = down s" "dropper (unpark s i) = dropper s"
  "timer_rings (unpark s i) = timer_rings s" "deadline_at (unpark s i) = deadline_at s"
  "ring (unpark s i) = ring s" "schedulers (unpark s i) = schedulers s"
  "io_sources (unpark s i) = io_sources s"
  by (simp_all add: unpark_def)

lemma sched_frame:
  assumes "sched_next s p = (s', q)"
  shows "pcs s' = pcs s" "tasks s' = tasks s" "held s' = held s" "parked s' = parked s" "down s' = down s"
    "dropper s' = dropper s" "timer_rings s' = timer_rings s" "deadline_at s' = deadline_at s"
    "ring s \<Longrightarrow> ring s'"
  using assms by (cases p; auto simp: Let_def)+

lemma drop_frame:
  assumes "drop_next s = Some (s', p)"
  shows "pcs s' = pcs s" "tasks s' = tasks s" "held s' = held s" "parked s' = parked s"
    "schedulers s' = schedulers s" "timer_rings s' = timer_rings s" "deadline_at s' = deadline_at s"
    "ring s \<Longrightarrow> ring s'" "down s \<Longrightarrow> down s'" "p \<noteq> Running" "dropper s \<noteq> Running \<Longrightarrow> down s' = down s"
    "dropper s = Running \<Longrightarrow> down s'"
  using assms by (auto split: drop_phase.splits if_splits)

lemma dl_le_trans: "dl_le a b \<Longrightarrow> dl_le b c \<Longrightarrow> dl_le a c"
  by (auto simp: dl_le_def split: option.splits)

lemma sched_wake:
  assumes tok: "inv_token s" and inv: "inv_wake s" and sch: "schedulers s = add_mset p M"
    and st: "sched_next s p = (s', q)"
  shows "inv_wake (s'\<lparr>schedulers := M + phase_set q\<rparr>)"
proof (cases p)
  case LoadParked
  have "num waiting (pcs s) \<le> num flags (pcs s)" by (rule num_mono) (rule waiting_flags)
  then show ?thesis
    using tok st LoadParked by (auto simp: inv_wake_def wake_due_def inv_token_def split: if_splits)
qed (use inv sch st in \<open>auto simp: inv_wake_def wake_due_def Let_def\<close>)

lemma park_inv_step: "park_step s s' \<Longrightarrow> park_inv s \<Longrightarrow> park_inv s'"
proof (induction rule: park_step.cases)
  case (worker i s ext s1 pc)
  then show ?case
    using worker_token worker_wake worker_timer worker_awake by (simp add: park_inv_def)
next
  case (push s)
  then show ?case
    by (auto simp: park_inv_def inv_token_def inv_wake_def inv_timer_def inv_awake_def wake_due_def)
next
  case (scheduler s p M s1 q)
  then show ?case
    using sched_frame [of s p s1 q] sched_wake [of s p M s1 q]
    by (auto simp: park_inv_def inv_token_def inv_timer_def inv_awake_def)
next
  case (timer_insert d s)
  then show ?case
    by (auto simp: park_inv_def inv_token_def inv_wake_def inv_timer_def inv_awake_def wake_due_def)
next
  case (timer_insert_later s d)
  then show ?case
    by (auto simp: park_inv_def inv_token_def inv_wake_def inv_timer_def inv_awake_def wake_due_def)
next
  case (timer_ring s n)
  then show ?case
    by (auto simp: park_inv_def inv_token_def inv_wake_def inv_timer_def inv_awake_def wake_due_def)
next
  case (advance i s d)
  then show ?case
    using dl_le_trans [OF _ advance(5)]
    by (auto simp: park_inv_def inv_token_def inv_wake_def inv_timer_def inv_awake_def wake_due_def)
next
  case (drop_runtime s s1 p)
  note fr = drop_frame [OF drop_runtime(3)]
  have "inv_token (s1\<lparr>dropper := p\<rparr>)" "inv_wake (s1\<lparr>dropper := p\<rparr>)" "inv_timer (s1\<lparr>dropper := p\<rparr>)"
    using drop_runtime(4) fr(1-8) by (auto simp: drop_runtime(1) park_inv_def inv_token_def inv_wake_def inv_timer_def wake_due_def)
  moreover have "inv_awake (s1\<lparr>dropper := p\<rparr>)"
    using drop_runtime(4) fr(1,9-12) by (auto simp: drop_runtime(1) park_inv_def inv_awake_def)
  ultimately show ?case using drop_runtime(2) by (simp add: park_inv_def)
qed

lemma park_inv_new: "park_inv (park_new n io)"
  by (auto simp: park_inv_def inv_token_def inv_wake_def inv_timer_def inv_awake_def park_new_def num_pos)

lemma park_step_length: "park_step s s' \<Longrightarrow> length (pcs s') = length (pcs s)"
  by (induction rule: park_step.cases)
    (auto simp del: drop_next.simps dest: worker_frame(1) sched_frame(1) drop_frame(1))

lemma park_reachable_inv: "park_reachable n s \<Longrightarrow> park_inv s \<and> length (pcs s) = n"
proof (induction rule: park_reachable.induct)
  case (park_start io)
  show ?case by (simp add: park_inv_new) (simp add: park_new_def)
next
  case (park_more s s')
  then show ?case using park_inv_step park_step_length by auto
qed

lemma num_unique:
  assumes "num P ps \<le> 1" and "i < length ps" "j < length ps" and "P (ps ! i)" "P (ps ! j)"
  shows "i = j"
proof -
  have "card {i. i < length ps \<and> P (ps ! i)} \<le> 1"
    using assms(1) by (simp add: num_def length_filter_conv_card)
  then have "\<forall>i \<in> {i. i < length ps \<and> P (ps ! i)}. \<forall>j \<in> {i. i < length ps \<and> P (ps ! i)}. i = j"
    using card_le_Suc0_iff_eq [of "{i. i < length ps \<and> P (ps ! i)}"] by simp
  then show ?thesis using assms(2-5) by blast
qed

section \<open>Shutting down\<close>

text \<open>Where a worker is that has seen the runtime running for the last time before it blocks.\<close>

fun unaware :: "worker_pc \<Rightarrow> bool" where
  "unaware WHasWork = True"
| "unaware WCas = True"
| "unaware WSetParked = True"
| "unaware WRecheck = True"
| "unaware WDeadline = True"
| "unaware (WPoll _) = True"
| "unaware _ = False"

text \<open>How far a worker is from leaving, once the shutdown flag is set.\<close>

fun exit_rank :: "worker_pc \<Rightarrow> nat" where
  "exit_rank WExit = 0"
| "exit_rank WTop = 1"
| "exit_rank WStart = 2"
| "exit_rank WRun = 2"
| "exit_rank WIdle = 2"
| "exit_rank WAdvance = 2"
| "exit_rank WUnhold = 2"
| "exit_rank WThreadPark = 2"
| "exit_rank WPop = 3"
| "exit_rank WRelease = 3"
| "exit_rank WUnparkFlag = 3"
| "exit_rank WClearParked = 4"
| "exit_rank (WPoll _) = 5"
| "exit_rank WDeadline = 6"
| "exit_rank WRecheck = 7"
| "exit_rank WSetParked = 8"
| "exit_rank WCas = 9"
| "exit_rank WHasWork = 10"

lemma exit_rank_decreases:
  assumes "down s" and "worker_step ext s i pc0 = Some (s', pc)"
  shows "exit_rank pc < exit_rank pc0"
  using assms by (cases pc0) (auto split: if_splits)

definition inv_one :: "park \<Rightarrow> bool" where
  "inv_one s \<longleftrightarrow> length (pcs s) = 1 \<and>
     (down s \<and> unaware (pcs s ! 0) \<longrightarrow> ring s \<or> dropper s = DropRing)"

lemma inv_one_step:
  assumes "park_step s s'" and "park_inv s" and "inv_one s"
  shows "inv_one s'"
  using assms
proof (induction rule: park_step.cases)
  case (worker i s ext s1 pc)
  then have i: "i = 0" and l: "length (pcs s) = 1" by (simp_all add: inv_one_def)
  have "unaware pc \<Longrightarrow> down s \<Longrightarrow> unaware (pcs s ! 0)"
    using worker(4) i by (cases "pcs s ! 0") (auto split: if_splits)
  moreover have "ring s1 = ring s \<or> \<not> unaware pc" using worker_ring [OF worker(4)] by auto
  ultimately show ?case
    using worker_frame [OF worker(4)] worker(6) l i by (auto simp: worker(1,2) inv_one_def)
next
  case (scheduler s p M s1 q)
  then show ?case using sched_frame [OF scheduler(4)] by (auto simp: inv_one_def)
next
  case (drop_runtime s s1 p)
  have "down s1 \<longrightarrow> ring s1 \<or> p = DropRing \<or> dropper s \<noteq> Running \<and> ring s = ring s1 \<and> dropper s \<noteq> DropRing"
    using drop_runtime(3) by (auto split: drop_phase.splits if_splits)
  then show ?case
    using drop_runtime drop_frame [OF drop_runtime(3)]
    by (auto simp: inv_one_def park_inv_def inv_awake_def)
qed (auto simp: inv_one_def)

lemma reachable_one: "park_reachable 1 s \<Longrightarrow> inv_one s"
proof (induction rule: park_reachable.induct)
  case (park_more s s')
  then show ?case using inv_one_step park_reachable_inv by blast
qed (simp add: inv_one_def park_new_def)

text \<open>Runs written as the order in which the workers and the dropping thread move.\<close>

datatype mover = Worker nat | Dropper

fun move :: "mover \<Rightarrow> park \<Rightarrow> park option" where
  "move (Worker i) s =
     (if i < length (pcs s)
      then map_option (\<lambda>(s', pc). s'\<lparr>pcs := (pcs s)[i := pc]\<rparr>) (worker_step False s i (pcs s ! i)) else None)"
| "move Dropper s = map_option (\<lambda>(s', p). s'\<lparr>dropper := p\<rparr>) (drop_next s)"

fun moves :: "mover list \<Rightarrow> park \<Rightarrow> park option" where
  "moves [] s = Some s"
| "moves (m # ms) s = (case move m s of None \<Rightarrow> None | Some s' \<Rightarrow> moves ms s')"

lemma move_step: "move m s = Some s' \<Longrightarrow> park_step s s'"
  by (cases m) (auto split: if_splits intro: park_step.worker park_step.drop_runtime)

lemma moves_reachable: "moves ms s = Some s' \<Longrightarrow> park_reachable n s \<Longrightarrow> park_reachable n s'"
  by (induction ms arbitrary: s) (auto split: option.splits dest!: move_step intro: park_more)

text \<open>A single worker that found nothing to do and blocks in the reactor.\<close>

definition sample_parked :: park where
  "sample_parked = \<lparr>tasks = 0, held = True, parked = True, ring = False, down = False, deadline_at = None,
     io_sources = False, cursor = 0, unpark_tokens = [False], pcs = [WPoll None], schedulers = {#},
     timer_rings = 0, dropper = Running\<rparr>"

lemma sample_parked_reachable: "park_reachable 1 sample_parked"
proof -
  have "moves (replicate 9 (Worker 0)) (park_new 1 False) = Some sample_parked"
    by (simp add: park_new_def numeral_eq_Suc sample_parked_def)
  from moves_reachable [OF this park_start] show ?thesis .
qed

section \<open>Properties of parking\<close>

text \<open>
  The driver token is exclusive: at most one worker at a time is between taking and
  releasing it, so at most one is inside \<open>Reactor::poll\<close>; \<open>driver_held\<close> is set exactly while there is
  such a worker, and \<open>driver_parked\<close> exactly while that worker may be blocked in the reactor.
\<close>

lemma driver_token_exclusive:
  assumes "park_reachable n s"
  shows "(\<forall>i < n. \<forall>j < n. holds (pcs s ! i) \<and> holds (pcs s ! j) \<longrightarrow> i = j) \<and>
     (held s \<longleftrightarrow> (\<exists>i < n. holds (pcs s ! i))) \<and> (parked s \<longleftrightarrow> (\<exists>i < n. flags (pcs s ! i)))"
proof -
  have l: "length (pcs s) = n" and tok: "inv_token s"
    using park_reachable_inv [OF assms] by (simp_all add: park_inv_def)
  have h: "held s \<longleftrightarrow> 0 < num holds (pcs s)" and p: "parked s \<longleftrightarrow> 0 < num flags (pcs s)"
    using tok by (simp_all add: inv_token_def)
  have "num holds (pcs s) \<le> 1" using tok by (simp add: inv_token_def)
  then show ?thesis
    unfolding h p num_pos using l num_unique [of holds "pcs s"] by (auto simp: in_set_conv_nth Bex_def)
qed

theorem driver_token_exclusive_witness: "\<exists>s. park_reachable 1 s \<and> holds (pcs s ! 0) \<and> held s \<and> parked s"
  using driver_token_exclusive [OF sample_parked_reachable] sample_parked_reachable
  by (intro exI [of _ sample_parked]) (simp add: sample_parked_def)

text \<open>
  Claim C2. No wakeup is lost: while the runtime runs, if no worker can move then some worker is
  blocked in the reactor with the flag set, and every queued task has a scheduler that has yet to look
  at the flag or is about to ring; and unless a timer registration is about to ring, the reactor's
  timeout is no later than the earliest pending deadline.
\<close>

theorem no_lost_wakeup:
  assumes "park_reachable n s" and "0 < n" and "\<not> down s"
    and "\<forall>i < n. worker_step False s i (pcs s ! i) = None"
  shows "parked s \<and> (0 < tasks s \<longrightarrow> LoadParked \<in># schedulers s \<or> RingReactor \<in># schedulers s) \<and>
     (\<exists>i < n. \<exists>d. pcs s ! i = WPoll d \<and> (dl_le d (deadline_at s) \<or> 0 < timer_rings s))"
proof -
  have inv: "inv_token s" "inv_wake s" "inv_timer s" "inv_awake s" and l: "length (pcs s) = n"
    using park_reachable_inv [OF assms(1)] by (simp_all add: park_inv_def)
  obtain i where i: "i < n" "pcs s ! i \<noteq> WThreadPark"
    using inv(4) l assms(2) unfolding inv_awake_def num_pos by (auto simp: in_set_conv_nth)
  have "pcs s ! i \<noteq> WExit" using inv(4) l assms(3) i unfolding inv_awake_def num_pos by (auto simp: in_set_conv_nth)
  then obtain d where d: "pcs s ! i = WPoll d" and r: "\<not> ring s"
    using assms(4) i by (cases "pcs s ! i") (fastforce split: if_splits)+
  then have m: "WPoll d \<in> set (pcs s)" using i l by (metis nth_mem)
  then have "0 < num flags (pcs s)" "0 < num waiting (pcs s)"
    unfolding num_pos by (auto intro!: bexI [of _ "WPoll d"])
  then show ?thesis
    using inv(1-3) m r i d unfolding inv_token_def inv_wake_def wake_due_def inv_timer_def
    by (auto split: if_splits)
qed

theorem no_lost_wakeup_witness:
  "\<exists>s. park_reachable 1 s \<and> 0 < tasks s \<and> worker_step False s 0 (pcs s ! 0) = None \<and>
     (LoadParked \<in># schedulers s \<or> RingReactor \<in># schedulers s)"
proof -
  let ?s = "sample_parked\<lparr>tasks := tasks sample_parked + 1,
    schedulers := add_mset LoadParked (schedulers sample_parked)\<rparr>"
  have r: "park_reachable 1 ?s" by (rule park_more [OF sample_parked_reachable push])
  have b: "worker_step False ?s 0 (pcs ?s ! 0) = None" by (simp add: sample_parked_def)
  have "0 < tasks ?s" "\<not> down ?s" by (simp_all add: sample_parked_def)
  with no_lost_wakeup [OF r, simplified] b r show ?thesis
    by (intro exI [of _ ?s]) auto
qed

text \<open>
  Claim C27. A runtime with one worker shuts down: once \<open>Multi::drop\<close> is waiting for its worker, the
  worker is never blocked before it leaves, and each of its steps brings it closer to leaving,
  whatever other threads do in between.
\<close>

theorem shutdown_single_worker:
  assumes "park_reachable 1 s" and "dropper s = DropJoin"
  shows "pcs s = [WExit] \<or> (\<forall>ext. \<exists>s' pc. worker_step ext s 0 (pcs s ! 0) = Some (s', pc) \<and>
     exit_rank pc < exit_rank (pcs s ! 0))"
proof -
  have one: "inv_one s" by (rule reachable_one [OF assms(1)])
  have aw: "inv_awake s" using park_reachable_inv [OF assms(1)] by (simp add: park_inv_def)
  then have down: "down s" using assms(2) by (simp add: inv_awake_def)
  obtain pc0 where pc0: "pcs s = [pc0]" using one by (auto simp: inv_one_def length_Suc_conv)
  show ?thesis
  proof (cases "pc0 = WExit")
    case False
    have "\<exists>s' pc. worker_step ext s 0 pc0 = Some (s', pc)" for ext
      using one aw down assms(2) pc0 False
      by (cases pc0) (auto simp: inv_one_def inv_awake_def num_def)
    then show ?thesis using exit_rank_decreases [OF down] pc0 by fastforce
  qed (simp add: pc0)
qed

theorem shutdown_single_worker_witness:
  "\<exists>s s' pc. park_reachable 1 s \<and> dropper s = DropJoin \<and> worker_step False s 0 (WPoll None) = Some (s', pc)"
proof -
  let ?s = "sample_parked\<lparr>down := True, ring := True, unpark_tokens := [True], dropper := DropJoin\<rparr>"
  have "moves (replicate 4 Dropper) sample_parked = Some ?s"
    by (simp add: numeral_eq_Suc sample_parked_def unpark_def)
  from moves_reachable [OF this sample_parked_reachable] have r: "park_reachable 1 ?s" .
  from shutdown_single_worker [OF r] have "\<exists>s' pc. worker_step False ?s 0 (WPoll None) = Some (s', pc)"
    by (auto simp: sample_parked_def)
  moreover have "dropper ?s = DropJoin" by simp
  ultimately show ?thesis using r by blast
qed

text \<open>
  Claim C28. With two workers, dropping the runtime can hang: there is a run in which \<open>Multi::drop\<close> has
  set the flag, rung the reactor, unparked everybody and waits for its threads, one worker has left,
  and the other is blocked in \<open>Reactor::poll\<close> with no timeout and nothing to end it. It had looked at
  the flag before the shutdown and took the driver token after the first worker had consumed the
  ring.
\<close>

theorem shutdown_hang:
  "\<exists>s. park_reachable 2 s \<and> down s \<and> pcs s = [WExit, WPoll None] \<and> dropper s = DropJoin \<and>
     tasks s = 0 \<and> schedulers s = {#} \<and> timer_rings s = 0 \<and> drop_next s = None \<and>
     (\<forall>ext. worker_step ext s 0 (pcs s ! 0) = None \<and> worker_step ext s 1 (pcs s ! 1) = None)"
proof -
  let ?ms = "replicate 9 (Worker 0) @ replicate 5 (Worker 1) @ replicate 5 Dropper @
    replicate 5 (Worker 0) @ replicate 4 (Worker 1)"
  let ?s = "\<lparr>tasks = 0, held = True, parked = True, ring = False, down = True, deadline_at = None,
     io_sources = False, cursor = 0, unpark_tokens = [True, True], pcs = [WExit, WPoll None], schedulers = {#},
     timer_rings = 0, dropper = DropJoin\<rparr>"
  have "moves ?ms (park_new 2 False) = Some ?s"
    by (simp add: park_new_def numeral_eq_Suc unpark_def)
  from moves_reachable [OF this park_start] show ?thesis
    by (intro exI [of _ ?s]) auto
qed

end
