(* ===== verification/Runtime.thy ===== *)
theory Runtime
  imports Executor Sleep
begin

text \<open>
  The thread-local context of \<^verbatim>\<open>src/src/runtime/context.rs\<close>, the guards a worker thread installs
  around its run loop, and the entry points of \<^verbatim>\<open>src/src/runtime/mod.rs\<close>, \<^verbatim>\<open>src/src/executor/mod.rs\<close> and
  \<^verbatim>\<open>src/src/lib.rs\<close>: creating, using and dropping runtimes from a thread that may itself be a worker.
  A runtime is known by its index in the list of runtimes, and so are its reactor, its handle and its
  timer driver. What a thread does is a function from its context to the context it leaves and an
  outcome, and a guard is a bracket that runs its drop also when the body unwinds.
\<close>

section \<open>The thread-local context\<close>

record thread_locals =
  CTX :: "nat option"
  HANDLE :: "nat option"
  IS_WORKER :: bool
  DRIVER :: "nat option"

definition fresh_thread :: thread_locals where
  "fresh_thread = \<lparr>CTX = None, HANDLE = None, IS_WORKER = False, DRIVER = None\<rparr>"

definition guard_install :: "nat \<Rightarrow> thread_locals \<Rightarrow> thread_locals outcome" where
  "guard_install r c =
     (if CTX c = None then Inr (c\<lparr>CTX := Some r\<rparr>)
      else Inl (AssertFailed ''nanorun runtime already installed on this thread; nested block_on is unsupported''))"

definition guard_drop :: "thread_locals \<Rightarrow> thread_locals" where
  "guard_drop c = c\<lparr>CTX := None\<rparr>"

definition try_with_current :: "thread_locals \<Rightarrow> (nat \<Rightarrow> 'a) \<Rightarrow> 'a option" where
  "try_with_current c f = (case CTX c of None \<Rightarrow> None | Some r \<Rightarrow> Some (f r))"

definition with_current :: "thread_locals \<Rightarrow> (nat \<Rightarrow> 'a) \<Rightarrow> 'a outcome" where
  "with_current c f =
     (case try_with_current c f of
        Some x \<Rightarrow> Inr x
      | None \<Rightarrow> Inl (ExpectFailed ''no nanorun runtime installed on this thread; call this from inside Runtime::block_on or nanorun::block_on''))"

definition handle_guard_install :: "nat \<Rightarrow> thread_locals \<Rightarrow> thread_locals outcome" where
  "handle_guard_install h c =
     (if HANDLE c = None then Inr (c\<lparr>HANDLE := Some h\<rparr>)
      else Inl (AssertFailed ''nanorun handle already installed on this thread''))"

definition handle_guard_drop :: "thread_locals \<Rightarrow> thread_locals" where
  "handle_guard_drop c = c\<lparr>HANDLE := None\<rparr>"

definition current_handle :: "thread_locals \<Rightarrow> nat option" where
  "current_handle c = HANDLE c"

definition worker_marker_enter :: "thread_locals \<Rightarrow> thread_locals outcome" where
  "worker_marker_enter c =
     (if \<not> IS_WORKER c then Inr (c\<lparr>IS_WORKER := True\<rparr>)
      else Inl (AssertFailed ''nanorun WorkerMarker already installed on this thread''))"

definition worker_marker_drop :: "thread_locals \<Rightarrow> thread_locals" where
  "worker_marker_drop c = c\<lparr>IS_WORKER := False\<rparr>"

definition is_worker :: "thread_locals \<Rightarrow> bool" where
  "is_worker c = IS_WORKER c"

definition driver_guard_install :: "nat \<Rightarrow> thread_locals \<Rightarrow> thread_locals outcome" where
  "driver_guard_install d c =
     (if DRIVER c = None then Inr (c\<lparr>DRIVER := Some d\<rparr>)
      else Inl (AssertFailed ''nanorun timer driver already installed on this thread''))"

definition driver_guard_drop :: "thread_locals \<Rightarrow> thread_locals" where
  "driver_guard_drop c = c\<lparr>DRIVER := None\<rparr>"

text \<open>
  A guard brackets the rest of its scope: when \<open>install\<close> panics nothing has been installed, and
  otherwise the drop runs after the body, whether that returns or unwinds.
\<close>

definition bracket ::
  "(thread_locals \<Rightarrow> thread_locals outcome) \<Rightarrow> (thread_locals \<Rightarrow> thread_locals) \<Rightarrow>
     (thread_locals \<Rightarrow> thread_locals \<times> 'a outcome) \<Rightarrow> thread_locals \<Rightarrow> thread_locals \<times> 'a outcome" where
  "bracket install release body c =
     (case install c of
        Inl p \<Rightarrow> (c, Inl p)
      | Inr c1 \<Rightarrow> (let (c2, r) = body c1 in (release c2, r)))"

definition run_worker ::
  "nat \<Rightarrow> (thread_locals \<Rightarrow> thread_locals \<times> 'a outcome) \<Rightarrow> thread_locals \<Rightarrow> thread_locals \<times> 'a outcome" where
  "run_worker rt body =
     bracket worker_marker_enter worker_marker_drop
       (bracket (handle_guard_install rt) handle_guard_drop
         (bracket (guard_install rt) guard_drop
           (bracket (driver_guard_install rt) driver_guard_drop body)))"

definition worker_thread :: "nat \<Rightarrow> thread_locals" where
  "worker_thread rt = \<lparr>CTX = Some rt, HANDLE = Some rt, IS_WORKER = True, DRIVER = Some rt\<rparr>"

section \<open>Runtimes\<close>

record ('t, 'w) runtime =
  rt_shared :: "'t shared"
  rt_driver :: "'w driver"

text \<open>What the operating system answers: whether a reactor and the worker threads can be
  created and the reactor rung, and how many threads it recommends.\<close>

record os =
  reactor_ok :: bool
  thread_ok :: bool
  wake_ok :: bool
  parallelism :: "nat option"

type_synonym ('t, 'w) world = "('t, 'w) runtime list"

definition with_workers :: "os \<Rightarrow> nat \<Rightarrow> ('t, 'w) world \<Rightarrow> nat \<Rightarrow> (('t, 'w) world \<times> nat) outcome" where
  "with_workers os now w worker_count =
     obind (shared_new worker_count) (\<lambda>sh.
       if \<not> reactor_ok os then Inl (ExpectFailed ''reactor::new'')
       else if \<not> thread_ok os then Inl (ExpectFailed ''spawn worker thread'')
       else Inr (w @ [\<lparr>rt_shared = sh, rt_driver = driver_new now\<rparr>], length w))"

definition runtime_new :: "os \<Rightarrow> nat \<Rightarrow> ('t, 'w) world \<Rightarrow> (('t, 'w) world \<times> nat) outcome" where
  "runtime_new os now w = with_workers os now w (case parallelism os of None \<Rightarrow> 1 | Some n \<Rightarrow> n)"

definition runtime_spawn :: "('t, 'w) world \<Rightarrow> nat \<Rightarrow> 't \<Rightarrow> ('t, 'w) world" where
  "runtime_spawn w rt t = w[rt := (w ! rt)\<lparr>rt_shared := fst (spawn (rt_shared (w ! rt)) t)\<rparr>]"

definition handle_try_current :: "thread_locals \<Rightarrow> nat option" where
  "handle_try_current c = current_handle c"

definition handle_current :: "thread_locals \<Rightarrow> nat outcome" where
  "handle_current c =
     (case current_handle c of
        Some h \<Rightarrow> Inr h
      | None \<Rightarrow> Inl (ExpectFailed ''Handle::current() called outside a nanorun runtime worker thread; use Runtime::handle on any thread, or call this only from inside a spawned task''))"

definition spawn_current :: "thread_locals \<Rightarrow> ('t, 'w) world \<Rightarrow> 't \<Rightarrow> ('t, 'w) world outcome" where
  "spawn_current c w t = obind (handle_current c) (\<lambda>h. Inr (runtime_spawn w h t))"

text \<open>
  \<open>block_on_handle\<close>: the assertion, then the loop that polls the join handle until it is ready. The
  value the loop ends with is \<open>v\<close>; the loop itself, and that it ends with the task's output, is the subject of
  theory \<open>BlockOn\<close>.
\<close>

definition block_on_handle :: "thread_locals \<Rightarrow> 'v \<Rightarrow> 'v outcome" where
  "block_on_handle c v =
     (if is_worker c
      then Inl (AssertFailed ''Runtime::block_on cannot be called from inside a nanorun runtime worker thread'')
      else Inr v)"

definition runtime_block_on :: "thread_locals \<Rightarrow> ('t, 'w) world \<Rightarrow> nat \<Rightarrow> 't \<Rightarrow> 'v \<Rightarrow> ('t, 'w) world \<times> 'v outcome" where
  "runtime_block_on c w rt t v = (let w1 = runtime_spawn w rt t in (w1, block_on_handle c v))"

text \<open>
  \<open>Multi::drop\<close>. Its workers may still take tasks and register timers until they are joined; \<open>finish\<close>
  is what they do to their runtime in that time, and whether one of them has panicked. A join may never return,
  for one because a worker misses the shutdown (theory \<open>Parking\<close>) or because it waits for its own thread; then \<open>finish\<close>
  is \<open>None\<close>, and so is the drop.
\<close>

definition multi_clear :: "('t, 'w) runtime \<Rightarrow> ('t, 'w) runtime" where
  "multi_clear r = r\<lparr>rt_shared := drain_queues (rt_shared r), rt_driver := driver_clear (rt_driver r)\<rparr>"

definition multi_drop ::
  "os \<Rightarrow> (('t, 'w) runtime \<Rightarrow> (('t, 'w) runtime \<times> bool) option) \<Rightarrow> thread_locals \<Rightarrow> ('t, 'w) world \<Rightarrow> nat \<Rightarrow>
     (thread_locals \<times> ('t, 'w) world \<times> unit outcome) option" where
  "multi_drop os finish c w rt =
     (let r1 = (w ! rt)\<lparr>rt_shared := (rt_shared (w ! rt))\<lparr>shutdown := True\<rparr>\<rparr> in
      if \<not> wake_ok os then Some (c, w[rt := r1], Inl (ExpectFailed ''reactor wake from shutdown''))
      else (case finish r1 of
          None \<Rightarrow> None
        | Some (r2, panicked) \<Rightarrow>
            if panicked then Some (c, w[rt := r2], Inl (ExpectFailed ''worker thread panicked''))
            else let (c', r) = bracket (guard_install rt) guard_drop (\<lambda>c1. (c1, Inr (multi_clear r2))) c in
              (case r of
                 Inr r3 \<Rightarrow> Some (c', w[rt := r3], Inr ())
               | Inl p \<Rightarrow> Some (c', w[rt := r2], Inl p))))"

text \<open>A panic while another one unwinds aborts the process.\<close>

datatype 'v ending = Returned 'v | Unwound panic | Aborted

definition drop_ending :: "'v outcome \<Rightarrow> unit outcome \<Rightarrow> 'v ending" where
  "drop_ending r d =
     (case (r, d) of
        (Inr v, Inr _) \<Rightarrow> Returned v
      | (Inr v, Inl p) \<Rightarrow> Unwound p
      | (Inl p, Inr _) \<Rightarrow> Unwound p
      | (Inl p, Inl _) \<Rightarrow> Aborted)"

text \<open>The free \<open>block_on\<close>: a one-shot runtime that is dropped at the end of the call.\<close>

definition block_on ::
  "os \<Rightarrow> nat \<Rightarrow> (('t, 'w) runtime \<Rightarrow> (('t, 'w) runtime \<times> bool) option) \<Rightarrow> thread_locals \<Rightarrow> ('t, 'w) world \<Rightarrow> 't \<Rightarrow> 'v \<Rightarrow>
     (thread_locals \<times> ('t, 'w) world \<times> 'v ending) option" where
  "block_on os now finish c w t v =
     (case with_workers os now w 1 of
        Inl p \<Rightarrow> Some (c, w, Unwound p)
      | Inr (w1, rt) \<Rightarrow>
          let (w2, r) = runtime_block_on c w1 rt t v in
          map_option (\<lambda>(c', w3, d). (c', w3, drop_ending r d)) (multi_drop os finish c w2 rt))"

section \<open>Guards\<close>

lemmas guard_defs = bracket_def worker_marker_enter_def worker_marker_drop_def handle_guard_install_def
  handle_guard_drop_def guard_install_def guard_drop_def driver_guard_install_def driver_guard_drop_def

lemma run_worker_fresh:
  "run_worker rt body fresh_thread = (fresh_thread, snd (body (worker_thread rt)))"
  by (cases "body (worker_thread rt)")
    (simp add: run_worker_def guard_defs fresh_thread_def worker_thread_def)

lemma run_worker_nested:
  "IS_WORKER c \<Longrightarrow> run_worker rt body c = (c, Inl (AssertFailed ''nanorun WorkerMarker already installed on this thread''))"
  by (simp add: run_worker_def guard_defs)

lemma with_workers_one:
  assumes "reactor_ok os" and "thread_ok os"
  obtains r where "with_workers os now w (Suc 0) = Inr (w @ [r], length w)"
  using assms by (simp add: with_workers_def shared_new_def)

section \<open>Properties of runtimes\<close>

text \<open>
  Whatever the run loop does, and whether it returns or unwinds, it runs on its thread with
  the runtime's reactor, handle and timer driver installed and the thread marked as a worker, and it
  leaves the thread's context as a fresh thread has it. Inside, \<open>Handle::current\<close> and \<open>with_current\<close>
  reach that runtime; outside they panic.
\<close>

lemma worker_context:
  "run_worker rt body fresh_thread = (fresh_thread, snd (body (worker_thread rt))) \<and>
     handle_current (worker_thread rt) = Inr rt \<and> with_current (worker_thread rt) f = Inr (f rt) \<and>
     is_worker (worker_thread rt) \<and> DRIVER (worker_thread rt) = Some rt \<and>
     spawn_current (worker_thread rt) w t = Inr (runtime_spawn w rt t) \<and>
     (\<exists>p. handle_current fresh_thread = Inl p) \<and> (\<exists>p. with_current fresh_thread f = Inl p) \<and>
     (\<exists>p. spawn_current fresh_thread w t = Inl p) \<and> \<not> is_worker fresh_thread"
  by (intro conjI run_worker_fresh)
    (simp_all add: handle_current_def current_handle_def with_current_def try_with_current_def is_worker_def
      spawn_current_def worker_thread_def fresh_thread_def)

text \<open>
  The free \<open>block_on\<close> on a thread that is not a worker returns the future's value, restores
  the thread's context, touches no other runtime, and leaves its own runtime shut down with no task in
  any queue and no waker in the timer driver.
\<close>

lemma block_on_one_shot:
  assumes "reactor_ok os" and "thread_ok os" and "wake_ok os" and "CTX c = None" and "\<not> is_worker c"
    and "\<And>r. \<exists>r'. finish r = Some (r', False) \<and> shutdown (rt_shared r') = shutdown (rt_shared r)"
  shows "\<exists>r. block_on os now finish c w t v = Some (c, w @ [r], Returned v) \<and>
     shutdown (rt_shared r) \<and> all_tasks (rt_shared r) = {#} \<and> wakers (rt_driver r) = Map.empty"
proof -
  obtain w1 where w1: "with_workers os now w (Suc 0) = Inr (w @ [w1], length w)"
    by (rule with_workers_one [OF assms(1,2)])
  let ?r1 = "w1\<lparr>rt_shared := (fst (spawn (rt_shared w1) t))\<lparr>shutdown := True\<rparr>\<rparr>"
  obtain r2 where r2: "finish ?r1 = Some (r2, False)" "shutdown (rt_shared r2)"
    using assms(6) [of ?r1] by auto
  have "all_tasks (drain_queues (rt_shared r2)) = {#}"
    by (simp add: all_tasks_def local_tasks_def drain_queues_def image_mset.compositionality comp_def)
  moreover have "shutdown (drain_queues (rt_shared r2))" using r2(2) by (simp add: drain_queues_def)
  moreover have "block_on os now finish c w t v = Some (c, w @ [multi_clear r2], Returned v)"
    using assms(3-5) r2(1)
    by (simp add: block_on_def w1 runtime_block_on_def runtime_spawn_def multi_drop_def block_on_handle_def
        guard_defs drop_ending_def)
  ultimately show ?thesis
    by (intro exI [of _ "multi_clear r2"]) (simp add: multi_clear_def driver_clear_def)
qed

theorem block_on_one_shot_witness:
  "\<exists>r. block_on \<lparr>reactor_ok = True, thread_ok = True, wake_ok = True, parallelism = None\<rparr> 0 (\<lambda>r. Some (r, False))
     fresh_thread [] ''task'' (42 :: nat) = Some (fresh_thread, [r :: (string, string) runtime], Returned 42)"
proof -
  let ?os = "\<lparr>reactor_ok = True, thread_ok = True, wake_ok = True, parallelism = None\<rparr>"
  have a: "reactor_ok ?os" "thread_ok ?os" "wake_ok ?os" "CTX fresh_thread = None" "\<not> is_worker fresh_thread"
    by (simp_all add: fresh_thread_def is_worker_def)
  from block_on_one_shot [OF a, of "\<lambda>r. Some (r, False)" 0 "[] :: (string, string) world" "''task''" "42 :: nat"]
  show ?thesis by auto
qed

text \<open>
  Claim C34. On a worker thread the entry points fail late: \<open>Runtime::block_on\<close> panics only after it has
  queued the future, which will run all the same; and where the joins of the dropped runtime's workers return,
  the free \<open>block_on\<close> aborts the process, since the one-shot runtime it drops while unwinding panics again in
  \<open>Guard::install\<close>, and dropping any runtime there panics after its workers have left and before its queues
  and timers are released.
\<close>

theorem nested_runtime_panics:
  assumes "reactor_ok os" and "thread_ok os" and "wake_ok os" and "rt < length w"
    and "\<And>r. \<exists>r'. finish r = Some (r', False)"
  shows "(\<exists>p. runtime_block_on (worker_thread k) w rt t v = (runtime_spawn w rt t, Inl p)) \<and>
     injector (rt_shared (runtime_spawn w rt t ! rt)) = injector (rt_shared (w ! rt)) @ [t] \<and>
     (\<exists>c' w'. block_on os now finish (worker_thread k) w t v = Some (c', w', Aborted)) \<and>
     (\<exists>p r2. finish ((w ! rt)\<lparr>rt_shared := (rt_shared (w ! rt))\<lparr>shutdown := True\<rparr>\<rparr>) = Some (r2, False) \<and>
        multi_drop os finish (worker_thread k) w rt = Some (worker_thread k, w[rt := r2], Inl p))"
proof -
  obtain w1 where w1: "with_workers os now w (Suc 0) = Inr (w @ [w1], length w)"
    by (rule with_workers_one [OF assms(1,2)])
  have drop: "\<exists>p r2. finish ((u ! i)\<lparr>rt_shared := (rt_shared (u ! i))\<lparr>shutdown := True\<rparr>\<rparr>) = Some (r2, False) \<and>
      multi_drop os finish (worker_thread k) u i = Some (worker_thread k, u[i := r2], Inl p)" for u i
    using assms(5) [of "(u ! i)\<lparr>rt_shared := (rt_shared (u ! i))\<lparr>shutdown := True\<rparr>\<rparr>"]
    by (auto simp: multi_drop_def assms(3) guard_defs worker_thread_def)
  obtain p r2 where "multi_drop os finish (worker_thread k) (runtime_spawn (w @ [w1]) (length w) t) (length w) =
      Some (worker_thread k, (runtime_spawn (w @ [w1]) (length w) t)[length w := r2], Inl p)"
    using drop by blast
  then have "\<exists>c' w'. block_on os now finish (worker_thread k) w t v = Some (c', w', Aborted)"
    by (simp add: block_on_def w1 runtime_block_on_def block_on_handle_def is_worker_def worker_thread_def
        drop_ending_def)
  moreover have "injector (rt_shared (runtime_spawn w rt t ! rt)) = injector (rt_shared (w ! rt)) @ [t]"
    using assms(4) by (simp add: runtime_spawn_def spawn_eq)
  ultimately show ?thesis
    using drop [of w rt] by (simp add: runtime_block_on_def block_on_handle_def is_worker_def worker_thread_def)
qed

theorem nested_runtime_panics_witness:
  "\<exists>w :: (string, string) world. with_workers \<lparr>reactor_ok = True, thread_ok = True, wake_ok = True, parallelism = None\<rparr>
       0 [] 2 = Inr (w, 0) \<and>
     (\<exists>c' w'. block_on \<lparr>reactor_ok = True, thread_ok = True, wake_ok = True, parallelism = None\<rparr> 0 (\<lambda>r. Some (r, False))
       (worker_thread 0) w ''task'' (42 :: nat) = Some (c', w', Aborted))"
proof -
  let ?os = "\<lparr>reactor_ok = True, thread_ok = True, wake_ok = True, parallelism = None\<rparr>"
  obtain w :: "(string, string) world" where w: "with_workers ?os 0 [] 2 = Inr (w, 0)" "length w = 1"
    by (simp add: with_workers_def shared_new_def)
  have a: "reactor_ok ?os" "thread_ok ?os" "wake_ok ?os" "0 < length w" using w by simp_all
  from nested_runtime_panics [OF a, of "\<lambda>r. Some (r, False)" 0 "''task''" "42 :: nat" 0] w(1)
  show ?thesis by auto
qed

end
