(* ===== verification/Sockaddr.thy ===== *)
theory Sockaddr
  imports Prelude
begin

text \<open>
  Socket addresses in memory: \<open>sockaddr_storage_from\<close>, the two writers and \<open>sockaddr_to_socketaddr\<close> of
  \<^verbatim>\<open>src/src/sys/linux/socket.rs\<close> and of \<^verbatim>\<open>src/src/sys/windows/socket.rs\<close>. A structure is a record of machine words,
  and the storage is the list of its bytes; the target's byte order is an argument. The address family
  constants come from libc and windows-sys and are arguments too.
\<close>

unbundle bit_operations_syntax

section \<open>Byte order\<close>

definition swap16 :: "u16 \<Rightarrow> u16" where
  "swap16 x = push_bit 8 x OR drop_bit 8 x"

definition to_be16 :: "bool \<Rightarrow> u16 \<Rightarrow> u16" where
  "to_be16 big x = (if big then x else swap16 x)"

definition from_be16 :: "bool \<Rightarrow> u16 \<Rightarrow> u16" where
  "from_be16 big x = (if big then x else swap16 x)"

definition to_ne16 :: "bool \<Rightarrow> u16 \<Rightarrow> u8 list" where
  "to_ne16 big x = (let bs = [ucast x, ucast (drop_bit 8 x)] in if big then rev bs else bs)"

definition from_ne16 :: "bool \<Rightarrow> u8 list \<Rightarrow> u16" where
  "from_ne16 big bs = (let cs = (if big then rev bs else bs) in ucast (cs ! 0) OR push_bit 8 (ucast (cs ! 1)))"

definition to_ne32 :: "bool \<Rightarrow> u32 \<Rightarrow> u8 list" where
  "to_ne32 big x =
     (let bs = [ucast x, ucast (drop_bit 8 x), ucast (drop_bit 16 x), ucast (drop_bit 24 x)] in
      if big then rev bs else bs)"

definition from_ne32 :: "bool \<Rightarrow> u8 list \<Rightarrow> u32" where
  "from_ne32 big bs =
     (let cs = (if big then rev bs else bs) in
      ucast (cs ! 0) OR push_bit 8 (ucast (cs ! 1)) OR push_bit 16 (ucast (cs ! 2)) OR push_bit 24 (ucast (cs ! 3)))"

section \<open>Addresses\<close>

text \<open>The octets of an address are a list of fixed length, as \<open>octets()\<close> returns them.\<close>

datatype socket_addr =
    V4 "u8 list" u16
  | V6 "u8 list" u16 u32 u32

fun addr_wf :: "socket_addr \<Rightarrow> bool" where
  "addr_wf (V4 octets port) \<longleftrightarrow> length octets = 4"
| "addr_wf (V6 octets port flowinfo scope) \<longleftrightarrow> length octets = 16"

record sockaddr_in =
  sin_family :: u16
  sin_port :: u16
  s_addr :: u32
  sin_zero :: "u8 list"

record sockaddr_in6 =
  sin6_family :: u16
  sin6_port :: u16
  sin6_flowinfo :: u32
  s6_addr :: "u8 list"
  sin6_scope_id :: u32

definition STORAGE_SIZE :: nat where "STORAGE_SIZE = 128"
definition SIN_SIZE :: nat where "SIN_SIZE = 16"
definition SIN6_SIZE :: nat where "SIN6_SIZE = 28"

text \<open>The C layout of the two structures, and the bytewise copy to the front of the storage.\<close>

definition bytes_of_sin :: "bool \<Rightarrow> sockaddr_in \<Rightarrow> u8 list" where
  "bytes_of_sin big sin = to_ne16 big (sin_family sin) @ to_ne16 big (sin_port sin) @ to_ne32 big (s_addr sin) @ sin_zero sin"

definition sin_of_bytes :: "bool \<Rightarrow> u8 list \<Rightarrow> sockaddr_in" where
  "sin_of_bytes big bs = \<lparr>sin_family = from_ne16 big (take 2 bs), sin_port = from_ne16 big (take 2 (drop 2 bs)),
     s_addr = from_ne32 big (take 4 (drop 4 bs)), sin_zero = take 8 (drop 8 bs)\<rparr>"

definition bytes_of_sin6 :: "bool \<Rightarrow> sockaddr_in6 \<Rightarrow> u8 list" where
  "bytes_of_sin6 big sin6 = to_ne16 big (sin6_family sin6) @ to_ne16 big (sin6_port sin6) @
     to_ne32 big (sin6_flowinfo sin6) @ s6_addr sin6 @ to_ne32 big (sin6_scope_id sin6)"

definition sin6_of_bytes :: "bool \<Rightarrow> u8 list \<Rightarrow> sockaddr_in6" where
  "sin6_of_bytes big bs = \<lparr>sin6_family = from_ne16 big (take 2 bs), sin6_port = from_ne16 big (take 2 (drop 2 bs)),
     sin6_flowinfo = from_ne32 big (take 4 (drop 4 bs)), s6_addr = take 16 (drop 8 bs),
     sin6_scope_id = from_ne32 big (take 4 (drop 24 bs))\<rparr>"

definition ss_family :: "bool \<Rightarrow> u8 list \<Rightarrow> u16" where
  "ss_family big storage = from_ne16 big (take 2 storage)"

definition copy_to :: "u8 list \<Rightarrow> u8 list \<Rightarrow> u8 list" where
  "copy_to storage bs = bs @ drop (length bs) storage"

section \<open>Linux\<close>

definition write_sockaddr_in :: "bool \<Rightarrow> int \<Rightarrow> u8 list \<Rightarrow> u8 list \<Rightarrow> u16 \<Rightarrow> u8 list \<times> nat" where
  "write_sockaddr_in big af_inet storage octets port =
     (let sin = \<lparr>sin_family = word_of_int af_inet, sin_port = to_be16 big port, s_addr = from_ne32 big octets,
          sin_zero = replicate 8 0\<rparr>
      in (copy_to storage (bytes_of_sin big sin), SIN_SIZE))"

definition write_sockaddr_in6 ::
  "bool \<Rightarrow> int \<Rightarrow> u8 list \<Rightarrow> u8 list \<Rightarrow> u16 \<Rightarrow> u32 \<Rightarrow> u32 \<Rightarrow> u8 list \<times> nat" where
  "write_sockaddr_in6 big af_inet6 storage octets port flowinfo scope =
     (let sin6 = \<lparr>sin6_family = word_of_int af_inet6, sin6_port = to_be16 big port, sin6_flowinfo = flowinfo,
          s6_addr = octets, sin6_scope_id = scope\<rparr>
      in (copy_to storage (bytes_of_sin6 big sin6), SIN6_SIZE))"

definition sockaddr_storage_from :: "bool \<Rightarrow> int \<Rightarrow> int \<Rightarrow> socket_addr \<Rightarrow> u8 list \<times> nat" where
  "sockaddr_storage_from big af_inet af_inet6 addr =
     (let storage = replicate STORAGE_SIZE 0 in
      case addr of
        V4 octets port \<Rightarrow> write_sockaddr_in big af_inet storage octets port
      | V6 octets port flowinfo scope \<Rightarrow> write_sockaddr_in6 big af_inet6 storage octets port flowinfo scope)"

definition sockaddr_to_socketaddr :: "bool \<Rightarrow> int \<Rightarrow> int \<Rightarrow> u8 list \<Rightarrow> (socket_addr, io_error) result" where
  "sockaddr_to_socketaddr big af_inet af_inet6 storage =
     (let family = uint (ss_family big storage) in
      if family = af_inet
      then let sin = sin_of_bytes big storage;
               octets = to_ne32 big (s_addr sin);
               port = from_be16 big (sin_port sin)
           in Ok (V4 octets port)
      else if family = af_inet6
      then let sin6 = sin6_of_bytes big storage;
               port = from_be16 big (sin6_port sin6)
           in Ok (V6 (s6_addr sin6) port (sin6_flowinfo sin6) (sin6_scope_id sin6))
      else Err (OtherError (''unknown socket address family: '' @ decimal (nat family))))"

section \<open>Windows\<close>

text \<open>The Windows writers fill a zeroed structure field by field.\<close>

definition sin_zeroed :: sockaddr_in where
  "sin_zeroed = \<lparr>sin_family = 0, sin_port = 0, s_addr = 0, sin_zero = replicate 8 0\<rparr>"

definition sin6_zeroed :: sockaddr_in6 where
  "sin6_zeroed = \<lparr>sin6_family = 0, sin6_port = 0, sin6_flowinfo = 0, s6_addr = replicate 16 0, sin6_scope_id = 0\<rparr>"

definition win_write_sockaddr_in :: "bool \<Rightarrow> u16 \<Rightarrow> u8 list \<Rightarrow> u8 list \<Rightarrow> u16 \<Rightarrow> u8 list \<times> nat" where
  "win_write_sockaddr_in big af_inet storage octets port =
     (let sin = sin_zeroed; sin = sin\<lparr>sin_family := af_inet\<rparr>; sin = sin\<lparr>sin_port := to_be16 big port\<rparr>;
          sin = sin\<lparr>s_addr := from_ne32 big octets\<rparr>
      in (copy_to storage (bytes_of_sin big sin), SIN_SIZE))"

definition win_write_sockaddr_in6 ::
  "bool \<Rightarrow> u16 \<Rightarrow> u8 list \<Rightarrow> u8 list \<Rightarrow> u16 \<Rightarrow> u32 \<Rightarrow> u32 \<Rightarrow> u8 list \<times> nat" where
  "win_write_sockaddr_in6 big af_inet6 storage octets port flowinfo scope =
     (let sin6 = sin6_zeroed; sin6 = sin6\<lparr>sin6_family := af_inet6\<rparr>; sin6 = sin6\<lparr>sin6_port := to_be16 big port\<rparr>;
          sin6 = sin6\<lparr>sin6_flowinfo := flowinfo\<rparr>; sin6 = sin6\<lparr>s6_addr := octets\<rparr>;
          sin6 = sin6\<lparr>sin6_scope_id := scope\<rparr>
      in (copy_to storage (bytes_of_sin6 big sin6), SIN6_SIZE))"

definition win_sockaddr_storage_from :: "bool \<Rightarrow> u16 \<Rightarrow> u16 \<Rightarrow> socket_addr \<Rightarrow> u8 list \<times> nat" where
  "win_sockaddr_storage_from big af_inet af_inet6 addr =
     (let storage = replicate STORAGE_SIZE 0 in
      case addr of
        V4 octets port \<Rightarrow> win_write_sockaddr_in big af_inet storage octets port
      | V6 octets port flowinfo scope \<Rightarrow> win_write_sockaddr_in6 big af_inet6 storage octets port flowinfo scope)"

definition win_sockaddr_to_socketaddr :: "bool \<Rightarrow> u16 \<Rightarrow> u16 \<Rightarrow> u8 list \<Rightarrow> (socket_addr, io_error) result" where
  "win_sockaddr_to_socketaddr big af_inet af_inet6 storage =
     (let family = ss_family big storage in
      if family = af_inet
      then let sin = sin_of_bytes big storage;
               octets = to_ne32 big (s_addr sin);
               port = from_be16 big (sin_port sin)
           in Ok (V4 octets port)
      else if family = af_inet6
      then let sin6 = sin6_of_bytes big storage;
               octets = s6_addr sin6;
               port = from_be16 big (sin6_port sin6);
               scope = sin6_scope_id sin6
           in Ok (V6 octets port (sin6_flowinfo sin6) scope)
      else Err (OtherError (''unknown socket address family: '' @ decimal (unat family))))"

section \<open>Words and bytes\<close>

lemma bit_push8: "bit (push_bit m (x :: 'a::len word)) n \<longleftrightarrow> m \<le> n \<and> n < LENGTH('a) \<and> bit x (n - m)"
  by (auto simp: bit_push_bit_iff)

lemmas byte_bits = bit_eq_iff bit_or_iff bit_and_iff bit_push8 bit_drop_bit_eq bit_ucast_iff

lemma from_to_ne16 [simp]: "from_ne16 big (to_ne16 big x) = x"
  by (cases big) (auto simp: from_ne16_def to_ne16_def byte_bits dest: bit_imp_le_length)

lemma bit_past_shift: "bit x n \<Longrightarrow> \<not> bit x (m + (n - m)) \<Longrightarrow> n < m"
  by (cases "m \<le> n") auto

lemma from_to_ne32 [simp]: "from_ne32 big (to_ne32 big x) = x"
  by (cases big) (auto simp: from_ne32_def to_ne32_def byte_bits dest: bit_imp_le_length bit_past_shift)

lemma to_from_ne32_list: "to_ne32 big (from_ne32 big [a, b, c, d]) = [a, b, c, d]"
  by (cases big) (auto simp: from_ne32_def to_ne32_def byte_bits dest: bit_imp_le_length)

lemma from_to_be16 [simp]: "from_be16 big (to_be16 big x) = x"
  by (cases big) (auto simp: from_be16_def to_be16_def swap16_def byte_bits dest: bit_imp_le_length)

lemma ne16_be16: "to_ne16 big (to_be16 big x) = [ucast (drop_bit 8 x), ucast x]"
  by (cases big) (auto simp: to_ne16_def to_be16_def swap16_def byte_bits dest: bit_imp_le_length)

lemma length_ne [simp]: "length (to_ne16 big x) = 2" "length (to_ne32 big y) = 4"
  by (simp_all add: to_ne16_def to_ne32_def Let_def)

lemma to_from_ne32 [simp]: "length bs = 4 \<Longrightarrow> to_ne32 big (from_ne32 big bs) = bs"
  using to_from_ne32_list by (auto simp: length_Suc_conv numeral_eq_Suc)

text \<open>Reading a structure back from a storage it was copied to.\<close>

lemma sin_of_copy:
  assumes "length (sin_zero sin) = 8"
  shows "sin_of_bytes big (copy_to storage (bytes_of_sin big sin)) = sin"
    "ss_family big (copy_to storage (bytes_of_sin big sin)) = sin_family sin"
  using assms by (simp_all add: sin_of_bytes_def bytes_of_sin_def copy_to_def ss_family_def)

lemma sin6_of_copy:
  assumes "length (s6_addr sin6) = 16"
  shows "sin6_of_bytes big (copy_to storage (bytes_of_sin6 big sin6)) = sin6"
    "ss_family big (copy_to storage (bytes_of_sin6 big sin6)) = sin6_family sin6"
  using assms by (simp_all add: sin6_of_bytes_def bytes_of_sin6_def copy_to_def ss_family_def)

text \<open>What the code relies on of the family constants.\<close>

definition families_ok :: "int \<Rightarrow> int \<Rightarrow> bool" where
  "families_ok af_inet af_inet6 \<longleftrightarrow> 0 \<le> af_inet \<and> af_inet < 2 ^ 16 \<and> 0 \<le> af_inet6 \<and> af_inet6 < 2 ^ 16 \<and> af_inet \<noteq> af_inet6"

lemma families_uint:
  assumes "families_ok af_inet af_inet6"
  shows "uint (word_of_int af_inet :: u16) = af_inet" "uint (word_of_int af_inet6 :: u16) = af_inet6"
  using assms by (simp_all add: families_ok_def unsigned_of_int take_bit_int_eq_self)

lemma win_storage_eq:
  "win_sockaddr_storage_from big (word_of_int af_inet) (word_of_int af_inet6) addr =
     sockaddr_storage_from big af_inet af_inet6 addr"
  by (simp add: win_sockaddr_storage_from_def sockaddr_storage_from_def win_write_sockaddr_in_def
      write_sockaddr_in_def win_write_sockaddr_in6_def write_sockaddr_in6_def sin_zeroed_def sin6_zeroed_def
      Let_def split: socket_addr.split)

lemma win_to_socketaddr_eq:
  assumes "families_ok af_inet af_inet6"
  shows "win_sockaddr_to_socketaddr big (word_of_int af_inet) (word_of_int af_inet6) storage =
     sockaddr_to_socketaddr big af_inet af_inet6 storage"
proof -
  have "(ss_family big storage = word_of_int af_inet) \<longleftrightarrow> (uint (ss_family big storage) = af_inet)"
    "(ss_family big storage = word_of_int af_inet6) \<longleftrightarrow> (uint (ss_family big storage) = af_inet6)"
    using families_uint [OF assms] by (metis word_of_int_uint)+
  then show ?thesis by (simp add: win_sockaddr_to_socketaddr_def sockaddr_to_socketaddr_def Let_def)
qed

section \<open>Properties of socket addresses\<close>

text \<open>
  Claim C22. An address survives the way to the kernel's representation and back, on targets of either
  byte order and on both platforms: what \<open>sockaddr_to_socketaddr\<close> reads out of the storage that
  \<open>sockaddr_storage_from\<close> filled is the address itself.
\<close>

theorem sockaddr_roundtrip:
  assumes "addr_wf addr" and "families_ok af_inet af_inet6"
  shows "sockaddr_to_socketaddr big af_inet af_inet6 (fst (sockaddr_storage_from big af_inet af_inet6 addr)) = Ok addr \<and>
     win_sockaddr_to_socketaddr big (word_of_int af_inet) (word_of_int af_inet6)
       (fst (win_sockaddr_storage_from big (word_of_int af_inet) (word_of_int af_inet6) addr)) = Ok addr"
proof -
  have "sockaddr_to_socketaddr big af_inet af_inet6 (fst (sockaddr_storage_from big af_inet af_inet6 addr)) = Ok addr"
    using assms(1) families_uint [OF assms(2)] assms(2)
    by (cases addr) (auto simp: sockaddr_to_socketaddr_def sockaddr_storage_from_def write_sockaddr_in_def
        write_sockaddr_in6_def sin_of_copy sin6_of_copy families_ok_def Let_def)
  then show ?thesis by (simp add: win_storage_eq win_to_socketaddr_eq [OF assms(2)])
qed

theorem sockaddr_roundtrip_witness:
  "sockaddr_to_socketaddr False 2 10 (fst (sockaddr_storage_from False 2 10 (V4 [127, 0, 0, 1] 8080))) =
     Ok (V4 [127, 0, 0, 1] 8080)"
  using sockaddr_roundtrip [of "V4 [127, 0, 0, 1] 8080" 2 10 False] by (simp add: families_ok_def)

text \<open>
  In memory the port stands most significant byte first and the octets in order, whatever the
  byte order of the target; the rest of the storage is zero, and the length passed to the kernel is
  that of the structure and within the storage.
\<close>

lemma sockaddr_network_order:
  assumes "length octets = 4" and "length octets6 = 16"
  shows "sockaddr_storage_from big af_inet af_inet6 (V4 octets port) =
       (to_ne16 big (word_of_int af_inet) @ [ucast (drop_bit 8 port), ucast port] @ octets @ replicate 120 0, 16) \<and>
     sockaddr_storage_from big af_inet af_inet6 (V6 octets6 port flowinfo scope) =
       (to_ne16 big (word_of_int af_inet6) @ [ucast (drop_bit 8 port), ucast port] @ to_ne32 big flowinfo @ octets6 @
          to_ne32 big scope @ replicate 100 0, 28)"
  using assms
  by (simp add: sockaddr_storage_from_def write_sockaddr_in_def write_sockaddr_in6_def bytes_of_sin_def
      bytes_of_sin6_def copy_to_def ne16_be16 STORAGE_SIZE_def SIN_SIZE_def SIN6_SIZE_def Let_def
      flip: replicate_add)

theorem sockaddr_network_order_witness:
  "fst (sockaddr_storage_from True 2 10 (V4 [127, 0, 0, 1] 0x1F90)) ! 2 = 0x1F"
  using sockaddr_network_order [of "[127, 0, 0, 1]" "replicate 16 0" True 2 10 "0x1F90" 0 0]
  by (simp add: nth_append)

end
