(* ===== verification/Socket.thy ===== *)
theory Socket
  imports Sockaddr
begin

text \<open>
  The socket wrappers of \<^verbatim>\<open>src/src/sys/linux/socket.rs\<close> and \<^verbatim>\<open>src/src/sys/windows/socket.rs\<close>. The system calls and the
  constants of libc and windows-sys are fields of a record that every operation takes, over a kernel
  state it threads through; a call returns its result and the error code it left behind. An owned
  descriptor that goes out of scope on an early return is closed, and the model writes that call out.
\<close>

unbundle bit_operations_syntax

datatype connect_status = Done | InProgress

section \<open>Linux\<close>

record 'k socket_sys =
  sys_socket :: "int \<Rightarrow> int \<Rightarrow> int \<Rightarrow> 'k \<Rightarrow> 'k \<times> int \<times> int"
  sys_bind :: "int \<Rightarrow> u8 list \<Rightarrow> nat \<Rightarrow> 'k \<Rightarrow> 'k \<times> int \<times> int"
  sys_listen :: "int \<Rightarrow> int \<Rightarrow> 'k \<Rightarrow> 'k \<times> int \<times> int"
  sys_accept4 :: "int \<Rightarrow> nat \<Rightarrow> int \<Rightarrow> 'k \<Rightarrow> 'k \<times> int \<times> int \<times> u8 list"
  sys_connect :: "int \<Rightarrow> u8 list \<Rightarrow> nat \<Rightarrow> 'k \<Rightarrow> 'k \<times> int \<times> int"
  sys_send :: "int \<Rightarrow> u8 list \<Rightarrow> int \<Rightarrow> 'k \<Rightarrow> 'k \<times> int \<times> int"
  sys_recv :: "int \<Rightarrow> nat \<Rightarrow> int \<Rightarrow> 'k \<Rightarrow> 'k \<times> int \<times> int \<times> u8 list"
  sys_getsockopt :: "int \<Rightarrow> int \<Rightarrow> int \<Rightarrow> 'k \<Rightarrow> 'k \<times> int \<times> int \<times> int"
  sys_getsockname :: "int \<Rightarrow> nat \<Rightarrow> 'k \<Rightarrow> 'k \<times> int \<times> int \<times> u8 list"
  sys_close :: "int \<Rightarrow> 'k \<Rightarrow> 'k"
  big_endian :: bool
  AF_INET :: int
  AF_INET6 :: int
  SOCK_STREAM :: int
  SOCK_NONBLOCK :: int
  SOCK_CLOEXEC :: int
  MSG_NOSIGNAL :: int
  SOL_SOCKET :: int
  SO_ERROR :: int
  EINPROGRESS :: int
  EWOULDBLOCK :: int

definition stream_socket :: "'k socket_sys \<Rightarrow> socket_addr \<Rightarrow> 'k \<Rightarrow> 'k \<times> (int, io_error) result" where
  "stream_socket sys addr k =
     (let domain = (case addr of V4 _ _ \<Rightarrow> AF_INET sys | V6 _ _ _ _ \<Rightarrow> AF_INET6 sys);
          (k', raw, errno) = sys_socket sys domain (SOCK_STREAM sys OR SOCK_NONBLOCK sys OR SOCK_CLOEXEC sys) 0 k in
      (k', if raw < 0 then Err (OsError errno) else Ok raw))"

definition storage_of :: "'k socket_sys \<Rightarrow> socket_addr \<Rightarrow> u8 list \<times> nat" where
  "storage_of sys addr = sockaddr_storage_from (big_endian sys) (AF_INET sys) (AF_INET6 sys) addr"

definition bind :: "'k socket_sys \<Rightarrow> int \<Rightarrow> socket_addr \<Rightarrow> 'k \<Rightarrow> 'k \<times> (unit, io_error) result" where
  "bind sys fd addr k =
     (let (storage, len) = storage_of sys addr;
          (k', rc, errno) = sys_bind sys fd storage len k in
      (k', if rc < 0 then Err (OsError errno) else Ok ()))"

definition listen :: "'k socket_sys \<Rightarrow> int \<Rightarrow> int \<Rightarrow> 'k \<Rightarrow> 'k \<times> (unit, io_error) result" where
  "listen sys fd backlog k =
     (let (k', rc, errno) = sys_listen sys fd backlog k in
      (k', if rc < 0 then Err (OsError errno) else Ok ()))"

text \<open>
  \<open>accept\<close> converts the peer's address before it wraps the new descriptor in an \<open>OwnedFd\<close>, so the early
  return of a failed conversion closes nothing.
\<close>

definition accept :: "'k socket_sys \<Rightarrow> int \<Rightarrow> 'k \<Rightarrow> 'k \<times> (int \<times> socket_addr, io_error) result" where
  "accept sys fd k =
     (let (k', raw, errno, storage) = sys_accept4 sys fd STORAGE_SIZE (SOCK_NONBLOCK sys OR SOCK_CLOEXEC sys) k in
      if raw < 0 then (k', Err (OsError errno))
      else case sockaddr_to_socketaddr (big_endian sys) (AF_INET sys) (AF_INET6 sys) storage of
          Err e \<Rightarrow> (k', Err e)
        | Ok addr \<Rightarrow> (k', Ok (raw, addr)))"

definition connect :: "'k socket_sys \<Rightarrow> int \<Rightarrow> socket_addr \<Rightarrow> 'k \<Rightarrow> 'k \<times> (connect_status, io_error) result" where
  "connect sys fd addr k =
     (let (storage, len) = storage_of sys addr;
          (k', rc, errno) = sys_connect sys fd storage len k in
      if rc < 0
      then if errno = EINPROGRESS sys then (k', Ok InProgress) else (k', Err (OsError errno))
      else (k', Ok Done))"

definition send :: "'k socket_sys \<Rightarrow> int \<Rightarrow> u8 list \<Rightarrow> 'k \<Rightarrow> 'k \<times> (nat, io_error) result" where
  "send sys fd buf k =
     (let (k', rc, errno) = sys_send sys fd buf (MSG_NOSIGNAL sys) k in
      (k', if rc < 0 then Err (OsError errno) else Ok (nat rc)))"

text \<open>The kernel writes the bytes it received to the front of the buffer.\<close>

definition recv :: "'k socket_sys \<Rightarrow> int \<Rightarrow> u8 list \<Rightarrow> 'k \<Rightarrow> 'k \<times> u8 list \<times> (nat, io_error) result" where
  "recv sys fd buf k =
     (let (k', rc, errno, bytes) = sys_recv sys fd (length buf) 0 k in
      if rc < 0 then (k', buf, Err (OsError errno))
      else (k', copy_to buf (take (length buf) bytes), Ok (nat rc)))"

definition so_error :: "'k socket_sys \<Rightarrow> int \<Rightarrow> 'k \<Rightarrow> 'k \<times> (int, io_error) result" where
  "so_error sys fd k =
     (let (k', rc, errno, err) = sys_getsockopt sys fd (SOL_SOCKET sys) (SO_ERROR sys) k in
      (k', if rc < 0 then Err (OsError errno) else Ok err))"

definition local_addr :: "'k socket_sys \<Rightarrow> int \<Rightarrow> 'k \<Rightarrow> 'k \<times> (socket_addr, io_error) result" where
  "local_addr sys fd k =
     (let (k', rc, errno, storage) = sys_getsockname sys fd STORAGE_SIZE k in
      (k', if rc < 0 then Err (OsError errno)
           else sockaddr_to_socketaddr (big_endian sys) (AF_INET sys) (AF_INET6 sys) storage))"

section \<open>Windows\<close>

record 'k winsock =
  ws_startup :: "u16 \<Rightarrow> 'k \<Rightarrow> 'k \<times> int"
  ws_socket :: "int \<Rightarrow> int \<Rightarrow> int \<Rightarrow> u32 \<Rightarrow> 'k \<Rightarrow> 'k \<times> u64 \<times> int"
  ws_ioctlsocket :: "u64 \<Rightarrow> int \<Rightarrow> u32 \<Rightarrow> 'k \<Rightarrow> 'k \<times> int \<times> int"
  ws_bind :: "u64 \<Rightarrow> u8 list \<Rightarrow> nat \<Rightarrow> 'k \<Rightarrow> 'k \<times> int \<times> int"
  ws_listen :: "u64 \<Rightarrow> int \<Rightarrow> 'k \<Rightarrow> 'k \<times> int \<times> int"
  ws_accept :: "u64 \<Rightarrow> nat \<Rightarrow> 'k \<Rightarrow> 'k \<times> u64 \<times> int \<times> u8 list"
  set_handle_information :: "u64 \<Rightarrow> u32 \<Rightarrow> u32 \<Rightarrow> 'k \<Rightarrow> 'k \<times> int \<times> int"
  ws_connect :: "u64 \<Rightarrow> u8 list \<Rightarrow> nat \<Rightarrow> 'k \<Rightarrow> 'k \<times> int \<times> int"
  ws_send :: "u64 \<Rightarrow> u8 list \<Rightarrow> int \<Rightarrow> int \<Rightarrow> 'k \<Rightarrow> 'k \<times> int \<times> int"
  ws_recv :: "u64 \<Rightarrow> int \<Rightarrow> int \<Rightarrow> 'k \<Rightarrow> 'k \<times> int \<times> int \<times> u8 list"
  ws_getsockopt :: "u64 \<Rightarrow> int \<Rightarrow> int \<Rightarrow> 'k \<Rightarrow> 'k \<times> int \<times> int \<times> int"
  ws_getsockname :: "u64 \<Rightarrow> nat \<Rightarrow> 'k \<Rightarrow> 'k \<times> int \<times> int \<times> u8 list"
  ws_ioctl :: "u64 \<Rightarrow> u32 \<Rightarrow> 'k \<Rightarrow> 'k \<times> int \<times> u64 \<times> int"
  ws_close :: "u64 \<Rightarrow> 'k \<Rightarrow> 'k"
  W_AF_INET :: u16
  W_AF_INET6 :: u16
  W_SOCK_STREAM :: int
  IPPROTO_TCP :: int
  WSA_FLAGS :: u32
  FIONBIO :: int
  HANDLE_FLAG_INHERIT :: u32
  W_SOL_SOCKET :: int
  W_SO_ERROR :: int
  SOCKET_ERROR :: int
  INVALID_SOCKET :: u64
  WSAEWOULDBLOCK :: int
  WSAEINVAL :: int
  WSAEOPNOTSUPP :: int
  SIO_BASE_HANDLE :: u32
  SIO_BSP_HANDLE_POLL :: u32

text \<open>The process-wide \<open>OnceLock\<close> with the result of \<open>WSAStartup\<close> is the argument \<open>init\<close>.\<close>

definition ensure_wsa_started :: "'k winsock \<Rightarrow> int option \<Rightarrow> 'k \<Rightarrow> 'k \<times> int option \<times> (unit, io_error) result" where
  "ensure_wsa_started ws init k =
     (let (k', rc) = (case init of Some rc \<Rightarrow> (k, rc) | None \<Rightarrow> ws_startup ws 0x0202 k) in
      (k', Some rc, if rc \<noteq> 0 then Err (OsError rc) else Ok ()))"

definition set_nonblocking :: "'k winsock \<Rightarrow> u64 \<Rightarrow> 'k \<Rightarrow> 'k \<times> (unit, io_error) result" where
  "set_nonblocking ws raw k =
     (let (k', rc, code) = ws_ioctlsocket ws raw (FIONBIO ws) 1 k in
      (k', if rc = SOCKET_ERROR ws then Err (OsError code) else Ok ()))"

definition win_stream_socket ::
  "'k winsock \<Rightarrow> int option \<Rightarrow> socket_addr \<Rightarrow> 'k \<Rightarrow> 'k \<times> int option \<times> (u64, io_error) result" where
  "win_stream_socket ws init addr k =
     (case ensure_wsa_started ws init k of
        (k1, init1, Err e) \<Rightarrow> (k1, init1, Err e)
      | (k1, init1, Ok _) \<Rightarrow>
          let domain = uint (case addr of V4 _ _ \<Rightarrow> W_AF_INET ws | V6 _ _ _ _ \<Rightarrow> W_AF_INET6 ws);
              (k2, raw, code) = ws_socket ws domain (W_SOCK_STREAM ws) (IPPROTO_TCP ws) (WSA_FLAGS ws) k1 in
          if raw = INVALID_SOCKET ws then (k2, init1, Err (OsError code))
          else (case set_nonblocking ws raw k2 of
                  (k3, Err e) \<Rightarrow> (ws_close ws raw k3, init1, Err e)
                | (k3, Ok _) \<Rightarrow> (k3, init1, Ok raw)))"

definition win_storage_of :: "'k winsock \<Rightarrow> socket_addr \<Rightarrow> u8 list \<times> nat" where
  "win_storage_of ws addr = win_sockaddr_storage_from False (W_AF_INET ws) (W_AF_INET6 ws) addr"

definition win_bind :: "'k winsock \<Rightarrow> u64 \<Rightarrow> socket_addr \<Rightarrow> 'k \<Rightarrow> 'k \<times> (unit, io_error) result" where
  "win_bind ws s addr k =
     (let (storage, len) = win_storage_of ws addr;
          (k', rc, code) = ws_bind ws s storage len k in
      (k', if rc = SOCKET_ERROR ws then Err (OsError code) else Ok ()))"

definition win_listen :: "'k winsock \<Rightarrow> u64 \<Rightarrow> int \<Rightarrow> 'k \<Rightarrow> 'k \<times> (unit, io_error) result" where
  "win_listen ws s backlog k =
     (let (k', rc, code) = ws_listen ws s backlog k in
      (k', if rc = SOCKET_ERROR ws then Err (OsError code) else Ok ()))"

definition win_accept :: "'k winsock \<Rightarrow> u64 \<Rightarrow> 'k \<Rightarrow> 'k \<times> (u64 \<times> socket_addr, io_error) result" where
  "win_accept ws s k =
     (let (k1, raw, code, storage) = ws_accept ws s STORAGE_SIZE k in
      if raw = INVALID_SOCKET ws then (k1, Err (OsError code))
      else let (k2, rc, code2) = set_handle_information ws raw (HANDLE_FLAG_INHERIT ws) 0 k1 in
        if rc = 0 then (ws_close ws raw k2, Err (OsError code2))
        else (case set_nonblocking ws raw k2 of
                (k3, Err e) \<Rightarrow> (ws_close ws raw k3, Err e)
              | (k3, Ok _) \<Rightarrow>
                  (case win_sockaddr_to_socketaddr False (W_AF_INET ws) (W_AF_INET6 ws) storage of
                     Err e \<Rightarrow> (ws_close ws raw k3, Err e)
                   | Ok addr \<Rightarrow> (k3, Ok (raw, addr)))))"

definition win_connect :: "'k winsock \<Rightarrow> u64 \<Rightarrow> socket_addr \<Rightarrow> 'k \<Rightarrow> 'k \<times> (connect_status, io_error) result" where
  "win_connect ws s addr k =
     (let (storage, len) = win_storage_of ws addr;
          (k', rc, code) = ws_connect ws s storage len k in
      if rc = SOCKET_ERROR ws
      then if code = WSAEWOULDBLOCK ws then (k', Ok InProgress) else (k', Err (OsError code))
      else (k', Ok Done))"

text \<open>\<open>i32::try_from(buf.len()).unwrap_or(i32::MAX)\<close>\<close>

definition i32_saturate :: "nat \<Rightarrow> int" where
  "i32_saturate n = (if n < 2 ^ 31 then int n else 2 ^ 31 - 1)"

definition win_send :: "'k winsock \<Rightarrow> u64 \<Rightarrow> u8 list \<Rightarrow> 'k \<Rightarrow> 'k \<times> (nat, io_error) result outcome" where
  "win_send ws s buf k =
     (let (k', rc, code) = ws_send ws s buf (i32_saturate (length buf)) 0 k in
      (k', if rc = SOCKET_ERROR ws then Inr (Err (OsError code))
           else if rc < 0 then Inl (ExpectFailed ''non-negative send return'') else Inr (Ok (nat rc))))"

definition win_recv :: "'k winsock \<Rightarrow> u64 \<Rightarrow> u8 list \<Rightarrow> 'k \<Rightarrow> 'k \<times> u8 list \<times> (nat, io_error) result outcome" where
  "win_recv ws s buf k =
     (let (k', rc, code, bytes) = ws_recv ws s (i32_saturate (length buf)) 0 k in
      if rc = SOCKET_ERROR ws then (k', buf, Inr (Err (OsError code)))
      else (k', copy_to buf (take (length buf) bytes),
            if rc < 0 then Inl (ExpectFailed ''non-negative recv return'') else Inr (Ok (nat rc))))"

definition win_so_error :: "'k winsock \<Rightarrow> u64 \<Rightarrow> 'k \<Rightarrow> 'k \<times> (int, io_error) result" where
  "win_so_error ws s k =
     (let (k', rc, code, err) = ws_getsockopt ws s (W_SOL_SOCKET ws) (W_SO_ERROR ws) k in
      (k', if rc = SOCKET_ERROR ws then Err (OsError code) else Ok err))"

definition win_local_addr :: "'k winsock \<Rightarrow> u64 \<Rightarrow> 'k \<Rightarrow> 'k \<times> (socket_addr, io_error) result" where
  "win_local_addr ws s k =
     (let (k', rc, code, storage) = ws_getsockname ws s STORAGE_SIZE k in
      (k', if rc = SOCKET_ERROR ws then Err (OsError code)
           else win_sockaddr_to_socketaddr False (W_AF_INET ws) (W_AF_INET6 ws) storage))"

definition try_base_socket :: "'k winsock \<Rightarrow> u64 \<Rightarrow> u32 \<Rightarrow> 'k \<Rightarrow> 'k \<times> (u64 option, io_error) result" where
  "try_base_socket ws s code k =
     (let (k', rc, base, err) = ws_ioctl ws s code k in
      (k', if rc = SOCKET_ERROR ws
           then if err = WSAEINVAL ws \<or> err = WSAEOPNOTSUPP ws then Ok None else Err (OsError err)
           else Ok (Some base)))"

text \<open>The loop ends when the kernel's answers stop changing; \<open>None\<close> when they never do.\<close>

partial_function (option) base_loop ::
  "'k winsock \<Rightarrow> u64 \<Rightarrow> 'k \<Rightarrow> ('k \<times> (u64, io_error) result) option" where
  "base_loop ws base k =
     (let (k', r) = try_base_socket ws base (SIO_BSP_HANDLE_POLL ws) k in
      case r of
        Err e \<Rightarrow> Some (k', Err e)
      | Ok None \<Rightarrow> Some (k', Ok base)
      | Ok (Some next) \<Rightarrow> if next \<noteq> base then base_loop ws next k' else Some (k', Ok base))"

definition base_socket :: "'k winsock \<Rightarrow> u64 \<Rightarrow> 'k \<Rightarrow> ('k \<times> (u64, io_error) result) option" where
  "base_socket ws raw k =
     (case try_base_socket ws raw (SIO_BASE_HANDLE ws) k of
        (k1, Err e) \<Rightarrow> Some (k1, Err e)
      | (k1, Ok (Some base)) \<Rightarrow> Some (k1, Ok base)
      | (k1, Ok None) \<Rightarrow>
          (case base_loop ws raw k1 of
             None \<Rightarrow> None
           | Some (k2, Err e) \<Rightarrow> Some (k2, Err e)
           | Some (k2, Ok base) \<Rightarrow>
               Some (k2, if base = 0 \<or> base = INVALID_SOCKET ws
                         then Err (OtherError ''base socket lookup returned invalid handle'') else Ok base)))"

section \<open>Looking up the base socket\<close>

text \<open>
  Documented behaviour of \<open>SIO_BSP_HANDLE_POLL\<close>: each answer is a socket further down a finite chain of
  providers, or the socket itself at its end.
\<close>

definition bsp_chain :: "'k winsock \<Rightarrow> (u64 \<Rightarrow> nat) \<Rightarrow> bool" where
  "bsp_chain ws depth \<longleftrightarrow>
     (\<forall>s k k' base. try_base_socket ws s (SIO_BSP_HANDLE_POLL ws) k = (k', Ok (Some base)) \<longrightarrow>
        base = s \<or> depth base < depth s)"

lemma base_loop_returns:
  assumes "bsp_chain ws depth"
  shows "\<exists>k' r. base_loop ws base k = Some (k', r)"
proof (induction "depth base" arbitrary: base k rule: less_induct)
  case less
  obtain k1 r1 where t: "try_base_socket ws base (SIO_BSP_HANDLE_POLL ws) k = (k1, r1)" by fastforce
  show ?case
  proof (cases "\<exists>next. r1 = Ok (Some next) \<and> next \<noteq> base")
    case True
    then obtain nxt where n: "r1 = Ok (Some nxt)" "nxt \<noteq> base" by blast
    then have "depth nxt < depth base" using assms t unfolding bsp_chain_def by blast
    from less [OF this, of k1] show ?thesis using t n by (subst base_loop.simps) simp
  next
    case False
    then show ?thesis using t by (subst base_loop.simps) (auto split: result.splits option.splits)
  qed
qed

text \<open>
  Documented behaviour of Winsock: \<open>WSASocketW\<close> and \<open>accept\<close> return a socket that was not open before, or
  \<open>INVALID_SOCKET\<close> and open none; \<open>closesocket\<close> closes its argument; the other calls open and close nothing.
\<close>

definition ws_opened :: "'k winsock \<Rightarrow> ('k \<Rightarrow> u64 set) \<Rightarrow> 'k \<Rightarrow> 'k \<Rightarrow> u64 \<Rightarrow> bool" where
  "ws_opened ws opens k k' raw \<longleftrightarrow>
     (if raw = INVALID_SOCKET ws then opens k' = opens k else raw \<notin> opens k \<and> opens k' = insert raw (opens k))"

definition ws_laws :: "'k winsock \<Rightarrow> ('k \<Rightarrow> u64 set) \<Rightarrow> bool" where
  "ws_laws ws opens \<longleftrightarrow>
     (\<forall>d t p f k k' raw e. ws_socket ws d t p f k = (k', raw, e) \<longrightarrow> ws_opened ws opens k k' raw) \<and>
     (\<forall>s n k k' raw e bs. ws_accept ws s n k = (k', raw, e, bs) \<longrightarrow> ws_opened ws opens k k' raw) \<and>
     (\<forall>v k. opens (fst (ws_startup ws v k)) = opens k) \<and>
     (\<forall>s c v k. opens (fst (ws_ioctlsocket ws s c v k)) = opens k) \<and>
     (\<forall>s m f k. opens (fst (set_handle_information ws s m f k)) = opens k) \<and>
     (\<forall>s k. opens (ws_close ws s k) = opens k - {s})"

lemma ws_lawsD:
  assumes "ws_laws ws opens"
  shows "ws_socket ws d t p f k = (k', raw, e) \<Longrightarrow> ws_opened ws opens k k' raw"
    "ws_accept ws s n k = (k', raw, e, bs) \<Longrightarrow> ws_opened ws opens k k' raw"
    "opens (fst (ws_startup ws v k)) = opens k" "opens (fst (ws_ioctlsocket ws s c u k)) = opens k"
    "opens (fst (set_handle_information ws s m g k)) = opens k" "opens (ws_close ws s k) = opens k - {s}"
proof -
  note l = assms [unfolded ws_laws_def]
  show "ws_socket ws d t p f k = (k', raw, e) \<Longrightarrow> ws_opened ws opens k k' raw"
    using conjunct1 [OF l] by blast
  show "ws_accept ws s n k = (k', raw, e, bs) \<Longrightarrow> ws_opened ws opens k k' raw"
    using conjunct1 [OF conjunct2 [OF l]] by blast
qed (use assms in \<open>simp_all add: ws_laws_def\<close>)

lemma set_nonblocking_opens: "ws_laws ws opens \<Longrightarrow> opens (fst (set_nonblocking ws raw k)) = opens k"
  by (simp add: set_nonblocking_def case_prod_beta Let_def ws_lawsD(4))

lemma ensure_wsa_opens: "ws_laws ws opens \<Longrightarrow> opens (fst (ensure_wsa_started ws init k)) = opens k"
  by (simp add: ensure_wsa_started_def case_prod_beta Let_def ws_lawsD(3) split: option.splits)

text \<open>A socket that was opened and then given up on an error.\<close>

lemma opened_closed:
  "ws_laws ws opens \<Longrightarrow> ws_opened ws opens k k1 raw \<Longrightarrow> raw \<noteq> INVALID_SOCKET ws \<Longrightarrow> opens k2 = opens k1 \<Longrightarrow>
     opens (ws_close ws raw k2) = opens k"
  by (auto simp: ws_opened_def ws_lawsD(6))

section \<open>Properties of sockets\<close>

text \<open>
  The Windows wrappers leak no socket on any path: creating or accepting one either returns a
  fresh socket and leaves exactly that one open, or returns an error and leaves the set of open sockets
  as it was, also when the socket existed already and a later step failed.
\<close>

lemma win_sockets_balanced:
  assumes "ws_laws ws opens"
  shows "(case win_stream_socket ws init addr k of
        (k', _, Ok s) \<Rightarrow> s \<notin> opens k \<and> opens k' = insert s (opens k)
      | (k', _, Err _) \<Rightarrow> opens k' = opens k) \<and>
     (case win_accept ws l k of
        (k', Ok (s, _)) \<Rightarrow> s \<notin> opens k \<and> opens k' = insert s (opens k)
      | (k', Err _) \<Rightarrow> opens k' = opens k)"
proof
  obtain k1 i1 r1 where e: "ensure_wsa_started ws init k = (k1, i1, r1)" by (cases "ensure_wsa_started ws init k")
  have k1: "opens k1 = opens k" using ensure_wsa_opens [OF assms, of init k] e by simp
  let ?d = "uint (case addr of V4 _ _ \<Rightarrow> W_AF_INET ws | V6 _ _ _ _ \<Rightarrow> W_AF_INET6 ws)"
  obtain k2 raw code where s: "ws_socket ws ?d (W_SOCK_STREAM ws) (IPPROTO_TCP ws) (WSA_FLAGS ws) k1 = (k2, raw, code)"
    by (cases "ws_socket ws ?d (W_SOCK_STREAM ws) (IPPROTO_TCP ws) (WSA_FLAGS ws) k1")
  obtain k3 r3 where n: "set_nonblocking ws raw k2 = (k3, r3)" by fastforce
  note o = ws_lawsD(1) [OF assms s]
  have k3: "opens k3 = opens k2" using set_nonblocking_opens [OF assms, of raw k2] n by simp
  show "case win_stream_socket ws init addr k of
        (k', _, Ok s) \<Rightarrow> s \<notin> opens k \<and> opens k' = insert s (opens k)
      | (k', _, Err _) \<Rightarrow> opens k' = opens k"
    using o k1 k3 opened_closed [OF assms o _ k3]
    by (cases r1; cases r3) (auto simp: win_stream_socket_def e s n ws_opened_def)
next
  obtain k1 raw code st where a: "ws_accept ws l STORAGE_SIZE k = (k1, raw, code, st)"
    by (cases "ws_accept ws l STORAGE_SIZE k")
  obtain k2 rc code2 where h: "set_handle_information ws raw (HANDLE_FLAG_INHERIT ws) 0 k1 = (k2, rc, code2)"
    by (cases "set_handle_information ws raw (HANDLE_FLAG_INHERIT ws) 0 k1")
  obtain k3 r3 where n: "set_nonblocking ws raw k2 = (k3, r3)" by fastforce
  note o = ws_lawsD(2) [OF assms a]
  have k2: "opens k2 = opens k1" using ws_lawsD(5) [OF assms, of raw "HANDLE_FLAG_INHERIT ws" 0 k1] h by simp
  have k3: "opens k3 = opens k1" using set_nonblocking_opens [OF assms, of raw k2] n k2 by simp
  show "case win_accept ws l k of
        (k', Ok (s, _)) \<Rightarrow> s \<notin> opens k \<and> opens k' = insert s (opens k)
      | (k', Err _) \<Rightarrow> opens k' = opens k"
    using o k3 opened_closed [OF assms o _ k2] opened_closed [OF assms o _ k3]
    by (cases "win_sockaddr_to_socketaddr False (W_AF_INET ws) (W_AF_INET6 ws) st"; cases r3)
      (auto simp: win_accept_def a h n ws_opened_def)
qed

text \<open>
  The lookup of a base socket returns whenever the chain of providers is finite, and a socket
  it finds by following the chain is never the null or the invalid handle.
\<close>

lemma base_socket_returns:
  assumes "bsp_chain ws depth"
  shows "\<exists>k' r. base_socket ws raw k = Some (k', r) \<and>
     (\<forall>base. r = Ok base \<longrightarrow> snd (try_base_socket ws raw (SIO_BASE_HANDLE ws) k) = Ok None \<longrightarrow>
        base \<noteq> 0 \<and> base \<noteq> INVALID_SOCKET ws)"
proof -
  obtain k1 r1 where t: "try_base_socket ws raw (SIO_BASE_HANDLE ws) k = (k1, r1)" by fastforce
  obtain k2 r2 where l: "base_loop ws raw k1 = Some (k2, r2)" using base_loop_returns [OF assms] by blast
  show ?thesis
    using t l by (auto simp: base_socket_def split: result.splits option.splits)
qed

text \<open>A Winsock for the concrete instance: socket 7 is layered over socket 5.\<close>

definition sample_winsock :: "unit winsock" where
  "sample_winsock = \<lparr>ws_startup = (\<lambda>_ k. (k, 0)), ws_socket = (\<lambda>_ _ _ _ k. (k, 7, 0)), ws_ioctlsocket = (\<lambda>_ _ _ k. (k, 0, 0)),
     ws_bind = (\<lambda>_ _ _ k. (k, 0, 0)), ws_listen = (\<lambda>_ _ k. (k, 0, 0)), ws_accept = (\<lambda>_ _ k. (k, - 1, 10035, [])),
     set_handle_information = (\<lambda>_ _ _ k. (k, 1, 0)), ws_connect = (\<lambda>_ _ _ k. (k, - 1, 10035)),
     ws_send = (\<lambda>_ _ _ _ k. (k, - 1, 10035)), ws_recv = (\<lambda>_ _ _ k. (k, - 1, 10035, [])),
     ws_getsockopt = (\<lambda>_ _ _ k. (k, 0, 0, 0)), ws_getsockname = (\<lambda>_ _ k. (k, - 1, 10022, [])),
     ws_ioctl = (\<lambda>s code k. if code = 1 then (k, - 1, 0, 10022) else (k, 0, if s = 7 then 5 else s, 0)),
     ws_close = (\<lambda>_ k. k), W_AF_INET = 2, W_AF_INET6 = 23, W_SOCK_STREAM = 1, IPPROTO_TCP = 6, WSA_FLAGS = 0x81,
     FIONBIO = - 2147195266, HANDLE_FLAG_INHERIT = 1, W_SOL_SOCKET = 65535, W_SO_ERROR = 4103, SOCKET_ERROR = - 1,
     INVALID_SOCKET = - 1, WSAEWOULDBLOCK = 10035, WSAEINVAL = 10022, WSAEOPNOTSUPP = 10045, SIO_BASE_HANDLE = 1,
     SIO_BSP_HANDLE_POLL = 2\<rparr>"

text \<open>A Winsock whose state is the set of open sockets, and on which making a socket non-blocking fails.\<close>

definition failing_winsock :: "u64 set winsock" where
  "failing_winsock = \<lparr>ws_startup = (\<lambda>_ k. (k, 0)),
     ws_socket = (\<lambda>_ _ _ _ k. if 7 \<in> k then (k, - 1, 10024) else (insert 7 k, 7, 0)),
     ws_ioctlsocket = (\<lambda>_ _ _ k. (k, - 1, 10022)),
     ws_bind = (\<lambda>_ _ _ k. (k, 0, 0)), ws_listen = (\<lambda>_ _ k. (k, 0, 0)), ws_accept = (\<lambda>_ _ k. (k, - 1, 10035, [])),
     set_handle_information = (\<lambda>_ _ _ k. (k, 1, 0)), ws_connect = (\<lambda>_ _ _ k. (k, - 1, 10035)),
     ws_send = (\<lambda>_ _ _ _ k. (k, - 1, 10035)), ws_recv = (\<lambda>_ _ _ k. (k, - 1, 10035, [])),
     ws_getsockopt = (\<lambda>_ _ _ k. (k, 0, 0, 0)), ws_getsockname = (\<lambda>_ _ k. (k, - 1, 10022, [])),
     ws_ioctl = (\<lambda>s code k. (k, 0, s, 0)),
     ws_close = (\<lambda>s k. k - {s}), W_AF_INET = 2, W_AF_INET6 = 23, W_SOCK_STREAM = 1, IPPROTO_TCP = 6, WSA_FLAGS = 0x81,
     FIONBIO = - 2147195266, HANDLE_FLAG_INHERIT = 1, W_SOL_SOCKET = 65535, W_SO_ERROR = 4103, SOCKET_ERROR = - 1,
     INVALID_SOCKET = - 1, WSAEWOULDBLOCK = 10035, WSAEINVAL = 10022, WSAEOPNOTSUPP = 10045, SIO_BASE_HANDLE = 1,
     SIO_BSP_HANDLE_POLL = 2\<rparr>"

theorem win_sockets_balanced_witness:
  "\<exists>k' i e. win_stream_socket failing_winsock None (V4 [127, 0, 0, 1] 80) {9} = (k', i, Err e) \<and> k' = {9}"
proof -
  have "ws_laws failing_winsock (\<lambda>k. k)"
    by (auto simp: ws_laws_def ws_opened_def failing_winsock_def split: if_splits)
  from win_sockets_balanced [OF this, where init = None and addr = "V4 [127, 0, 0, 1] 80" and k = "{9}"]
  show ?thesis
    by (auto simp: win_stream_socket_def ensure_wsa_started_def set_nonblocking_def failing_winsock_def)
qed

theorem base_socket_returns_witness:
  "\<exists>k' r. base_socket sample_winsock 7 () = Some (k', r) \<and> (\<forall>base. r = Ok base \<longrightarrow> base \<noteq> 0 \<and> base \<noteq> - 1)"
proof -
  have "bsp_chain sample_winsock (\<lambda>s. if s = 7 then 1 else 0)"
    by (auto simp: bsp_chain_def try_base_socket_def sample_winsock_def)
  moreover have "snd (try_base_socket sample_winsock 7 (SIO_BASE_HANDLE sample_winsock) ()) = Ok None"
    "INVALID_SOCKET sample_winsock = - 1"
    by (simp_all add: try_base_socket_def sample_winsock_def)
  ultimately show ?thesis using base_socket_returns [of sample_winsock _ 7 "()"] by (metis (full_types))
qed

end
