(* ===== verification/Tcp.thy ===== *)
theory Tcp
  imports Reactor Socket
begin

text \<open>
  \<open>TcpListener\<close> and \<open>TcpStream\<close> of \<^verbatim>\<open>src/src/net/tcp.rs\<close>, whose one body runs on two platforms: the aliases \<open>sys\<close>,
  \<open>IoSource\<close> and \<open>Inner\<close> stand for the modules of the target, and here for the fields of a record. An \<open>async fn\<close> is the
  state it is suspended in and a poll function that resumes it and runs to the next suspension; the
  reactor in the thread context is an argument that is \<open>None\<close> when no guard is installed. A panic
  unwinds through the owned sockets in scope, so a poll returns the kernel state it leaves also then. What the
  code needs of a platform are two locales, and what it gives is proved there once for all platforms.
\<close>

section \<open>The platform\<close>

text \<open>
  \<open>'k\<close> is the state of the operating system, \<open>'r\<close> the reactor, \<open>'s\<close> a raw socket and \<open>'w\<close> a waker. Registration is
  \<open>None\<close> when it never returns. \<open>p_close\<close> is what dropping an \<open>OwnedIoSource\<close> does.
\<close>

record ('k, 'r, 's, 'w) platform =
  p_stream_socket :: "socket_addr \<Rightarrow> 'k \<Rightarrow> 'k \<times> ('s, io_error) result"
  p_bind :: "'s \<Rightarrow> socket_addr \<Rightarrow> 'k \<Rightarrow> 'k \<times> (unit, io_error) result"
  p_listen :: "'s \<Rightarrow> int \<Rightarrow> 'k \<Rightarrow> 'k \<times> (unit, io_error) result"
  p_accept :: "'s \<Rightarrow> 'k \<Rightarrow> 'k \<times> ('s \<times> socket_addr, io_error) result"
  p_connect :: "'s \<Rightarrow> socket_addr \<Rightarrow> 'k \<Rightarrow> 'k \<times> (connect_status, io_error) result"
  p_send :: "'s \<Rightarrow> u8 list \<Rightarrow> 'k \<Rightarrow> 'k \<times> (nat, io_error) result outcome"
  p_recv :: "'s \<Rightarrow> u8 list \<Rightarrow> 'k \<Rightarrow> 'k \<times> u8 list \<times> (nat, io_error) result outcome"
  p_so_error :: "'s \<Rightarrow> 'k \<Rightarrow> 'k \<times> (int, io_error) result"
  p_local_addr :: "'s \<Rightarrow> 'k \<Rightarrow> 'k \<times> (socket_addr, io_error) result"
  p_close :: "'s \<Rightarrow> 'k \<Rightarrow> 'k"
  p_would_block :: "io_error \<Rightarrow> bool"
  p_register :: "'r \<Rightarrow> 's \<Rightarrow> interest \<Rightarrow> 'k \<Rightarrow> ('k \<times> 'r \<times> (u64, io_error) result outcome) option"
  p_set_waker :: "'r \<Rightarrow> u64 \<Rightarrow> direction \<Rightarrow> 'w \<Rightarrow> 'r"
  p_deregister :: "'r \<Rightarrow> 's \<Rightarrow> u64 \<Rightarrow> 'k \<Rightarrow> 'k \<times> 'r \<times> (unit, io_error) result"

section \<open>Waiting for readiness\<close>

record ready_for =
  rf_token :: u64
  rf_dir :: direction
  rf_polled :: bool

definition ready_for_new :: "u64 \<Rightarrow> direction \<Rightarrow> ready_for" where
  "ready_for_new token dir = \<lparr>rf_token = token, rf_dir = dir, rf_polled = False\<rparr>"

abbreviation no_reactor :: panic where
  "no_reactor \<equiv> ExpectFailed ''no nanorun runtime installed on this thread''"

definition ready_for_poll ::
  "('k, 'r, 's, 'w) platform \<Rightarrow> 'r option \<Rightarrow> ready_for \<Rightarrow> 'w \<Rightarrow> 'r option \<times> ready_for \<times> unit poll outcome" where
  "ready_for_poll pl cur rf w =
     (if rf_polled rf then (cur, rf, Inr (Ready ()))
      else let rf' = rf\<lparr>rf_polled := True\<rparr> in
        (case cur of
           None \<Rightarrow> (cur, rf', Inl no_reactor)
         | Some r \<Rightarrow> (Some (p_set_waker pl r (rf_token rf') (rf_dir rf') w), rf', Inr Pending)))"

section \<open>Registration and drop\<close>

record 's tcp =
  tcp_fd :: 's
  tcp_token :: u64

text \<open>\<open>with_current(|r| r.register(fd, interest))\<close> in a scope that owns \<open>fd\<close>.\<close>

definition register_owned ::
  "('k, 'r, 's, 'w) platform \<Rightarrow> 'r option \<Rightarrow> 's \<Rightarrow> interest \<Rightarrow> 'k \<Rightarrow>
     ('k \<times> 'r option \<times> ('s tcp, io_error) result outcome) option" where
  "register_owned pl cur fd i k =
     (case cur of
        None \<Rightarrow> Some (p_close pl fd k, cur, Inl no_reactor)
      | Some r \<Rightarrow>
          (case p_register pl r fd i k of
             None \<Rightarrow> None
           | Some (k', r', Inl p) \<Rightarrow> Some (p_close pl fd k', Some r', Inl p)
           | Some (k', r', Inr (Err e)) \<Rightarrow> Some (p_close pl fd k', Some r', Inr (Err e))
           | Some (k', r', Inr (Ok token)) \<Rightarrow> Some (k', Some r', Inr (Ok \<lparr>tcp_fd = fd, tcp_token = token\<rparr>))))"

definition deregister_best_effort ::
  "('k, 'r, 's, 'w) platform \<Rightarrow> 'r option \<Rightarrow> 's \<Rightarrow> u64 \<Rightarrow> 'k \<Rightarrow> 'k \<times> 'r option" where
  "deregister_best_effort pl cur fd token k =
     (case cur of
        None \<Rightarrow> (k, None)
      | Some r \<Rightarrow> (case p_deregister pl r fd token k of (k', r', _) \<Rightarrow> (k', Some r')))"

text \<open>The drop of a listener or stream: its own \<open>drop\<close>, then the owned descriptor's.\<close>

definition tcp_drop :: "('k, 'r, 's, 'w) platform \<Rightarrow> 'r option \<Rightarrow> 's tcp \<Rightarrow> 'k \<Rightarrow> 'k \<times> 'r option" where
  "tcp_drop pl cur s k =
     (let (k', cur') = deregister_best_effort pl cur (tcp_fd s) (tcp_token s) k in
      (p_close pl (tcp_fd s) k', cur'))"

section \<open>Listener\<close>

definition tcp_bind ::
  "('k, 'r, 's, 'w) platform \<Rightarrow> 'r option \<Rightarrow> socket_addr \<Rightarrow> 'k \<Rightarrow>
     ('k \<times> 'r option \<times> ('s tcp, io_error) result outcome) option" where
  "tcp_bind pl cur addr k =
     (case p_stream_socket pl addr k of
        (k1, Err e) \<Rightarrow> Some (k1, cur, Inr (Err e))
      | (k1, Ok fd) \<Rightarrow>
          (case p_bind pl fd addr k1 of
             (k2, Err e) \<Rightarrow> Some (p_close pl fd k2, cur, Inr (Err e))
           | (k2, Ok _) \<Rightarrow>
               (case p_listen pl fd 1024 k2 of
                  (k3, Err e) \<Rightarrow> Some (p_close pl fd k3, cur, Inr (Err e))
                | (k3, Ok _) \<Rightarrow> register_owned pl cur fd interest_READ k3)))"

definition tcp_local_addr :: "('k, 'r, 's, 'w) platform \<Rightarrow> 's tcp \<Rightarrow> 'k \<Rightarrow> 'k \<times> (socket_addr, io_error) result" where
  "tcp_local_addr pl l k = p_local_addr pl (tcp_fd l) k"

text \<open>Where a loop of the form try, wait, try again is suspended.\<close>

datatype io_state = Start | Await ready_for

text \<open>The end of a round that would block: a new \<open>ReadyFor\<close>, polled for the first time.\<close>

definition park_on ::
  "('k, 'r, 's, 'w) platform \<Rightarrow> 'r option \<Rightarrow> u64 \<Rightarrow> direction \<Rightarrow> 'w \<Rightarrow> 'r option \<times> io_state \<times> 'a poll outcome" where
  "park_on pl cur token dir w =
     (case ready_for_poll pl cur (ready_for_new token dir) w of
        (cur', rf, Inl p) \<Rightarrow> (cur', Await rf, Inl p)
      | (cur', rf, Inr _) \<Rightarrow> (cur', Await rf, Inr Pending))"

definition accept_round ::
  "('k, 'r, 's, 'w) platform \<Rightarrow> 'r option \<Rightarrow> 's tcp \<Rightarrow> 'w \<Rightarrow> 'k \<Rightarrow>
     ('k \<times> 'r option \<times> io_state \<times> ('s tcp \<times> socket_addr, io_error) result poll outcome) option" where
  "accept_round pl cur l w k =
     (case p_accept pl (tcp_fd l) k of
        (k1, Ok (fd, addr)) \<Rightarrow>
          (case register_owned pl cur fd interest_READ_WRITE k1 of
             None \<Rightarrow> None
           | Some (k2, cur', Inl p) \<Rightarrow> Some (k2, cur', Start, Inl p)
           | Some (k2, cur', Inr (Err e)) \<Rightarrow> Some (k2, cur', Start, Inr (Ready (Err e)))
           | Some (k2, cur', Inr (Ok s)) \<Rightarrow> Some (k2, cur', Start, Inr (Ready (Ok (s, addr)))))
      | (k1, Err e) \<Rightarrow>
          if p_would_block pl e then Some (k1, park_on pl cur (tcp_token l) Read w)
          else Some (k1, cur, Start, Inr (Ready (Err e))))"

definition accept_poll ::
  "('k, 'r, 's, 'w) platform \<Rightarrow> 'r option \<Rightarrow> 's tcp \<Rightarrow> io_state \<Rightarrow> 'w \<Rightarrow> 'k \<Rightarrow>
     ('k \<times> 'r option \<times> io_state \<times> ('s tcp \<times> socket_addr, io_error) result poll outcome) option" where
  "accept_poll pl cur l st w k =
     (case st of
        Start \<Rightarrow> accept_round pl cur l w k
      | Await rf \<Rightarrow>
          (case ready_for_poll pl cur rf w of
             (cur', rf', Inl p) \<Rightarrow> Some (k, cur', Await rf', Inl p)
           | (cur', rf', Inr Pending) \<Rightarrow> Some (k, cur', Await rf', Inr Pending)
           | (cur', rf', Inr (Ready _)) \<Rightarrow> accept_round pl cur' l w k))"

section \<open>Stream\<close>

definition read_round ::
  "('k, 'r, 's, 'w) platform \<Rightarrow> 'r option \<Rightarrow> 's tcp \<Rightarrow> u8 list \<Rightarrow> 'w \<Rightarrow> 'k \<Rightarrow>
     'k \<times> u8 list \<times> 'r option \<times> io_state \<times> (nat, io_error) result poll outcome" where
  "read_round pl cur s buf w k =
     (case p_recv pl (tcp_fd s) buf k of
        (k1, buf1, Inl p) \<Rightarrow> (k1, buf1, cur, Start, Inl p)
      | (k1, buf1, Inr (Ok n)) \<Rightarrow> (k1, buf1, cur, Start, Inr (Ready (Ok n)))
      | (k1, buf1, Inr (Err e)) \<Rightarrow>
          if p_would_block pl e then (k1, buf1, park_on pl cur (tcp_token s) Read w)
          else (k1, buf1, cur, Start, Inr (Ready (Err e))))"

definition read_poll ::
  "('k, 'r, 's, 'w) platform \<Rightarrow> 'r option \<Rightarrow> 's tcp \<Rightarrow> io_state \<Rightarrow> u8 list \<Rightarrow> 'w \<Rightarrow> 'k \<Rightarrow>
     'k \<times> u8 list \<times> 'r option \<times> io_state \<times> (nat, io_error) result poll outcome" where
  "read_poll pl cur s st buf w k =
     (case st of
        Start \<Rightarrow> read_round pl cur s buf w k
      | Await rf \<Rightarrow>
          (case ready_for_poll pl cur rf w of
             (cur', rf', Inl p) \<Rightarrow> (k, buf, cur', Await rf', Inl p)
           | (cur', rf', Inr Pending) \<Rightarrow> (k, buf, cur', Await rf', Inr Pending)
           | (cur', rf', Inr (Ready _)) \<Rightarrow> read_round pl cur' s buf w k))"

definition write_round ::
  "('k, 'r, 's, 'w) platform \<Rightarrow> 'r option \<Rightarrow> 's tcp \<Rightarrow> u8 list \<Rightarrow> 'w \<Rightarrow> 'k \<Rightarrow>
     'k \<times> 'r option \<times> io_state \<times> (nat, io_error) result poll outcome" where
  "write_round pl cur s buf w k =
     (case p_send pl (tcp_fd s) buf k of
        (k1, Inl p) \<Rightarrow> (k1, cur, Start, Inl p)
      | (k1, Inr (Ok n)) \<Rightarrow> (k1, cur, Start, Inr (Ready (Ok n)))
      | (k1, Inr (Err e)) \<Rightarrow>
          if p_would_block pl e then (k1, park_on pl cur (tcp_token s) Write w)
          else (k1, cur, Start, Inr (Ready (Err e))))"

definition write_poll ::
  "('k, 'r, 's, 'w) platform \<Rightarrow> 'r option \<Rightarrow> 's tcp \<Rightarrow> io_state \<Rightarrow> u8 list \<Rightarrow> 'w \<Rightarrow> 'k \<Rightarrow>
     'k \<times> 'r option \<times> io_state \<times> (nat, io_error) result poll outcome" where
  "write_poll pl cur s st buf w k =
     (case st of
        Start \<Rightarrow> write_round pl cur s buf w k
      | Await rf \<Rightarrow>
          (case ready_for_poll pl cur rf w of
             (cur', rf', Inl p) \<Rightarrow> (k, cur', Await rf', Inl p)
           | (cur', rf', Inr Pending) \<Rightarrow> (k, cur', Await rf', Inr Pending)
           | (cur', rf', Inr (Ready _)) \<Rightarrow> write_round pl cur' s buf w k))"

datatype 's connect_state = Connecting socket_addr | WaitWritable "'s tcp" ready_for | Finished

definition connect_poll ::
  "('k, 'r, 's, 'w) platform \<Rightarrow> 'r option \<Rightarrow> 's connect_state \<Rightarrow> 'w \<Rightarrow> 'k \<Rightarrow>
     ('k \<times> 'r option \<times> 's connect_state \<times> ('s tcp, io_error) result poll outcome) option" where
  "connect_poll pl cur st w k =
     (case st of
        Connecting addr \<Rightarrow>
          (case p_stream_socket pl addr k of
             (k1, Err e) \<Rightarrow> Some (k1, cur, Finished, Inr (Ready (Err e)))
           | (k1, Ok fd) \<Rightarrow>
               (case p_connect pl fd addr k1 of
                  (k2, Err e) \<Rightarrow> Some (p_close pl fd k2, cur, Finished, Inr (Ready (Err e)))
                | (k2, Ok status) \<Rightarrow>
                    (case register_owned pl cur fd interest_READ_WRITE k2 of
                       None \<Rightarrow> None
                     | Some (k3, cur', Inl p) \<Rightarrow> Some (k3, cur', Finished, Inl p)
                     | Some (k3, cur', Inr (Err e)) \<Rightarrow> Some (k3, cur', Finished, Inr (Ready (Err e)))
                     | Some (k3, cur', Inr (Ok s)) \<Rightarrow>
                         (case status of
                            Done \<Rightarrow> Some (k3, cur', Finished, Inr (Ready (Ok s)))
                          | InProgress \<Rightarrow>
                              (case ready_for_poll pl cur' (ready_for_new (tcp_token s) Write) w of
                                 (cur2, rf, _) \<Rightarrow> Some (k3, cur2, WaitWritable s rf, Inr Pending))))))
      | WaitWritable s rf \<Rightarrow>
          (case ready_for_poll pl cur rf w of
             (cur', rf', Inl p) \<Rightarrow> (let (k', cur'') = tcp_drop pl cur' s k in Some (k', cur'', Finished, Inl p))
           | (cur', rf', Inr Pending) \<Rightarrow> Some (k, cur', WaitWritable s rf', Inr Pending)
           | (cur', rf', Inr (Ready _)) \<Rightarrow>
               (case p_so_error pl (tcp_fd s) k of
                  (k1, Err e) \<Rightarrow> (let (k2, cur2) = tcp_drop pl cur' s k1 in Some (k2, cur2, Finished, Inr (Ready (Err e))))
                | (k1, Ok err) \<Rightarrow>
                    if err \<noteq> 0
                    then (let (k2, cur2) = tcp_drop pl cur' s k1 in Some (k2, cur2, Finished, Inr (Ready (Err (OsError err)))))
                    else Some (k1, cur', Finished, Inr (Ready (Ok s)))))
      | Finished \<Rightarrow> Some (k, cur, Finished, Inl (UnreachableCode ''`async fn` resumed after completion'')))"

text \<open>A \<open>connect\<close> that is given up while it waits drops the stream it holds.\<close>

definition connect_drop ::
  "('k, 'r, 's, 'w) platform \<Rightarrow> 'r option \<Rightarrow> 's connect_state \<Rightarrow> 'k \<Rightarrow> 'k \<times> 'r option" where
  "connect_drop pl cur st k = (case st of WaitWritable s rf \<Rightarrow> tcp_drop pl cur s k | _ \<Rightarrow> (k, cur))"

section \<open>Parking on the reactor\<close>

lemma park_on_Some [simp]:
  "park_on pl (Some r) token dir w =
     (Some (p_set_waker pl r token dir w), Await \<lparr>rf_token = token, rf_dir = dir, rf_polled = True\<rparr>, Inr Pending)"
  by (simp add: park_on_def ready_for_poll_def ready_for_new_def)

lemma ready_for_polled [simp]: "rf_polled rf \<Longrightarrow> ready_for_poll pl cur rf w = (cur, rf, Inr (Ready ()))"
  by (simp add: ready_for_poll_def)

lemma ready_for_first: "ready_for_poll pl cur (ready_for_new t d) w = (cur', rf, x) \<Longrightarrow> rf_polled rf"
  by (auto simp: ready_for_poll_def ready_for_new_def Let_def split: option.splits)

text \<open>
  A platform whose reactor is a table of wakers: what blocks is woken by the next event of its direction and
  then repeats its system call.
\<close>

locale tcp_waiting = waker_table wt_parked wt_live wt_set wt_ready wt_can wt_deliver
  for wt_parked :: "'r \<Rightarrow> u64 \<Rightarrow> direction \<Rightarrow> 'w option" and wt_live and wt_set and wt_ready :: "'r \<Rightarrow> 'e \<Rightarrow> u64 \<Rightarrow> direction \<Rightarrow> bool"
    and wt_can and wt_deliver +
  fixes pl :: "('k, 'r, 's, 'w) platform"
  assumes set_waker: "p_set_waker pl = wt_set"
begin

lemma blocked_read:
  assumes "wt_live r (tcp_token s)" and "p_recv pl (tcp_fd s) buf k = (k1, buf1, Inr (Err e))" and "p_would_block pl e"
  obtains st where "read_poll pl (Some r) s Start buf w k = (k1, buf1, Some (wt_set r (tcp_token s) Read w), st, Inr Pending)"
    and "\<forall>ev. wt_can r ev \<longrightarrow> wt_ready r ev (tcp_token s) Read \<longrightarrow> (\<exists>r2 ws. wt_deliver ev (wt_set r (tcp_token s) Read w) = Some (r2, ws) \<and> w \<in> set ws)"
    and "\<forall>cur buf w k. read_poll pl cur s st buf w k = read_round pl cur s buf w k"
proof (rule that)
  let ?st = "Await \<lparr>rf_token = tcp_token s, rf_dir = Read, rf_polled = True\<rparr>"
  show "read_poll pl (Some r) s Start buf w k = (k1, buf1, Some (wt_set r (tcp_token s) Read w), ?st, Inr Pending)"
    using assms(2,3) by (simp add: read_poll_def read_round_def set_waker)
  show "\<forall>ev. wt_can r ev \<longrightarrow> wt_ready r ev (tcp_token s) Read \<longrightarrow>
      (\<exists>r2 ws. wt_deliver ev (wt_set r (tcp_token s) Read w) = Some (r2, ws) \<and> w \<in> set ws)"
    by (intro allI impI) (rule woken [OF assms(1), of _ _ w], auto)
  show "\<forall>cur buf w k. read_poll pl cur s ?st buf w k = read_round pl cur s buf w k"
    by (simp add: read_poll_def)
qed

lemma blocked_accept:
  assumes "wt_live r (tcp_token l)" and "p_accept pl (tcp_fd l) k = (k1, Err e)" and "p_would_block pl e"
  obtains st where "accept_poll pl (Some r) l Start w k = Some (k1, Some (wt_set r (tcp_token l) Read w), st, Inr Pending)"
    and "\<forall>ev. wt_can r ev \<longrightarrow> wt_ready r ev (tcp_token l) Read \<longrightarrow> (\<exists>r2 ws. wt_deliver ev (wt_set r (tcp_token l) Read w) = Some (r2, ws) \<and> w \<in> set ws)"
    and "\<forall>cur w k. accept_poll pl cur l st w k = accept_round pl cur l w k"
proof (rule that)
  let ?st = "Await \<lparr>rf_token = tcp_token l, rf_dir = Read, rf_polled = True\<rparr>"
  show "accept_poll pl (Some r) l Start w k = Some (k1, Some (wt_set r (tcp_token l) Read w), ?st, Inr Pending)"
    using assms(2,3) by (simp add: accept_poll_def accept_round_def set_waker)
  show "\<forall>ev. wt_can r ev \<longrightarrow> wt_ready r ev (tcp_token l) Read \<longrightarrow>
      (\<exists>r2 ws. wt_deliver ev (wt_set r (tcp_token l) Read w) = Some (r2, ws) \<and> w \<in> set ws)"
    by (intro allI impI) (rule woken [OF assms(1), of _ _ w], auto)
  show "\<forall>cur w k. accept_poll pl cur l ?st w k = accept_round pl cur l w k"
    by (simp add: accept_poll_def)
qed

lemma blocked_write:
  assumes "wt_live r (tcp_token s)" and "p_send pl (tcp_fd s) buf k = (k1, Inr (Err e))" and "p_would_block pl e"
  obtains st where "write_poll pl (Some r) s Start buf w k = (k1, Some (wt_set r (tcp_token s) Write w), st, Inr Pending)"
    and "\<forall>ev. wt_can r ev \<longrightarrow> wt_ready r ev (tcp_token s) Write \<longrightarrow> (\<exists>r2 ws. wt_deliver ev (wt_set r (tcp_token s) Write w) = Some (r2, ws) \<and> w \<in> set ws)"
    and "\<forall>cur buf w k. write_poll pl cur s st buf w k = write_round pl cur s buf w k"
proof (rule that)
  let ?st = "Await \<lparr>rf_token = tcp_token s, rf_dir = Write, rf_polled = True\<rparr>"
  show "write_poll pl (Some r) s Start buf w k = (k1, Some (wt_set r (tcp_token s) Write w), ?st, Inr Pending)"
    using assms(2,3) by (simp add: write_poll_def write_round_def set_waker)
  show "\<forall>ev. wt_can r ev \<longrightarrow> wt_ready r ev (tcp_token s) Write \<longrightarrow>
      (\<exists>r2 ws. wt_deliver ev (wt_set r (tcp_token s) Write w) = Some (r2, ws) \<and> w \<in> set ws)"
    by (intro allI impI) (rule woken [OF assms(1), of _ _ w], auto)
  show "\<forall>cur buf w k. write_poll pl cur s ?st buf w k = write_round pl cur s buf w k"
    by (simp add: write_poll_def)
qed

end

section \<open>Sockets\<close>

text \<open>
  \<open>opens k\<close> are the sockets that are open in the state \<open>k\<close> of the system. An operation that owned the sockets \<open>own\<close> and
  now owns \<open>own'\<close> keeps the balance when all others are as they were and its own are open.
\<close>

definition kept :: "('k \<Rightarrow> 's set) \<Rightarrow> 'k \<Rightarrow> 's set \<Rightarrow> 'k \<Rightarrow> 's set \<Rightarrow> bool" where
  "kept opens k own k' own' \<longleftrightarrow> opens k' - own' = opens k - own \<and> (own \<subseteq> opens k \<longrightarrow> own' \<subseteq> opens k')"

lemma kept_refl: "opens k' = opens k \<Longrightarrow> kept opens k own k' own"
  by (simp add: kept_def)

lemma kept_trans: "kept opens k own k1 own1 \<Longrightarrow> kept opens k1 own1 k2 own2 \<Longrightarrow> kept opens k own k2 own2"
  by (simp add: kept_def)

lemma kept_new: "kept opens k {} k' {s} \<longleftrightarrow> s \<notin> opens k \<and> opens k' = insert s (opens k)"
  by (auto simp: kept_def)

lemma kept_none: "kept opens k {} k' {} \<longleftrightarrow> opens k' = opens k"
  by (auto simp: kept_def)

definition returned :: "('a, io_error) result outcome \<Rightarrow> 'a set" where
  "returned res = (case res of Inr (Ok x) \<Rightarrow> {x} | _ \<Rightarrow> {})"

definition poll_returned :: "('a, io_error) result poll outcome \<Rightarrow> 'a set" where
  "poll_returned res = (case res of Inr (Ready (Ok x)) \<Rightarrow> {x} | _ \<Rightarrow> {})"

lemma returned_simps [simp]:
  "returned (Inl p) = {}" "returned (Inr (Err e)) = {}" "returned (Inr (Ok x)) = {x}"
  "poll_returned (Inl p) = {}" "poll_returned (Inr Pending) = {}" "poll_returned (Inr (Ready (Err e))) = {}"
  "poll_returned (Inr (Ready (Ok x))) = {x}"
  by (simp_all add: returned_def poll_returned_def)

lemma outcome_result_cases:
  obtains (panicked) p where "x = Inl p" | (failed) e where "x = Inr (Err e)" | (succeeded) y where "x = Inr (Ok y)"
proof (cases x)
  case (Inr r)
  then show thesis using that by (cases r) simp_all
qed (rule that)

fun connect_owns :: "'s connect_state \<Rightarrow> 's tcp set" where
  "connect_owns (WaitWritable s rf) = {s}"
| "connect_owns _ = {}"

fun connect_inv :: "'s connect_state \<Rightarrow> bool" where
  "connect_inv (WaitWritable s rf) = rf_polled rf"
| "connect_inv _ = True"

text \<open>
  What the code relies on of the system, for whatever \<open>laws\<close> tie \<open>opens\<close> to it: a new socket was not open before, closing
  closes, registration returns, and the other calls open and close nothing.
\<close>

locale tcp_platform =
  fixes pl :: "('k, 'r, 's, 'w) platform" and laws :: "('k \<Rightarrow> 's set) \<Rightarrow> bool"
  assumes socket_law: "laws opens \<Longrightarrow> p_stream_socket pl addr k = (k', res) \<Longrightarrow> kept opens k {} k' (returned (Inr res))"
    and bind_law: "laws opens \<Longrightarrow> p_bind pl s addr k = (k', r1) \<Longrightarrow> opens k' = opens k"
    and listen_law: "laws opens \<Longrightarrow> p_listen pl s b k = (k', r1) \<Longrightarrow> opens k' = opens k"
    and connect_law: "laws opens \<Longrightarrow> p_connect pl s addr k = (k', r2) \<Longrightarrow> opens k' = opens k"
    and so_error_law: "laws opens \<Longrightarrow> p_so_error pl s k = (k', r3) \<Longrightarrow> opens k' = opens k"
    and register_law: "laws opens \<Longrightarrow> \<exists>k' r' x. p_register pl r s i k = Some (k', r', x) \<and> opens k' = opens k"
    and deregister_law: "laws opens \<Longrightarrow> p_deregister pl r s t k = (k', r', r1) \<Longrightarrow> opens k' = opens k"
    and close_law: "laws opens \<Longrightarrow> opens (p_close pl s k) = opens k - {s}"
begin

lemma restrict: "tcp_platform pl (\<lambda>opens. laws opens \<and> extra)"
  by (unfold_locales; elim conjE; rule socket_law bind_law listen_law connect_law so_error_law register_law
      deregister_law close_law; assumption)

lemma close_kept: "laws opens \<Longrightarrow> kept opens k {s} (p_close pl s k) {}"
  by (simp add: kept_def close_law)

lemma register_kept:
  assumes "laws opens"
  obtains k' cur' res where "register_owned pl cur fd i k = Some (k', cur', res)"
    and "kept opens k {fd} k' (tcp_fd ` returned res)"
proof (cases cur)
  case None
  then show thesis using that close_kept [OF assms] by (simp add: register_owned_def)
next
  case (Some r)
  obtain k1 r1 x where x: "p_register pl r fd i k = Some (k1, r1, x)" "opens k1 = opens k"
    using register_law [OF assms] by blast
  have k1: "kept opens k {fd} k1 {fd}" using x(2) by (rule kept_refl)
  show thesis
    using that Some x(1) k1 kept_trans [OF k1 close_kept [OF assms]]
    by (cases x rule: outcome_result_cases) (simp_all add: register_owned_def)
qed

lemma drop_kept:
  assumes "laws opens"
  shows "kept opens k {tcp_fd s} (fst (tcp_drop pl cur s k)) {}"
proof (cases cur)
  case None
  then show ?thesis using close_kept [OF assms] by (simp add: tcp_drop_def deregister_best_effort_def)
next
  case (Some r)
  obtain k1 r1 x where d: "p_deregister pl r (tcp_fd s) (tcp_token s) k = (k1, r1, x)" by (metis prod_cases3)
  have "kept opens k {tcp_fd s} k1 {tcp_fd s}" using deregister_law [OF assms d] by (rule kept_refl)
  from kept_trans [OF this close_kept [OF assms]] show ?thesis
    using Some d by (simp add: tcp_drop_def deregister_best_effort_def)
qed

lemma bind_kept:
  assumes "laws opens"
  obtains k' cur' res where "tcp_bind pl cur addr k = Some (k', cur', res)" and "kept opens k {} k' (tcp_fd ` returned res)"
proof -
  obtain k1 x1 where s: "p_stream_socket pl addr k = (k1, x1)" by fastforce
  note s' = socket_law [OF assms s]
  show thesis
  proof (cases x1)
    case (Ok fd)
    obtain k2 x2 where b: "p_bind pl fd addr k1 = (k2, x2)" by fastforce
    obtain k3 x3 where l: "p_listen pl fd 1024 k2 = (k3, x3)" by fastforce
    have k2: "kept opens k {} k2 {fd}" using s' Ok bind_law [OF assms b] by (simp add: kept_def)
    have k3: "kept opens k {} k3 {fd}" using k2 listen_law [OF assms l] by (simp add: kept_def)
    obtain k4 cur4 x4 where r: "register_owned pl cur fd interest_READ k3 = Some (k4, cur4, x4)"
      "kept opens k3 {fd} k4 (tcp_fd ` returned x4)" by (rule register_kept [OF assms])
    show thesis
      using that s Ok b l r(1) kept_trans [OF k2 close_kept [OF assms]] kept_trans [OF k3 close_kept [OF assms]]
        kept_trans [OF k3 r(2)]
      by (cases x2; cases x3) (simp_all add: tcp_bind_def)
  qed (use that s s' in \<open>simp add: tcp_bind_def\<close>)
qed

lemma connect_start_kept:
  assumes "laws opens"
  obtains k' cur' st res where "connect_poll pl cur (Connecting addr) w k = Some (k', cur', st, res)"
    and "kept opens k {} k' (tcp_fd ` (connect_owns st \<union> poll_returned res))" and "connect_inv st"
proof -
  obtain k1 x1 where s: "p_stream_socket pl addr k = (k1, x1)" by fastforce
  note s' = socket_law [OF assms s]
  show thesis
  proof (cases x1)
    case (Ok fd)
    obtain k2 x2 where c: "p_connect pl fd addr k1 = (k2, x2)" by fastforce
    have k2: "kept opens k {} k2 {fd}" using s' Ok connect_law [OF assms c] by (simp add: kept_def)
    obtain k3 cur3 x3 where r: "register_owned pl cur fd interest_READ_WRITE k2 = Some (k3, cur3, x3)"
      "kept opens k2 {fd} k3 (tcp_fd ` returned x3)" by (rule register_kept [OF assms])
    note k3 = kept_trans [OF k2 r(2)]
    show thesis
    proof (cases x2)
      case st: (Ok status)
      show thesis
      proof (cases x3 rule: outcome_result_cases)
        case (succeeded t)
        obtain cur4 rf y where f: "ready_for_poll pl cur3 (ready_for_new (tcp_token t) Write) w = (cur4, rf, y)"
          by (metis prod_cases3)
        show thesis
          using that s Ok c r(1) st succeeded f k3 ready_for_first [OF f] by (cases status) (simp_all add: connect_poll_def)
      qed (use that s Ok c r(1) st k3 in \<open>simp_all add: connect_poll_def\<close>)
    qed (use that s Ok c kept_trans [OF k2 close_kept [OF assms]] in \<open>simp add: connect_poll_def\<close>)
  qed (use that s s' in \<open>simp add: connect_poll_def\<close>)
qed

lemma connect_wait_kept:
  assumes "laws opens" and "rf_polled rf"
  obtains k' cur' res where "connect_poll pl cur (WaitWritable s rf) w k = Some (k', cur', Finished, res)"
    and "kept opens k {tcp_fd s} k' (tcp_fd ` poll_returned res)"
proof -
  obtain k1 x1 where e: "p_so_error pl (tcp_fd s) k = (k1, x1)" by fastforce
  obtain k2 cur2 where d: "tcp_drop pl cur s k1 = (k2, cur2)" by fastforce
  have k1: "kept opens k {tcp_fd s} k1 {tcp_fd s}" using so_error_law [OF assms(1) e] by (rule kept_refl)
  have "kept opens k1 {tcp_fd s} k2 {}" using drop_kept [OF assms(1), of k1 s cur] d by simp
  note k2 = kept_trans [OF k1 this]
  show thesis
  proof (cases x1)
    case (Ok err)
    then show thesis using that e d k1 k2 assms(2) by (cases "err = 0") (simp_all add: connect_poll_def)
  qed (use that e d k2 assms(2) in \<open>simp add: connect_poll_def\<close>)
qed

text \<open>Any poll of a \<open>connect\<close> returns, and the sockets it holds pass to its next state or to its result.\<close>

lemma connect_kept:
  assumes "laws opens" and "connect_inv st"
  shows "\<exists>k' cur' st' res. connect_poll pl cur st w k = Some (k', cur', st', res) \<and> connect_inv st' \<and>
     kept opens k (tcp_fd ` connect_owns st) k' (tcp_fd ` (connect_owns st' \<union> poll_returned res))"
proof (cases st)
  case (Connecting addr)
  show ?thesis by (rule connect_start_kept [OF assms(1), of cur addr w k]) (use Connecting in auto)
next
  case (WaitWritable s rf)
  with assms(2) have "rf_polled rf" by simp
  show ?thesis by (rule connect_wait_kept [OF assms(1) \<open>rf_polled rf\<close>, of cur s w k]) (use WaitWritable in auto)
next
  case Finished
  then show ?thesis by (simp add: connect_poll_def kept_refl)
qed

lemma connect_drop_kept: "laws opens \<Longrightarrow> kept opens k (tcp_fd ` connect_owns st) (fst (connect_drop pl cur st k)) {}"
  by (cases st) (simp_all add: connect_drop_def drop_kept kept_refl)

end

text \<open>Where accepting a connection opens exactly the socket it returns, so does polling \<open>accept\<close>.\<close>

locale tcp_accepting = tcp_platform pl laws
  for pl :: "('k, 'r, 's, 'w) platform" and laws :: "('k \<Rightarrow> 's set) \<Rightarrow> bool" +
  assumes accept_law: "laws opens \<Longrightarrow> p_accept pl s k = (k', res) \<Longrightarrow> kept opens k {} k' (fst ` returned (Inr res))"
begin

lemma accept_round_kept:
  assumes "laws opens"
  obtains k' cur' st res where "accept_round pl cur l w k = Some (k', cur', st, res)"
    and "kept opens k {} k' ((tcp_fd \<circ> fst) ` poll_returned res)"
proof -
  obtain k1 x1 where a: "p_accept pl (tcp_fd l) k = (k1, x1)" by fastforce
  note a' = accept_law [OF assms a]
  show thesis
  proof (cases x1)
    case (Ok y)
    obtain fd addr where y: "y = (fd, addr)" by fastforce
    obtain k2 cur2 x2 where r: "register_owned pl cur fd interest_READ_WRITE k1 = Some (k2, cur2, x2)"
      "kept opens k1 {fd} k2 (tcp_fd ` returned x2)" by (rule register_kept [OF assms])
    have k1: "kept opens k {} k1 {fd}" using a' Ok y by simp
    show thesis
      using that a Ok y r(1) kept_trans [OF k1 r(2)]
      by (cases x2 rule: outcome_result_cases) (simp_all add: accept_round_def)
  next
    case (Err e)
    obtain cur2 st and y :: "('s tcp \<times> socket_addr, io_error) result poll outcome"
      where p: "park_on pl cur (tcp_token l) Read w = (cur2, st, y)" by (metis prod_cases3)
    have "poll_returned y = {}" using p by (auto simp: park_on_def split: prod.splits sum.splits)
    then show thesis using that a a' Err p by (cases "p_would_block pl e") (simp_all add: accept_round_def)
  qed
qed

lemma accept_kept:
  assumes "laws opens"
  shows "\<exists>k' cur' st' res. accept_poll pl cur l st w k = Some (k', cur', st', res) \<and>
     kept opens k {} k' ((tcp_fd \<circ> fst) ` poll_returned res)"
proof (cases "\<exists>cur'. accept_poll pl cur l st w k = accept_round pl cur' l w k")
  case True
  then obtain cur' where "accept_poll pl cur l st w k = accept_round pl cur' l w k" by blast
  then show ?thesis by (auto intro: accept_round_kept [OF assms, of cur' l w k])
next
  case False
  then show ?thesis
    by (auto simp: accept_poll_def kept_refl split: io_state.splits prod.splits sum.splits poll.splits)
qed

end

section \<open>The reactor's invariant\<close>

text \<open>TCP code reaches the reactor only through three operations; what these keep, all of it keeps.\<close>

locale tcp_reactor =
  fixes pl :: "('k, 'r, 's, 'w) platform" and r_inv :: "'r \<Rightarrow> bool"
  assumes register_inv: "r_inv r \<Longrightarrow> p_register pl r s i k = Some (k', r', x) \<Longrightarrow> r_inv r'"
    and set_waker_inv: "r_inv r \<Longrightarrow> r_inv (p_set_waker pl r t d w)"
    and deregister_inv: "r_inv r \<Longrightarrow> p_deregister pl r s t k = (k', r', y) \<Longrightarrow> r_inv r'"
begin

lemma register_owned_inv:
  "pred_option r_inv cur \<Longrightarrow> register_owned pl cur fd i k = Some (k', cur', res) \<Longrightarrow> pred_option r_inv cur'"
proof (cases cur)
  case (Some r)
  assume "pred_option r_inv cur" and o: "register_owned pl cur fd i k = Some (k', cur', res)"
  then have r: "r_inv r" using Some by simp
  obtain k1 r1 x where x: "p_register pl r fd i k = Some (k1, r1, x)"
    using o Some by (auto simp: register_owned_def split: option.splits)
  show ?thesis
    using o Some x register_inv [OF r x] by (cases x rule: outcome_result_cases) (auto simp: register_owned_def)
qed (auto simp: register_owned_def)

lemma ready_for_inv: "pred_option r_inv cur \<Longrightarrow> ready_for_poll pl cur rf w = (cur', rf', x) \<Longrightarrow> pred_option r_inv cur'"
  by (auto simp: ready_for_poll_def Let_def set_waker_inv split: if_splits option.splits)

lemma park_on_inv: "pred_option r_inv cur \<Longrightarrow> park_on pl cur t d w = (cur', st, x) \<Longrightarrow> pred_option r_inv cur'"
  by (auto simp: park_on_def dest: ready_for_inv split: prod.splits sum.splits)

lemma drop_inv: "pred_option r_inv cur \<Longrightarrow> tcp_drop pl cur s k = (k', cur') \<Longrightarrow> pred_option r_inv cur'"
  by (auto simp: tcp_drop_def deregister_best_effort_def Let_def dest: deregister_inv split: option.splits prod.splits)

lemma bind_inv: "pred_option r_inv cur \<Longrightarrow> tcp_bind pl cur addr k = Some (k', cur', res) \<Longrightarrow> pred_option r_inv cur'"
  by (auto simp: tcp_bind_def dest: register_owned_inv split: prod.splits result.splits)

lemma accept_round_inv:
  "pred_option r_inv cur \<Longrightarrow> accept_round pl cur l w k = Some (k', cur', st, res) \<Longrightarrow> pred_option r_inv cur'"
  by (auto simp: accept_round_def dest: register_owned_inv park_on_inv
      split: prod.splits result.splits option.splits sum.splits if_splits)

lemma accept_inv:
  "pred_option r_inv cur \<Longrightarrow> accept_poll pl cur l st w k = Some (k', cur', st', res) \<Longrightarrow> pred_option r_inv cur'"
  by (auto simp: accept_poll_def dest: accept_round_inv ready_for_inv split: io_state.splits prod.splits sum.splits poll.splits)

lemma read_round_inv:
  "pred_option r_inv cur \<Longrightarrow> read_round pl cur s buf w k = (k', buf', cur', st, res) \<Longrightarrow> pred_option r_inv cur'"
  by (auto simp: read_round_def dest: park_on_inv split: prod.splits result.splits sum.splits if_splits)

lemma read_inv:
  "pred_option r_inv cur \<Longrightarrow> read_poll pl cur s st buf w k = (k', buf', cur', st', res) \<Longrightarrow> pred_option r_inv cur'"
  by (auto simp: read_poll_def dest: read_round_inv ready_for_inv split: io_state.splits prod.splits sum.splits poll.splits)

lemma write_round_inv:
  "pred_option r_inv cur \<Longrightarrow> write_round pl cur s buf w k = (k', cur', st, res) \<Longrightarrow> pred_option r_inv cur'"
  by (auto simp: write_round_def dest: park_on_inv split: prod.splits result.splits sum.splits if_splits)

lemma write_inv:
  "pred_option r_inv cur \<Longrightarrow> write_poll pl cur s st buf w k = (k', cur', st', res) \<Longrightarrow> pred_option r_inv cur'"
  by (auto simp: write_poll_def dest: write_round_inv ready_for_inv split: io_state.splits prod.splits sum.splits poll.splits)

lemma connect_reactor_inv:
  "pred_option r_inv cur \<Longrightarrow> connect_poll pl cur st w k = Some (k', cur', st', res) \<Longrightarrow> pred_option r_inv cur'"
  by (auto simp: connect_poll_def Let_def dest: register_owned_inv ready_for_inv drop_inv
      split: connect_state.splits prod.splits result.splits option.splits sum.splits poll.splits connect_status.splits if_splits)

end

end
