(* ===== verification/LinuxTcp.thy ===== *)
theory LinuxTcp
  imports Tcp
begin

text \<open>
  TCP on Linux: \<open>sys\<close> is \<^verbatim>\<open>src/src/sys/linux/socket.rs\<close> and the reactor is \<^verbatim>\<open>src/src/reactor/linux.rs\<close>. The platform meets
  the contracts of \<open>Tcp\<close> whenever the kernel behaves as documented.
\<close>

section \<open>The Linux platform\<close>

definition would_block :: "'k socket_sys \<Rightarrow> io_error \<Rightarrow> bool" where
  "would_block ss e \<longleftrightarrow> e = OsError (EWOULDBLOCK ss)"

definition linux_register ::
  "'k linux_sys \<Rightarrow> 'w inner \<Rightarrow> int \<Rightarrow> interest \<Rightarrow> 'k \<Rightarrow> 'k \<times> 'w inner \<times> (u64, io_error) result outcome" where
  "linux_register es r fd i k =
     (case inner_register es r fd i k of
        Inl p \<Rightarrow> (k, r, Inl p)
      | Inr (k', r', res) \<Rightarrow> (k', r', Inr res))"

definition linux_platform :: "'k linux_sys \<Rightarrow> 'k socket_sys \<Rightarrow> ('k, 'w inner, int, 'w) platform" where
  "linux_platform es ss = \<lparr>
     p_stream_socket = stream_socket ss, p_bind = bind ss, p_listen = listen ss, p_accept = accept ss,
     p_connect = connect ss,
     p_send = (\<lambda>fd buf k. case send ss fd buf k of (k', res) \<Rightarrow> (k', Inr res)),
     p_recv = (\<lambda>fd buf k. case recv ss fd buf k of (k', buf', res) \<Rightarrow> (k', buf', Inr res)),
     p_so_error = so_error ss, p_local_addr = local_addr ss, p_close = sys_close ss,
     p_would_block = would_block ss,
     p_register = (\<lambda>r fd i k. Some (linux_register es r fd i k)),
     p_set_waker = inner_set_waker, p_deregister = inner_deregister es\<rparr>"

lemma linux_platform_simps [simp]:
  "p_stream_socket (linux_platform es ss) = stream_socket ss" "p_bind (linux_platform es ss) = bind ss"
  "p_listen (linux_platform es ss) = listen ss" "p_accept (linux_platform es ss) = accept ss"
  "p_connect (linux_platform es ss) = connect ss" "p_so_error (linux_platform es ss) = so_error ss"
  "p_send (linux_platform es ss) fd buf k = (fst (send ss fd buf k), Inr (snd (send ss fd buf k)))"
  "p_recv (linux_platform es ss) fd buf k = (case recv ss fd buf k of (k', buf', res) \<Rightarrow> (k', buf', Inr res))"
  "p_local_addr (linux_platform es ss) = local_addr ss" "p_close (linux_platform es ss) = sys_close ss"
  "p_would_block (linux_platform es ss) = would_block ss"
  "p_register (linux_platform es ss) r fd i k = Some (linux_register es r fd i k)"
  "p_set_waker (linux_platform es ss) = inner_set_waker" "p_deregister (linux_platform es ss) = inner_deregister es"
  by (simp_all add: linux_platform_def case_prod_beta)

interpretation linux_io: tcp_waiting inner_parked inner_live inner_set_waker "inner_ready sys" "\<lambda>r ev. io_event ev"
  "inner_deliver sys wfd k0" "linux_platform es ss" for sys :: "'k linux_sys" and wfd k0 es ss
  by unfold_locales simp

lemma deliver_dispatch:
  assumes "io_event ev" and "inner_deliver es wfd k ev r = Some (r', ws)"
  shows "\<exists>sl. dispatch es wfd [ev] (slots r) [] k = (k, sl, Ok ws)"
  using assms dispatch_unknown [OF assms(1), of "slots r" es wfd "[]" k] dispatch_one [OF assms(1), of "slots r" _ es wfd "[]" k]
  by (cases "slab_get (slots r) (ev_key ev)") (auto simp: inner_deliver_def simp del: dispatch.simps)

section \<open>Descriptors\<close>

text \<open>
  What the code relies on of the kernel: \<open>socket\<close> and \<open>accept4\<close> return a descriptor that was not open
  before or open none, \<open>close\<close> closes its argument, and the other calls open and close nothing.
\<close>

definition opened :: "('k \<Rightarrow> int set) \<Rightarrow> 'k \<Rightarrow> 'k \<Rightarrow> int \<Rightarrow> bool" where
  "opened opens k k' raw \<longleftrightarrow>
     (if raw < 0 then opens k' = opens k else raw \<notin> opens k \<and> opens k' = insert raw (opens k))"

definition fd_laws :: "'k linux_sys \<Rightarrow> 'k socket_sys \<Rightarrow> ('k \<Rightarrow> int set) \<Rightarrow> bool" where
  "fd_laws es ss opens \<longleftrightarrow>
     (\<forall>d t p k k' raw e. sys_socket ss d t p k = (k', raw, e) \<longrightarrow> opened opens k k' raw) \<and>
     (\<forall>fd n fl k k' raw e bs. sys_accept4 ss fd n fl k = (k', raw, e, bs) \<longrightarrow> opened opens k k' raw) \<and>
     (\<forall>fd bs n k. opens (fst (sys_bind ss fd bs n k)) = opens k) \<and>
     (\<forall>fd n k. opens (fst (sys_listen ss fd n k)) = opens k) \<and>
     (\<forall>fd bs n k. opens (fst (sys_connect ss fd bs n k)) = opens k) \<and>
     (\<forall>fd a b k. opens (fst (sys_getsockopt ss fd a b k)) = opens k) \<and>
     (\<forall>ep op fd ev k. opens (fst (sys_epoll_ctl es ep op fd ev k)) = opens k) \<and>
     (\<forall>fd k. opens (sys_close ss fd k) = opens k - {fd})"

lemma fd_laws_socket:
  assumes "fd_laws es ss opens" and "sys_socket ss d t p k = (k', raw, e)"
  shows "opened opens k k' raw"
  using conjunct1 [OF assms(1) [unfolded fd_laws_def]] assms(2) by blast

lemma fd_laws_accept:
  assumes "fd_laws es ss opens" and "sys_accept4 ss fd n fl k = (k', raw, e, bs)"
  shows "opened opens k k' raw"
  using conjunct1 [OF conjunct2 [OF assms(1) [unfolded fd_laws_def]]] assms(2) by blast

lemma fd_laws_frame:
  assumes "fd_laws es ss opens"
  shows "opens (fst (sys_bind ss fd bs n k)) = opens k" "opens (fst (sys_listen ss fd b k)) = opens k"
    "opens (fst (sys_connect ss fd bs n k)) = opens k" "opens (fst (sys_getsockopt ss fd a b k)) = opens k"
    "opens (fst (sys_epoll_ctl es ep op fd ev k)) = opens k" "opens (sys_close ss fd k) = opens k - {fd}"
  using assms by (simp_all add: fd_laws_def)

text \<open>Documented behaviour of \<open>accept4\<close> on an internet socket: the peer's address is an internet address.\<close>

definition accept_known :: "'k socket_sys \<Rightarrow> bool" where
  "accept_known ss \<longleftrightarrow> (\<forall>fd n fl k k' raw e bs. sys_accept4 ss fd n fl k = (k', raw, e, bs) \<longrightarrow> 0 \<le> raw \<longrightarrow>
     (\<exists>addr. sockaddr_to_socketaddr (big_endian ss) (AF_INET ss) (AF_INET6 ss) bs = Ok addr))"

lemma epoll_ctl_opens: "fd_laws es ss opens \<Longrightarrow> opens (fst (epoll_ctl es ep fd op token evs k)) = opens k"
  using fd_laws_frame(5) [of es ss opens] by (simp add: epoll_ctl_def case_prod_beta Let_def)

lemma inner_register_opens:
  assumes "fd_laws es ss opens" and "inner_register es r fd i k = Inr (k', r', x)"
  shows "opens k' = opens k"
proof -
  obtain sl key token where "(case epoll_add es (epfd r) fd token (interest_events es i) k of
         (k', Err e) \<Rightarrow> Inr (k', r\<lparr>slots := slab_remove sl key\<rparr>, Err e)
       | (k', Ok _) \<Rightarrow> Inr (k', r\<lparr>slots := sl\<rparr>, Ok token)) = (Inr (k', r', x) :: ('a \<times> 'b inner \<times> (u64, io_error) result) outcome)"
    using assms(2) by (auto simp: inner_register_def outcome_simps)
  then show ?thesis
    using epoll_ctl_opens [OF assms(1), of "epfd r" fd "EPOLL_CTL_ADD es" token "interest_events es i" k]
    by (cases "epoll_ctl es (epfd r) fd (EPOLL_CTL_ADD es) token (interest_events es i) k")
       (auto simp: epoll_add_def split: result.splits)
qed

interpretation linux_fds: tcp_platform "linux_platform es ss :: ('k, 'w inner, int, 'w) platform" "fd_laws es ss" for es ss
proof (unfold_locales, goal_cases)
  case (1 opens addr k k' res)
  then show ?case using fd_laws_socket [OF 1(1)]
    by (auto simp: stream_socket_def opened_def kept_new kept_none Let_def split: prod.splits if_splits)
next
  case (6 opens r s i k)
  then show ?case
    by (auto simp: linux_register_def dest: inner_register_opens [OF 6] split: sum.splits)
next
  case (7 opens r s t k k' r' x)
  then show ?case using epoll_ctl_opens [OF 7(1), of "epfd r" s "EPOLL_CTL_DEL es" 0 0 k]
    by (auto simp: inner_deregister_def epoll_delete_def Let_def split: if_splits prod.splits result.splits)
qed (auto simp: bind_def listen_def connect_def so_error_def fd_laws_frame case_prod_beta Let_def split: if_splits)

interpretation linux_reactor: tcp_reactor "linux_platform es ss" "\<lambda>r. slab_inv (slots r)" for es ss
proof (unfold_locales, goal_cases)
  case (1 r s i k k' r' x)
  show ?case
  proof (cases "slab_room (slots r)")
    case True
    show ?thesis
    proof (rule inner_register_cases [OF 1(1) True, of es s i k])
      fix sl key
      assume "slab_inv sl" and reg: "inner_register es r s i k =
        (case epoll_add es (epfd r) s (of_nat key + 1) (interest_events es i) k of
           (k', Err e) \<Rightarrow> Inr (k', r\<lparr>slots := slab_remove sl key\<rparr>, Err e)
         | (k', Ok _) \<Rightarrow> Inr (k', r\<lparr>slots := sl\<rparr>, Ok (of_nat key + 1)))"
      obtain k1 y where "epoll_add es (epfd r) s (of_nat key + 1) (interest_events es i) k = (k1, y)" by fastforce
      with reg 1(2) \<open>slab_inv sl\<close> slab_st.remove_inv [OF \<open>slab_inv sl\<close>, of key] show ?thesis
        by (cases y) (auto simp: linux_register_def)
    qed
  next
    case False
    then have "\<exists>p. slab_insert slot_default (slots r) = Inl p"
      using slab_insert_room [of slot_default "slots r"] by (cases "slab_insert slot_default (slots r)") auto
    then show ?thesis using 1 by (auto simp: linux_register_def inner_register_def)
  qed
next
  case (3 r s t k k' r' y)
  then show ?case
    by (auto simp: inner_deregister_def Let_def slab_st.remove_inv split: if_splits prod.splits result.splits)
qed (auto simp: inner_set_waker_def Let_def slab_st.put_inv split: option.splits)

interpretation linux_acc: tcp_accepting "linux_platform es ss :: ('k, 'w inner, int, 'w) platform"
  "\<lambda>opens. fd_laws es ss opens \<and> accept_known ss" for es ss
proof (intro tcp_accepting.intro tcp_accepting_axioms.intro linux_fds.restrict, goal_cases)
  case (1 opens s k k' res)
  obtain k1 raw e bs where a: "sys_accept4 ss s STORAGE_SIZE (SOCK_NONBLOCK ss OR SOCK_CLOEXEC ss) k = (k1, raw, e, bs)"
    by (metis prod_cases4)
  have o: "opened opens k k1 raw" by (rule fd_laws_accept [OF conjunct1 [OF 1(1)] a])
  show ?case
  proof (cases "raw < 0")
    case False
    then obtain addr where "sockaddr_to_socketaddr (big_endian ss) (AF_INET ss) (AF_INET6 ss) bs = Ok addr"
      using 1(1) a unfolding accept_known_def by fastforce
    then show ?thesis using 1(2) a o False by (auto simp: accept_def opened_def kept_new)
  qed (use 1(2) a o in \<open>auto simp: accept_def opened_def kept_none\<close>)
qed

section \<open>A kernel for the concrete instances\<close>

text \<open>
  The kernel state is the list of open descriptors. New sockets get a number above all open ones,
  connections stay in progress, and there is nothing to read.
\<close>

definition fresh_fd :: "int list \<Rightarrow> int" where
  "fresh_fd k = foldr max k 2 + 1"

definition sample_epoll :: "int list linux_sys" where
  "sample_epoll = \<lparr>sys_epoll_create1 = (\<lambda>_ k. (k, 3, 0)), sys_epoll_ctl = (\<lambda>_ _ _ _ k. (k, 0, 0)),
     sys_epoll_wait = (\<lambda>_ _ _ k. (k, 0, 0, [])), sys_eventfd = (\<lambda>_ _ k. (k, 4, 0)),
     sys_write = (\<lambda>_ _ k. (k, 8, 0)), sys_read = (\<lambda>_ k. (k, 8, 0)),
     EPOLL_CLOEXEC = 524288, EFD_FLAGS = 526336, EPOLL_CTL_ADD = 1, EPOLL_CTL_DEL = 2,
     EPOLLIN = 1, EPOLLOUT = 4, EPOLLERR = 8, EPOLLHUP = 16, EINTR = 4, EAGAIN = 11\<rparr>"

definition sample_sockets :: "int list socket_sys" where
  "sample_sockets = \<lparr>sys_socket = (\<lambda>_ _ _ k. (fresh_fd k # k, fresh_fd k, 0)), sys_bind = (\<lambda>_ _ _ k. (k, 0, 0)),
     sys_listen = (\<lambda>_ _ k. (k, - 1, 98)), sys_accept4 = (\<lambda>_ _ _ k. (k, - 1, 11, [])),
     sys_connect = (\<lambda>_ _ _ k. (k, - 1, 115)), sys_send = (\<lambda>_ _ _ k. (k, - 1, 11)), sys_recv = (\<lambda>_ _ _ k. (k, - 1, 11, [])),
     sys_getsockopt = (\<lambda>_ _ _ k. (k, 0, 0, 0)), sys_getsockname = (\<lambda>_ _ k. (k, - 1, 9, [])),
     sys_close = (\<lambda>fd k. filter (\<lambda>x. x \<noteq> fd) k), big_endian = False, AF_INET = 2, AF_INET6 = 10, SOCK_STREAM = 1,
     SOCK_NONBLOCK = 2048, SOCK_CLOEXEC = 524288, MSG_NOSIGNAL = 16384, SOL_SOCKET = 1, SO_ERROR = 4,
     EINPROGRESS = 115, EWOULDBLOCK = 11\<rparr>"

lemma fresh_fd_bound: "fresh_fd k \<notin> set k" "\<not> fresh_fd k < 0"
proof -
  have "(\<forall>x \<in> set k. x \<le> foldr max k 2) \<and> 2 \<le> foldr max k 2" by (induction k) auto
  then show "fresh_fd k \<notin> set k" "\<not> fresh_fd k < 0" by (auto simp: fresh_fd_def)
qed

lemma sample_fd_laws: "fd_laws sample_epoll sample_sockets set"
  using fresh_fd_bound by (auto simp: fd_laws_def opened_def sample_epoll_def sample_sockets_def)

text \<open>A reactor with one registered source, token 1.\<close>

definition sample_reactor :: "string inner" where
  "sample_reactor = \<lparr>slots = \<lparr>entries = [Occupied slot_default], next_free = SENTINEL\<rparr>, epfd = 3, waker_fd = 4\<rparr>"

lemma sample_reactor_slot: "slab_get (slots sample_reactor) (unat ((1 :: u64) - 1)) = Some slot_default"
  by (simp add: sample_reactor_def slab_get_def)

lemma sample_would_block:
  "recv sample_sockets fd buf k = (k, buf, Err (OsError 11))" "send sample_sockets fd buf k = (k, Err (OsError 11))"
  "accept sample_sockets fd k = (k, Err (OsError 11))" "would_block sample_sockets (OsError 11)"
  by (simp_all add: recv_def send_def accept_def would_block_def sample_sockets_def)

section \<open>Properties of TCP on Linux\<close>

text \<open>
  Claim C15. Each of a read, a write and an accept that would block is woken and tries again: its poll returns
  pending with its waker stored in the reactor, the next event of its direction on its token wakes that
  waker, and whenever it is polled again it repeats the system call.
\<close>

theorem tcp_io_retry:
  fixes es :: "'k linux_sys" and ss :: "'k socket_sys" and r :: "'w inner"
  defines "pl \<equiv> linux_platform es ss :: ('k, 'w inner, int, 'w) platform"
  assumes "inner_live r (tcp_token s)" and "ev_token ev = tcp_token s"
  shows "(\<forall>k1 buf1 e. recv ss (tcp_fd s) buf k = (k1, buf1, Err e) \<and> would_block ss e \<longrightarrow>
       (\<exists>r1 st. read_poll pl (Some r) s Start buf w k = (k1, buf1, Some r1, st, Inr Pending) \<and>
          (ev_readable es ev \<longrightarrow> (\<exists>sl ws. dispatch es wfd [ev] (slots r1) [] k4 = (k4, sl, Ok ws) \<and> w \<in> set ws)) \<and>
          (\<forall>cur buf w k. read_poll pl cur s st buf w k = read_round pl cur s buf w k))) \<and>
     (\<forall>k1 e. send ss (tcp_fd s) buf k = (k1, Err e) \<and> would_block ss e \<longrightarrow>
       (\<exists>r1 st. write_poll pl (Some r) s Start buf w k = (k1, Some r1, st, Inr Pending) \<and>
          (ev_writable es ev \<longrightarrow> (\<exists>sl ws. dispatch es wfd [ev] (slots r1) [] k4 = (k4, sl, Ok ws) \<and> w \<in> set ws)) \<and>
          (\<forall>cur buf w k. write_poll pl cur s st buf w k = write_round pl cur s buf w k))) \<and>
     (\<forall>k1 e. accept ss (tcp_fd s) k = (k1, Err e) \<and> would_block ss e \<longrightarrow>
       (\<exists>r1 st. accept_poll pl (Some r) s Start w k = Some (k1, Some r1, st, Inr Pending) \<and>
          (ev_readable es ev \<longrightarrow> (\<exists>sl ws. dispatch es wfd [ev] (slots r1) [] k4 = (k4, sl, Ok ws) \<and> w \<in> set ws)) \<and>
          (\<forall>cur w k. accept_poll pl cur s st w k = accept_round pl cur s w k)))"
proof (intro conjI allI impI)
  have io: "io_event ev" using assms(2,3) by (simp add: inner_live_def SELF_WAKE_TOKEN_def)
  have rdy: "inner_ready es r ev (tcp_token s) d \<longleftrightarrow> ev_direction es d ev" for d
    using io assms(3) by (simp add: inner_ready_def)
  have wk: "\<exists>sl ws. dispatch es wfd [ev] (slots r') [] k4 = (k4, sl, Ok ws) \<and> w \<in> set ws"
    if "\<forall>ev. io_event ev \<longrightarrow> inner_ready es r ev (tcp_token s) d \<longrightarrow> (\<exists>r2 ws. inner_deliver es wfd k4 ev r' = Some (r2, ws) \<and> w \<in> set ws)" "ev_direction es d ev" for r' d
    using that io rdy deliver_dispatch [OF io, of es wfd k4 r'] by blast
  show "\<exists>r1 st. read_poll pl (Some r) s Start buf w k = (k1, buf1, Some r1, st, Inr Pending) \<and>
      (ev_readable es ev \<longrightarrow> (\<exists>sl ws. dispatch es wfd [ev] (slots r1) [] k4 = (k4, sl, Ok ws) \<and> w \<in> set ws)) \<and>
      (\<forall>cur buf w k. read_poll pl cur s st buf w k = read_round pl cur s buf w k)"
    if c: "recv ss (tcp_fd s) buf k = (k1, buf1, Err e) \<and> would_block ss e" for k1 buf1 e
    by (rule linux_io.blocked_read [OF assms(2), of es ss buf k k1 buf1 e w es wfd k4])
      (use c wk [of Read] in \<open>auto simp: pl_def simp del: dispatch.simps\<close>)
  show "\<exists>r1 st. write_poll pl (Some r) s Start buf w k = (k1, Some r1, st, Inr Pending) \<and>
      (ev_writable es ev \<longrightarrow> (\<exists>sl ws. dispatch es wfd [ev] (slots r1) [] k4 = (k4, sl, Ok ws) \<and> w \<in> set ws)) \<and>
      (\<forall>cur buf w k. write_poll pl cur s st buf w k = write_round pl cur s buf w k)"
    if c: "send ss (tcp_fd s) buf k = (k1, Err e) \<and> would_block ss e" for k1 e
    by (rule linux_io.blocked_write [OF assms(2), of es ss buf k k1 e w es wfd k4])
      (use c wk [of Write] in \<open>auto simp: pl_def simp del: dispatch.simps\<close>)
  show "\<exists>r1 st. accept_poll pl (Some r) s Start w k = Some (k1, Some r1, st, Inr Pending) \<and>
      (ev_readable es ev \<longrightarrow> (\<exists>sl ws. dispatch es wfd [ev] (slots r1) [] k4 = (k4, sl, Ok ws) \<and> w \<in> set ws)) \<and>
      (\<forall>cur w k. accept_poll pl cur s st w k = accept_round pl cur s w k)"
    if c: "accept ss (tcp_fd s) k = (k1, Err e) \<and> would_block ss e" for k1 e
    by (rule linux_io.blocked_accept [OF assms(2), of es ss k k1 e w es wfd k4])
      (use c wk [of Read] in \<open>auto simp: pl_def simp del: dispatch.simps\<close>)
qed

theorem tcp_io_retry_witness:
  "\<exists>r1 st1 sl' ws. read_poll (linux_platform sample_epoll sample_sockets) (Some sample_reactor) \<lparr>tcp_fd = 7, tcp_token = 1\<rparr>
       Start [0, 0] ''w'' [7] = ([7], [0, 0], Some r1, st1, Inr Pending) \<and>
     dispatch sample_epoll 4 [\<lparr>ev_token = 1, ev_ready = 1\<rparr>] (slots r1) [] [7] = ([7], sl', Ok ws) \<and> ''w'' \<in> set ws"
proof -
  let ?s = "\<lparr>tcp_fd = 7, tcp_token = 1\<rparr> :: int tcp" and ?ev = "\<lparr>ev_token = 1, ev_ready = 1\<rparr> :: event"
  have a: "inner_live sample_reactor (tcp_token ?s)" "ev_token ?ev = tcp_token ?s"
    using sample_reactor_slot by (simp_all add: inner_live_def)
  have "ev_readable sample_epoll ?ev" by (simp add: ev_readable_def sample_epoll_def)
  moreover have "recv sample_sockets (tcp_fd ?s) [0, 0] [7] = ([7], [0, 0], Err (OsError 11)) \<and> would_block sample_sockets (OsError 11)"
    by (simp add: sample_would_block)
  ultimately show ?thesis
    using conjunct1 [OF tcp_io_retry [OF a, where es = sample_epoll and ss = sample_sockets and buf = "[0, 0]" and k = "[7]"
      and w = "''w''" and wfd = 4 and ?k4.0 = "[7]"]] by blast
qed

text \<open>
  A kernel on which every \<open>accept4\<close> succeeds with the peer address \<open>bs\<close>. With that of a Unix socket the conversion
  fails.
\<close>

definition accepting_sockets :: "u8 list \<Rightarrow> int list socket_sys" where
  "accepting_sockets bs = sample_sockets\<lparr>sys_accept4 := \<lambda>_ _ _ k. (fresh_fd k # k, fresh_fd k, 0, bs)\<rparr>"

lemma accepting_fd_laws: "fd_laws sample_epoll (accepting_sockets bs) set"
  using fresh_fd_bound by (auto simp: fd_laws_def opened_def sample_epoll_def accepting_sockets_def sample_sockets_def)

lemma accept_round_unknown:
  assumes "fd_laws es ss opens"
    and "sys_accept4 ss (tcp_fd s) STORAGE_SIZE (SOCK_NONBLOCK ss OR SOCK_CLOEXEC ss) k = (k1, raw, err, bs)" and "0 \<le> raw"
    and "sockaddr_to_socketaddr (big_endian ss) (AF_INET ss) (AF_INET6 ss) bs = Err e"
  shows "accept_round (linux_platform es ss) cur s w k = Some (k1, cur, Start, Inr (Ready (Err e)))"
    and "raw \<notin> opens k" "opens k1 = insert raw (opens k)"
proof -
  have "\<not> would_block ss e"
    using assms(4) by (auto simp: sockaddr_to_socketaddr_def would_block_def Let_def split: if_splits)
  then show "accept_round (linux_platform es ss) cur s w k = Some (k1, cur, Start, Inr (Ready (Err e)))"
    using assms(2-4) by (simp add: accept_round_def accept_def)
  show "raw \<notin> opens k" "opens k1 = insert raw (opens k)"
    using fd_laws_accept [OF assms(1,2)] assms(3) by (simp_all add: opened_def)
qed

text \<open>
  Claim C24. Where descriptors go, on every path. \<open>bind\<close> returns, and either hands out exactly one newly opened
  descriptor or fails, also by a panic, with the same descriptors open as before. Every poll of a \<open>connect\<close>
  returns and passes the descriptor it holds to its next state or to its result, or closes it; so does giving
  the future up, and dropping a stream or listener closes its own. Polling \<open>accept\<close> opens exactly the
  descriptor of the stream it returns when the kernel reports an internet address for the peer. The one leak of
  the code is the other case: an accept whose address conversion fails returns the error and leaves the
  accepted descriptor open with no owner.
\<close>

theorem tcp_fd_balanced:
  fixes es :: "'k linux_sys" and ss :: "'k socket_sys" and cur :: "'w inner option"
  defines "pl \<equiv> linux_platform es ss :: ('k, 'w inner, int, 'w) platform"
  assumes "fd_laws es ss opens"
  shows "(\<exists>k' cur' res. tcp_bind pl cur addr k = Some (k', cur', res) \<and>
       (case res of Inr (Ok l) \<Rightarrow> tcp_fd l \<notin> opens k \<and> opens k' = insert (tcp_fd l) (opens k) | _ \<Rightarrow> opens k' = opens k)) \<and>
     (connect_inv st \<longrightarrow> (\<exists>k' cur' st' res. connect_poll pl cur st w k = Some (k', cur', st', res) \<and> connect_inv st' \<and>
       kept opens k (tcp_fd ` connect_owns st) k' (tcp_fd ` (connect_owns st' \<union> poll_returned res)))) \<and>
     kept opens k (tcp_fd ` connect_owns st) (fst (connect_drop pl cur st k)) {} \<and>
     opens (fst (tcp_drop pl cur s k)) = opens k - {tcp_fd s} \<and>
     (accept_known ss \<longrightarrow> (\<exists>k' cur' st' res. accept_poll pl cur s io w k = Some (k', cur', st', res) \<and>
       kept opens k {} k' ((tcp_fd \<circ> fst) ` poll_returned res))) \<and>
     (\<forall>k1 raw err bs e. sys_accept4 ss (tcp_fd s) STORAGE_SIZE (SOCK_NONBLOCK ss OR SOCK_CLOEXEC ss) k = (k1, raw, err, bs) \<and>
        0 \<le> raw \<and> sockaddr_to_socketaddr (big_endian ss) (AF_INET ss) (AF_INET6 ss) bs = Err e \<longrightarrow>
        accept_poll pl cur s Start w k = Some (k1, cur, Start, Inr (Ready (Err e))) \<and>
        raw \<notin> opens k \<and> opens k1 = insert raw (opens k))"
proof (intro conjI allI impI)
  obtain k' cur' res where "tcp_bind pl cur addr k = Some (k', cur', res)" "kept opens k {} k' (tcp_fd ` returned res)"
    unfolding pl_def by (rule linux_fds.bind_kept [OF assms(2)])
  then show "\<exists>k' cur' res. tcp_bind pl cur addr k = Some (k', cur', res) \<and>
      (case res of Inr (Ok l) \<Rightarrow> tcp_fd l \<notin> opens k \<and> opens k' = insert (tcp_fd l) (opens k) | _ \<Rightarrow> opens k' = opens k)"
    by (cases res rule: outcome_result_cases) (auto simp: kept_new kept_none)
  show "opens (fst (tcp_drop pl cur s k)) = opens k - {tcp_fd s}"
    using linux_fds.drop_kept [OF assms(2)] by (simp add: pl_def kept_def)
qed (use linux_fds.connect_kept [OF assms(2)] linux_fds.connect_drop_kept [OF assms(2)] linux_acc.accept_kept [OF conjI [OF assms(2)]]
  accept_round_unknown [OF assms(2)] in \<open>auto simp: pl_def accept_poll_def [of _ _ _ Start]\<close>)

abbreviation inet_peer :: "u8 list" where
  "inet_peer \<equiv> [2, 0, 0, 80, 127, 0, 0, 1, 0, 0, 0, 0, 0, 0, 0, 0]"

abbreviation unix_peer :: "u8 list" where
  "unix_peer \<equiv> [1, 0]"

lemma sample_peers:
  "\<exists>addr. sockaddr_to_socketaddr False 2 10 inet_peer = Ok addr" "\<exists>e. sockaddr_to_socketaddr False 2 10 unix_peer = Err e"
  by (simp_all add: sockaddr_to_socketaddr_def ss_family_def from_ne16_def Let_def)

lemma accepting_sockets_simps:
  "sys_accept4 (accepting_sockets bs) fd n fl [5] = ([6, 5], 6, 0, bs)" "big_endian (accepting_sockets bs) = False"
  "AF_INET (accepting_sockets bs) = 2" "AF_INET6 (accepting_sockets bs) = 10"
  by (simp_all add: accepting_sockets_def sample_sockets_def fresh_fd_def)

theorem tcp_fd_balanced_witness:
  "(\<exists>k' cur' res. tcp_bind (linux_platform sample_epoll (accepting_sockets inet_peer)) (Some sample_reactor)
       (V4 [127, 0, 0, 1] 80) [5] = Some (k', cur', res) \<and> set k' = {5} \<and> res = Inr (Err (OsError 98))) \<and>
   (\<exists>k' cur' st' res. accept_poll (linux_platform sample_epoll (accepting_sockets inet_peer)) (Some sample_reactor)
       \<lparr>tcp_fd = 5, tcp_token = 1\<rparr> Start ''w'' [5] = Some (k', cur', st', res) \<and> set k' = {5, 6}) \<and>
   (\<exists>k' cur' st' e. accept_poll (linux_platform sample_epoll (accepting_sockets unix_peer)) (Some sample_reactor)
       \<lparr>tcp_fd = 5, tcp_token = 1\<rparr> Start ''w'' [5] = Some (k', cur', st', Inr (Ready (Err e))) \<and> set k' = {5, 6})"
proof (intro conjI)
  let ?s = "\<lparr>tcp_fd = 5, tcp_token = 1\<rparr> :: int tcp"
  let ?pl = "\<lambda>bs. linux_platform sample_epoll (accepting_sockets bs) :: (int list, string inner, int, string) platform"
  note bal = tcp_fd_balanced [OF accepting_fd_laws]
  note acc = bal [where cur = "Some sample_reactor" and s = ?s and io = Start and w = "''w''" and k = "[5]", THEN conjunct2, THEN conjunct2, THEN conjunct2, THEN conjunct2]
  obtain k' cur' res where b: "tcp_bind (?pl inet_peer) (Some sample_reactor) (V4 [127, 0, 0, 1] 80) [5] = Some (k', cur', res)"
    and r: "case res of Inr (Ok l) \<Rightarrow> tcp_fd l \<notin> set [5] \<and> set k' = insert (tcp_fd l) (set [5]) | _ \<Rightarrow> set k' = set [5]"
    using conjunct1 [OF bal] by blast
  then have "res = Inr (Err (OsError 98))"
    by (simp add: tcp_bind_def stream_socket_def bind_def listen_def accepting_sockets_def sample_sockets_def fresh_fd_def
        case_prod_beta)
  with b r show "\<exists>k' cur' res. tcp_bind (?pl inet_peer) (Some sample_reactor) (V4 [127, 0, 0, 1] 80) [5] = Some (k', cur', res) \<and>
      set k' = {5} \<and> res = Inr (Err (OsError 98))" by simp
  have known: "accept_known (accepting_sockets inet_peer)"
    using sample_peers(1) by (simp add: accept_known_def accepting_sockets_def sample_sockets_def)
  obtain k' cur' st' res where a: "accept_poll (?pl inet_peer) (Some sample_reactor) ?s Start ''w'' [5] = Some (k', cur', st', res)"
    and kept: "kept set [5] {} k' ((tcp_fd \<circ> fst) ` poll_returned res)" 
    using acc [THEN conjunct1, THEN mp, OF known] by blast
  obtain addr where "sockaddr_to_socketaddr False 2 10 inet_peer = Ok addr" using sample_peers(1) by blast
  with a obtain t where "res = Inr (Ready (Ok (t, addr)))" "tcp_fd t = 6"
    by (auto simp: accept_poll_def accept_round_def accept_def accepting_sockets_simps register_owned_def linux_register_def
        inner_register_def slab_insert_def token_of_key_def epoll_add_def epoll_ctl_def sample_epoll_def sample_reactor_def
        VEC_CAPACITY_def)
  with a kept show "\<exists>k' cur' st' res. accept_poll (?pl inet_peer) (Some sample_reactor) ?s Start ''w'' [5] =
      Some (k', cur', st', res) \<and> set k' = {5, 6}" by (auto simp: kept_new)
  obtain e where e: "sockaddr_to_socketaddr False 2 10 unix_peer = Err e" using sample_peers(2) by blast
  have "accept_poll (?pl unix_peer) (Some sample_reactor) ?s Start ''w'' [5] =
      Some ([6, 5], Some sample_reactor, Start, Inr (Ready (Err e))) \<and> 6 \<notin> set [5 :: int] \<and> set [6, 5] = insert 6 (set [5 :: int])"
    by (rule acc [THEN conjunct2, rule_format, where bs = unix_peer and err = 0]) (use e in \<open>simp add: accepting_sockets_simps\<close>)
  then show "\<exists>k' cur' st' e. accept_poll (?pl unix_peer) (Some sample_reactor) ?s Start ''w'' [5] =
      Some (k', cur', st', Inr (Ready (Err e))) \<and> set k' = {5, 6}" by auto
qed

text \<open>
  \<open>connect\<close> can report success without a connection: once its first poll has returned pending,
  the next poll, whatever caused it and with no event having arrived, goes on to read \<open>SO_ERROR\<close>, which
  is zero also while the connection attempt is in progress, and returns the stream.
\<close>

lemma tcp_connect_spurious:
  assumes "connect_poll pl cur (Connecting addr) w k = Some (k1, cur1, WaitWritable s rf, Inr Pending)"
    and "p_so_error pl (tcp_fd s) k2 = (k3, Ok 0)"
  shows "connect_poll pl cur2 (WaitWritable s rf) w2 k2 = Some (k3, cur2, Finished, Inr (Ready (Ok s)))"
proof -
  have "rf_polled rf"
    using assms(1)
    by (auto simp: connect_poll_def dest: ready_for_first
        split: prod.splits result.splits sum.splits connect_status.splits option.splits if_splits)
  then show ?thesis using assms(2) by (simp add: connect_poll_def)
qed

theorem tcp_connect_spurious_witness:
  "\<exists>k1 cur1 s rf. connect_poll (linux_platform sample_epoll sample_sockets) (Some sample_reactor)
       (Connecting (V4 [127, 0, 0, 1] 80)) ''w'' [] = Some (k1, cur1, WaitWritable s rf, Inr Pending) \<and>
     connect_poll (linux_platform sample_epoll sample_sockets) cur1 (WaitWritable s rf) ''w'' k1 =
       Some (k1, cur1, Finished, Inr (Ready (Ok s)))"
proof -
  obtain k1 cur1 s rf where c: "connect_poll (linux_platform sample_epoll sample_sockets) (Some sample_reactor)
      (Connecting (V4 [127, 0, 0, 1] 80)) ''w'' [] = Some (k1, cur1, WaitWritable s rf, Inr Pending)"
    by (simp add: connect_poll_def stream_socket_def connect_def register_owned_def linux_register_def inner_register_def
        slab_insert_def token_of_key_def epoll_add_def epoll_ctl_def sample_sockets_def sample_epoll_def sample_reactor_def
        fresh_fd_def VEC_CAPACITY_def case_prod_beta)
  have "p_so_error (linux_platform sample_epoll sample_sockets) (tcp_fd s) k1 = (k1, Ok 0)"
    by (simp add: so_error_def sample_sockets_def)
  from tcp_connect_spurious [OF c this, of cur1 "''w''"] c show ?thesis by blast
qed

text \<open>
  Two tasks that read from one stream share a single waker slot: when both would block, the
  second replaces the first one's waker, and the event that makes the stream readable does not wake
  the first task.
\<close>

lemma tcp_second_reader_lost:
  fixes es :: "'k linux_sys" and ss :: "'k socket_sys" and r :: "'w inner"
  defines "pl \<equiv> linux_platform es ss :: ('k, 'w inner, int, 'w) platform"
  assumes "inner_live r (tcp_token s)" and "w1 \<noteq> w2"
    and "\<And>t d. (t, d) \<noteq> (tcp_token s, Read) \<Longrightarrow> inner_parked r t d \<noteq> Some w1"
    and "recv ss (tcp_fd s) buf1 k = (k1, b1, Err e)" and "recv ss (tcp_fd s) buf2 k1 = (k2, b2, Err e)"
    and "would_block ss e" and "ev_token ev = tcp_token s" and "ev_readable es ev"
  shows "\<exists>r1 r2 r3 st1 st2 ws. read_poll pl (Some r) s Start buf1 w1 k = (k1, b1, Some r1, st1, Inr Pending) \<and>
     read_poll pl (Some r1) s Start buf2 w2 k1 = (k2, b2, Some r2, st2, Inr Pending) \<and>
     inner_deliver es wfd k3 ev r2 = Some (r3, ws) \<and> w2 \<in> set ws \<and> w1 \<notin> set ws"
proof -
  let ?r1 = "inner_set_waker r (tcp_token s) Read w1"
  let ?r2 = "inner_set_waker ?r1 (tcp_token s) Read w2"
  have io: "io_event ev" using assms(2,8) by (simp add: inner_live_def SELF_WAKE_TOKEN_def)
  then have rdy: "inner_ready es r ev (tcp_token s) Read" using assms(8,9) by (simp add: inner_ready_def)
  obtain r3 ws where d: "inner_deliver es wfd k3 ev ?r2 = Some (r3, ws)" using linux_wt.deliver [OF io, of es wfd k3 ?r2] by blast
  from linux_wt.replaced [OF assms(2) io rdy assms(3,4) d] d show ?thesis
    using assms(5-7) by (auto simp: pl_def read_poll_def read_round_def)
qed

end
