(* ===== verification/WinReactor.thy ===== *)
theory WinReactor
  imports Reactor Socket
begin

text \<open>
  The Windows reactor: \<^verbatim>\<open>src/src/reactor/windows.rs\<close>, the completion port wrappers of
  \<^verbatim>\<open>src/src/sys/windows/iocp.rs\<close>, the AFD wrappers of \<^verbatim>\<open>src/src/sys/windows/afd.rs\<close> and the Windows fields of
  \<^verbatim>\<open>src/src/reactor/slab.rs\<close>. Every answer of the operating system is an argument of the operation that asks. The boxes
  whose addresses the kernel holds live in an explicit heap, a map from addresses to contents, so that
  reading through the address of a freed box is visible: the operation is then \<open>None\<close>.
\<close>

unbundle bit_operations_syntax

section \<open>AFD\<close>

definition AFD_COMPLETION_KEY :: u64 where "AFD_COMPLETION_KEY = 1"
definition STATUS_PENDING :: int where "STATUS_PENDING = 0x103"
definition STATUS_SUCCESS :: int where "STATUS_SUCCESS = 0"
definition STATUS_NOT_FOUND :: int where "STATUS_NOT_FOUND = 0xC0000225 - 2 ^ 32"

definition SYNCHRONIZE :: u32 where "SYNCHRONIZE = 0x00100000"
definition FILE_OPEN :: u32 where "FILE_OPEN = 1"
definition FILE_SHARE_READ :: u32 where "FILE_SHARE_READ = 0x1"
definition FILE_SHARE_WRITE :: u32 where "FILE_SHARE_WRITE = 0x2"

definition IOCTL_AFD_POLL :: u32 where "IOCTL_AFD_POLL = 0x00012024"

definition POLL_RECEIVE :: u32 where "POLL_RECEIVE = 0x0001"
definition POLL_RECEIVE_EXPEDITED :: u32 where "POLL_RECEIVE_EXPEDITED = 0x0002"
definition POLL_SEND :: u32 where "POLL_SEND = 0x0004"
definition POLL_DISCONNECT :: u32 where "POLL_DISCONNECT = 0x0008"
definition POLL_ABORT :: u32 where "POLL_ABORT = 0x0010"
definition POLL_CONNECT :: u32 where "POLL_CONNECT = 0x0040"
definition POLL_ACCEPT :: u32 where "POLL_ACCEPT = 0x0080"
definition POLL_CONNECT_FAIL :: u32 where "POLL_CONNECT_FAIL = 0x0100"

definition READ_EVENTS :: u32 where
  "READ_EVENTS = POLL_RECEIVE OR POLL_RECEIVE_EXPEDITED OR POLL_DISCONNECT OR POLL_ABORT OR POLL_ACCEPT OR POLL_CONNECT_FAIL"

definition WRITE_EVENTS :: u32 where
  "WRITE_EVENTS = POLL_SEND OR POLL_CONNECT OR POLL_CONNECT_FAIL"

record io_status_block =
  status_or_pointer :: u64
  information :: u64

definition iosb_ZERO :: io_status_block where
  "iosb_ZERO = \<lparr>status_or_pointer = 0, information = 0\<rparr>"

definition iosb_status :: "io_status_block \<Rightarrow> int" where
  "iosb_status b = sint (ucast (status_or_pointer b) :: u32)"

record poll_handle_info =
  ph_handle :: u64
  ph_events :: u32
  ph_status :: int

record poll_info =
  pi_timeout :: int
  number_of_handles :: u32
  exclusive :: u32
  pi_handle :: poll_handle_info

definition poll_info_ZERO :: poll_info where
  "poll_info_ZERO = \<lparr>pi_timeout = 0, number_of_handles = 0, exclusive = 0,
     pi_handle = \<lparr>ph_handle = 0, ph_events = 0, ph_status = 0\<rparr>\<rparr>"

record slot_state =
  iosb :: io_status_block
  info :: poll_info
  base_sock :: u64
  slab_key :: nat
  requested_events :: u32

text \<open>
  The answer of \<open>NtDeviceIoControlFile\<close> and \<open>NtCancelIoFileEx\<close> is the argument \<open>status\<close>, and
  \<open>RtlNtStatusToDosError\<close> is \<open>dos\<close>.
\<close>

definition nt_status_to_io_error :: "(int \<Rightarrow> int) \<Rightarrow> int \<Rightarrow> io_error" where
  "nt_status_to_io_error dos status = OsError (dos status)"

text \<open>
  The device name as the UTF-16 units of the source, and the structures that carry it to \<open>NtCreateFile\<close>. A
  pointer to a structure is the structure, a null pointer is 0. The calls of ntdll and kernel32 and
  the size of the structure are the fields of \<open>nt_sys\<close>.
\<close>

definition AFD_DEVICE_NAME_LEN :: nat where "AFD_DEVICE_NAME_LEN = 19"

definition AFD_DEVICE_NAME :: "u16 list" where
  "AFD_DEVICE_NAME =
     [0x005C, 0x0044, 0x0065, 0x0076, 0x0069, 0x0063, 0x0065,
      0x005C, 0x0041, 0x0066, 0x0064,
      0x005C, 0x004E, 0x0061, 0x006E, 0x006F, 0x0072, 0x0075, 0x006E]"

record unicode_string =
  us_length :: u16
  us_maximum_length :: u16
  us_buffer :: "u16 list"

record object_attributes =
  oa_length :: u32
  root_directory :: u64
  object_name :: unicode_string
  oa_attributes :: u32
  security_descriptor :: u64
  security_quality_of_service :: u64

record nt_sys =
  nt_create_file :: "u32 \<Rightarrow> object_attributes \<Rightarrow> u32 \<Rightarrow> u32 \<Rightarrow> int \<times> u64"
  create_io_completion_port :: "u64 \<Rightarrow> u64 \<Rightarrow> u64 \<Rightarrow> u64"
  last_os_error :: int
  rtl_nt_status_to_dos_error :: "int \<Rightarrow> int"
  size_of_object_attributes :: nat

definition afd_name :: unicode_string where
  "afd_name = (let name_bytes = of_nat (AFD_DEVICE_NAME_LEN * 2) in
     \<lparr>us_length = name_bytes, us_maximum_length = name_bytes, us_buffer = AFD_DEVICE_NAME\<rparr>)"

definition afd_attrs :: "nt_sys \<Rightarrow> object_attributes" where
  "afd_attrs nt = \<lparr>oa_length = of_nat (size_of_object_attributes nt), root_directory = 0, object_name = afd_name,
     oa_attributes = 0, security_descriptor = 0, security_quality_of_service = 0\<rparr>"

text \<open>\<open>open\<close>, with the handles it closes on the way out.\<close>

definition afd_open :: "nt_sys \<Rightarrow> u64 \<Rightarrow> u64 list \<times> (u64, io_error) result" where
  "afd_open nt iocp =
     (let (status, handle) = nt_create_file nt SYNCHRONIZE (afd_attrs nt)
            (FILE_SHARE_READ OR FILE_SHARE_WRITE) FILE_OPEN in
      if status \<noteq> STATUS_SUCCESS then ([], Err (nt_status_to_io_error (rtl_nt_status_to_dos_error nt) status))
      else let assoc = create_io_completion_port nt handle iocp AFD_COMPLETION_KEY in
        if assoc = 0 then ([handle], Err (OsError (last_os_error nt)))
        else ([], Ok handle))"

definition afd_submit :: "(int \<Rightarrow> int) \<Rightarrow> int \<Rightarrow> slot_state \<Rightarrow> slot_state \<times> (unit, io_error) result" where
  "afd_submit dos status st =
     (let st' = st\<lparr>iosb := (iosb st)\<lparr>status_or_pointer := word_of_int STATUS_PENDING, information := 0\<rparr>\<rparr> in
      (st', if status = STATUS_SUCCESS \<or> status = STATUS_PENDING then Ok ()
            else Err (nt_status_to_io_error dos status)))"

definition afd_cancel :: "(int \<Rightarrow> int) \<Rightarrow> int \<Rightarrow> (unit, io_error) result" where
  "afd_cancel dos status =
     (if status = STATUS_SUCCESS \<or> status = STATUS_NOT_FOUND then Ok ()
      else Err (nt_status_to_io_error dos status))"

section \<open>Completion port\<close>

definition MAX_ENTRIES_PER_WAIT :: nat where "MAX_ENTRIES_PER_WAIT = 64"

definition INFINITE :: u32 where "INFINITE = 0xFFFFFFFF"

definition WAIT_TIMEOUT :: int where "WAIT_TIMEOUT = 258"

record completion =
  completion_key :: u64
  overlapped :: "nat option"

definition iocp_create :: "u64 \<Rightarrow> int \<Rightarrow> (u64, io_error) result" where
  "iocp_create raw err = (if raw = 0 then Err (OsError err) else Ok raw)"

definition iocp_post :: "int \<Rightarrow> int \<Rightarrow> (unit, io_error) result" where
  "iocp_post rc err = (if rc = 0 then Err (OsError err) else Ok ())"

text \<open>\<open>u32::try_from(d.as_millis()).unwrap_or(INFINITE - 1)\<close>\<close>

definition iocp_timeout_ms :: "nat option \<Rightarrow> u32" where
  "iocp_timeout_ms timeout =
     (case timeout of
        None \<Rightarrow> INFINITE
      | Some d \<Rightarrow> let ms = d div 1000000 in if ms < 2 ^ 32 then of_nat ms else INFINITE - 1)"

text \<open>\<open>wait\<close>, given what \<open>GetQueuedCompletionStatusEx\<close> answers for the limit it is passed.\<close>

definition iocp_wait ::
  "nat \<Rightarrow> nat option \<Rightarrow> (u32 \<Rightarrow> nat \<Rightarrow> int \<times> int \<times> nat \<times> completion list) \<Rightarrow> (completion list, io_error) result" where
  "iocp_wait out_len timeout answer =
     (let cap = min out_len MAX_ENTRIES_PER_WAIT;
          (rc, err, removed, raw) = answer (iocp_timeout_ms timeout) cap in
      if rc = 0 then (if err = WAIT_TIMEOUT then Ok [] else Err (OsError err))
      else Ok (take (min removed cap) raw))"

section \<open>The reactor\<close>

record 'w win_slot =
  win_read :: "'w option"
  win_write :: "'w option"
  windows :: "nat option"
  cancelled :: bool

definition win_slot_default :: "'w win_slot" where
  "win_slot_default = \<lparr>win_read = None, win_write = None, windows = None, cancelled = False\<rparr>"

record 'w win_inner =
  win_slots :: "'w win_slot slab"
  boxes :: "nat \<rightharpoonup> slot_state"
  next_box :: nat

definition win_inner_new :: "'w win_inner" where
  "win_inner_new = \<lparr>win_slots = slab_new, boxes = Map.empty, next_box = 0\<rparr>"

text \<open>
  \<open>Inner::new\<close>, with the handles it closes on the way out when the AFD device cannot be opened, and
  \<open>Inner::wake\<close>, which posts \<open>SELF_WAKE_KEY\<close>.
\<close>

definition win_open ::
  "u64 \<Rightarrow> int \<Rightarrow> nt_sys \<Rightarrow> u64 list \<times> (u64 \<times> u64 \<times> 'w win_inner, io_error) result" where
  "win_open raw err nt =
     (case iocp_create raw err of
        Err e \<Rightarrow> ([], Err e)
      | Ok iocp \<Rightarrow>
          (case afd_open nt iocp of
             (closed, Err e) \<Rightarrow> (closed @ [iocp], Err e)
           | (closed, Ok afd) \<Rightarrow> (closed, Ok (iocp, afd, win_inner_new))))"

definition win_wake :: "int \<Rightarrow> int \<Rightarrow> (unit, io_error) result" where
  "win_wake rc err = iocp_post rc err"

text \<open>Assigning \<open>None\<close> to \<open>slot.windows\<close> drops the box, and \<open>slots.remove\<close> then vacates the slot.\<close>

definition free_slot :: "'w win_inner \<Rightarrow> nat \<Rightarrow> 'w win_slot \<Rightarrow> 'w win_inner" where
  "free_slot r key s =
     r\<lparr>boxes := (case windows s of None \<Rightarrow> boxes r | Some q \<Rightarrow> (boxes r)(q := None)),
       win_slots := slab_remove (win_slots r) key\<rparr>"

text \<open>What the events of a completion take out of a slot.\<close>

definition win_fire :: "u32 \<Rightarrow> 'w win_slot \<Rightarrow> 'w win_slot \<times> 'w list" where
  "win_fire events s =
     (let (s1, ws1) = (if events AND READ_EVENTS \<noteq> 0
                       then (s\<lparr>win_read := None\<rparr>, case win_read s of Some w \<Rightarrow> [w] | None \<Rightarrow> []) else (s, []));
          (s2, ws2) = (if events AND WRITE_EVENTS \<noteq> 0
                       then (s1\<lparr>win_write := None\<rparr>, case win_write s1 of Some w \<Rightarrow> [w] | None \<Rightarrow> []) else (s1, []))
      in (s2, ws1 @ ws2))"

text \<open>Phase 1, under the lock: one completion, and the loop over the batch.\<close>

definition win_complete ::
  "completion \<Rightarrow> 'w win_inner \<Rightarrow> ('w win_inner \<times> 'w list \<times> nat list) option" where
  "win_complete e r =
     (case overlapped e of
        None \<Rightarrow> Some (r, [], [])
      | Some p \<Rightarrow>
          (case boxes r p of
             None \<Rightarrow> None
           | Some st \<Rightarrow> let key = slab_key st in
               (case slab_get (win_slots r) key of
                  None \<Rightarrow> Some (r, [], [])
                | Some s \<Rightarrow>
                    if cancelled s then Some (free_slot r key s, [], [])
                    else (case windows s of
                            None \<Rightarrow> Some (r, [], [])
                          | Some q \<Rightarrow>
                              (case boxes r q of
                                 None \<Rightarrow> None
                               | Some st' \<Rightarrow>
                                   let events = ph_events (pi_handle (info st'));
                                       (s', ws) = win_fire events s
                                   in Some (r\<lparr>win_slots := slab_put (win_slots r) key s'\<rparr>, ws, [key]))))))"

fun win_dispatch ::
  "completion list \<Rightarrow> 'w win_inner \<Rightarrow> 'w list \<Rightarrow> nat list \<Rightarrow> ('w win_inner \<times> 'w list \<times> nat list) option" where
  "win_dispatch [] r to_wake to_resubmit = Some (r, to_wake, to_resubmit)"
| "win_dispatch (e # es) r to_wake to_resubmit =
     (case win_complete e r of
        None \<Rightarrow> None
      | Some (r', ws, keys) \<Rightarrow> win_dispatch es r' (to_wake @ ws) (to_resubmit @ keys))"

text \<open>
  Phase 3, under the lock again: re-submit one key, and the loop over the keys. \<open>status key\<close> is the
  kernel's answer to the submission for that key. Besides the wakers of failed re-submissions it returns
  the boxes the kernel has taken again.
\<close>

definition win_resubmit_one ::
  "(int \<Rightarrow> int) \<Rightarrow> (nat \<Rightarrow> int) \<Rightarrow> nat \<Rightarrow> 'w win_inner \<Rightarrow> ('w win_inner \<times> 'w list \<times> nat list) option" where
  "win_resubmit_one dos status key r =
     (case slab_get (win_slots r) key of
        None \<Rightarrow> Some (r, [], [])
      | Some s \<Rightarrow>
          if cancelled s then Some (free_slot r key s, [], [])
          else (case windows s of
                  None \<Rightarrow> Some (r, [], [])
                | Some q \<Rightarrow>
                    (case boxes r q of
                       None \<Rightarrow> None
                     | Some st \<Rightarrow>
                         let st1 = st\<lparr>info := (info st)\<lparr>pi_handle := (pi_handle (info st))\<lparr>ph_events := requested_events st, ph_status := 0\<rparr>\<rparr>\<rparr>;
                             (st2, res) = afd_submit dos (status key) st1;
                             r1 = r\<lparr>boxes := (boxes r)(q \<mapsto> st2)\<rparr>
                         in (case res of
                               Ok _ \<Rightarrow> Some (r1, [], [q])
                             | Err _ \<Rightarrow>
                                 Some (free_slot r1 key s,
                                   (case win_read s of Some w \<Rightarrow> [w] | None \<Rightarrow> []) @
                                   (case win_write s of Some w \<Rightarrow> [w] | None \<Rightarrow> []), [])))))"

fun win_resubmit ::
  "(int \<Rightarrow> int) \<Rightarrow> (nat \<Rightarrow> int) \<Rightarrow> nat list \<Rightarrow> 'w win_inner \<Rightarrow> 'w list \<Rightarrow> nat list \<Rightarrow>
     ('w win_inner \<times> 'w list \<times> nat list) option" where
  "win_resubmit dos status [] r failed taken = Some (r, failed, taken)"
| "win_resubmit dos status (key # keys) r failed taken =
     (case win_resubmit_one dos status key r of
        None \<Rightarrow> None
      | Some (r', ws, qs) \<Rightarrow> win_resubmit dos status keys r' (failed @ ws) (taken @ qs))"

text \<open>The whole of \<open>poll\<close> when no other thread comes in between its phases.\<close>

definition win_poll ::
  "(int \<Rightarrow> int) \<Rightarrow> (nat \<Rightarrow> int) \<Rightarrow> (completion list, io_error) result \<Rightarrow> 'w win_inner \<Rightarrow>
     ('w win_inner \<times> ('w list, io_error) result) option" where
  "win_poll dos status batch r =
     (case batch of
        Err e \<Rightarrow> Some (r, Err e)
      | Ok es \<Rightarrow>
          if es = [] then Some (r, Ok [])
          else (case win_dispatch es r [] [] of
                  None \<Rightarrow> None
                | Some (r1, ws, keys) \<Rightarrow>
                    (case win_resubmit dos status keys r1 [] [] of
                       None \<Rightarrow> None
                     | Some (r2, failed, _) \<Rightarrow> Some (r2, Ok (ws @ failed)))))"

definition win_interest_events :: "interest \<Rightarrow> u32" where
  "win_interest_events i =
     (let e0 = 0; e1 = (if want_read i then e0 OR READ_EVENTS else e0) in
      if want_write i then e1 OR WRITE_EVENTS else e1)"

text \<open>The box \<open>register\<close> fills in before it submits it.\<close>

definition win_slot_state :: "u64 \<Rightarrow> nat \<Rightarrow> u32 \<Rightarrow> slot_state" where
  "win_slot_state b key events =
     \<lparr>iosb = iosb_ZERO, info = poll_info_ZERO\<lparr>pi_timeout := 2 ^ 63 - 1, number_of_handles := 1,
        pi_handle := \<lparr>ph_handle = b, ph_events = events, ph_status = 0\<rparr>\<rparr>,
      base_sock = b, slab_key = key, requested_events = events\<rparr>"

lemma win_slot_state_key [simp]: "slab_key (win_slot_state b key events) = key"
  by (simp add: win_slot_state_def)

text \<open>\<open>register\<close>, given the base socket and the kernel's answer to the submission.\<close>

definition win_register ::
  "(int \<Rightarrow> int) \<Rightarrow> int \<Rightarrow> (u64, io_error) result \<Rightarrow> interest \<Rightarrow> 'w win_inner \<Rightarrow>
     ('w win_inner \<times> (u64, io_error) result) outcome" where
  "win_register dos status base i r =
     (case base of
        Err e \<Rightarrow> Inr (r, Err e)
      | Ok b \<Rightarrow>
          let events = win_interest_events i in
          obind (slab_insert win_slot_default (win_slots r)) (\<lambda>(sl, key).
            let (st', res) = afd_submit dos status (win_slot_state b key events)
            in (case res of
                  Err e \<Rightarrow> Inr (r\<lparr>win_slots := slab_remove sl key, next_box := next_box r + 1\<rparr>, Err e)
                | Ok _ \<Rightarrow>
                    (case slab_get sl key of
                       None \<Rightarrow> Inl (ExpectFailed ''just-inserted slot must be occupied'')
                     | Some s \<Rightarrow>
                         obind (token_of_key key) (\<lambda>token.
                           Inr (r\<lparr>win_slots := slab_put sl key (s\<lparr>windows := Some (next_box r)\<rparr>),
                                  boxes := (boxes r)(next_box r \<mapsto> st'), next_box := next_box r + 1\<rparr>, Ok token))))))"

fun win_slot_set :: "direction \<Rightarrow> 'w \<Rightarrow> 'w win_slot \<Rightarrow> 'w win_slot" where
  "win_slot_set Read w s = s\<lparr>win_read := Some w\<rparr>"
| "win_slot_set Write w s = s\<lparr>win_write := Some w\<rparr>"

definition win_set_waker :: "'w win_inner \<Rightarrow> u64 \<Rightarrow> direction \<Rightarrow> 'w \<Rightarrow> 'w win_inner" where
  "win_set_waker r token d w =
     (if token = 0 then r
      else let key = unat (token - 1) in
        case slab_get (win_slots r) key of
          None \<Rightarrow> r
        | Some s \<Rightarrow> if cancelled s then r else r\<lparr>win_slots := slab_put (win_slots r) key (win_slot_set d w s)\<rparr>)"

definition win_deregister ::
  "(int \<Rightarrow> int) \<Rightarrow> int \<Rightarrow> 'w win_inner \<Rightarrow> u64 \<Rightarrow> 'w win_inner \<times> (unit, io_error) result" where
  "win_deregister dos status r token =
     (if token = 0 then (r, Ok ())
      else let key = unat (token - 1) in
        case slab_get (win_slots r) key of
          None \<Rightarrow> (r, Ok ())
        | Some s \<Rightarrow>
            let cancel_result = (case windows s of Some _ \<Rightarrow> afd_cancel dos status | None \<Rightarrow> Ok ());
                s' = s\<lparr>cancelled := True, win_read := None, win_write := None\<rparr>
            in (r\<lparr>win_slots := slab_put (win_slots r) key s'\<rparr>, cancel_result))"

text \<open>
  The name handed to \<open>NtCreateFile\<close> is below the device's directory as AFD requires, its byte length
  is exact and not truncated to 16 bits, and \<open>Inner::new\<close> keeps no handle open when it fails.
\<close>

lemma afd_name_spells:
  "map (\<lambda>u. char_of (unat u)) (us_buffer afd_name) = [CHR 0x5C] @ ''Device'' @ [CHR 0x5C] @ ''Afd'' @ [CHR 0x5C] @ ''Nanorun''"
  "unat (us_length afd_name) = 2 * length (us_buffer afd_name)" "us_maximum_length afd_name = us_length afd_name"
  by (simp_all add: afd_name_def AFD_DEVICE_NAME_def AFD_DEVICE_NAME_LEN_def Let_def char_of_def bit_numeral_rec bit_Suc_0_iff)

lemma win_open_closes:
  assumes "win_open raw err nt = (closed, res)"
  shows "case res of
      Ok (iocp, afd, r) \<Rightarrow> closed = [] \<and> iocp = raw \<and> raw \<noteq> 0
    | Err _ \<Rightarrow> (raw \<noteq> 0 \<longrightarrow> raw \<in> set closed) \<and>
        (\<forall>h. raw \<noteq> 0 \<and> nt_create_file nt SYNCHRONIZE (afd_attrs nt) (FILE_SHARE_READ OR FILE_SHARE_WRITE) FILE_OPEN =
             (STATUS_SUCCESS, h) \<longrightarrow> h \<in> set closed)"
  using assms by (auto simp: win_open_def iocp_create_def afd_open_def Let_def split: if_splits prod.splits)

section \<open>The reactor and the kernel\<close>

text \<open>
  The operations interleave: registrations, deregistrations and wakers come from any thread between the
  phases of the one thread that polls. \<open>pending\<close> are the boxes the kernel holds an unfinished poll
  request for, \<open>queue\<close> the completion port, and \<open>resubmit\<close> the keys the polling thread carries from
  phase 1 to phase 3. The kernel finishes any pending request at any time, by an event or because it
  was cancelled: it writes the events to the box and queues its address.
\<close>

record 'w win_sys =
  rx :: "'w win_inner"
  pending :: "nat set"
  port :: "completion list"
  resubmit :: "nat list option"

definition win_sys_new :: "'w win_sys" where
  "win_sys_new = \<lparr>rx = win_inner_new, pending = {}, port = [], resubmit = None\<rparr>"

definition kernel_writes :: "u32 \<Rightarrow> slot_state \<Rightarrow> slot_state" where
  "kernel_writes events st = st\<lparr>info := (info st)\<lparr>pi_handle := (pi_handle (info st))\<lparr>ph_events := events\<rparr>\<rparr>\<rparr>"

inductive win_step :: "'w win_sys \<Rightarrow> 'w win_sys \<Rightarrow> bool" where
  registered: "win_register dos status base i (rx s) = Inr (r', Ok token) \<Longrightarrow>
    win_step s (s\<lparr>rx := r', pending := insert (next_box (rx s)) (pending s)\<rparr>)"
| refused: "win_register dos status base i (rx s) = Inr (r', Err e) \<Longrightarrow> win_step s (s\<lparr>rx := r'\<rparr>)"
| set_waker: "win_step s (s\<lparr>rx := win_set_waker (rx s) token d w\<rparr>)"
| deregister: "win_deregister dos status (rx s) token = (r', res) \<Longrightarrow> win_step s (s\<lparr>rx := r'\<rparr>)"
| finish: "p \<in> pending s \<Longrightarrow>
    win_step s (s\<lparr>rx := (rx s)\<lparr>boxes := (boxes (rx s))(p := map_option (kernel_writes events) (boxes (rx s) p))\<rparr>,
      pending := pending s - {p}, port := port s @ [\<lparr>completion_key = AFD_COMPLETION_KEY, overlapped = Some p\<rparr>]\<rparr>)"
| post: "win_step s (s\<lparr>port := port s @ [\<lparr>completion_key = 0, overlapped = None\<rparr>]\<rparr>)"
| phase1: "resubmit s = None \<Longrightarrow> win_dispatch (take n (port s)) (rx s) [] [] = Some (r', ws, keys) \<Longrightarrow>
    win_step s (s\<lparr>rx := r', port := drop n (port s), resubmit := Some keys\<rparr>)"
| phase3: "resubmit s = Some keys \<Longrightarrow> win_resubmit dos answer keys (rx s) [] [] = Some (r', failed, taken) \<Longrightarrow>
    win_step s (s\<lparr>rx := r', pending := pending s \<union> set taken, resubmit := None\<rparr>)"

inductive win_reachable :: "'w win_sys \<Rightarrow> bool" where
  win_start: "win_reachable win_sys_new"
| win_more: "win_reachable s \<Longrightarrow> win_step s s' \<Longrightarrow> win_reachable s'"

section \<open>Ownership of boxes\<close>

text \<open>
  Which box a key owns, and which key a box points back to. The invariant is stated over these two
  maps: \<open>P\<close> are the boxes the kernel holds, \<open>q\<close> those in the completion port, \<open>acc\<close> the keys waiting to be
  re-submitted.
\<close>

definition own :: "'w win_inner \<Rightarrow> nat \<rightharpoonup> nat" where
  "own r key = (case slab_get (win_slots r) key of None \<Rightarrow> None | Some s \<Rightarrow> windows s)"

definition backptr :: "'w win_inner \<Rightarrow> nat \<rightharpoonup> nat" where
  "backptr r p = map_option slab_key (boxes r p)"

definition located :: "(nat \<rightharpoonup> nat) \<Rightarrow> (nat \<rightharpoonup> nat) \<Rightarrow> nat \<Rightarrow> nat set \<Rightarrow> nat list \<Rightarrow> nat list \<Rightarrow> bool" where
  "located ow bk nb P q acc \<longleftrightarrow>
     (\<forall>key p. ow key = Some p \<longrightarrow> bk p = Some key) \<and> (\<forall>p key. bk p = Some key \<longrightarrow> p < nb) \<and>
     (\<forall>p. p \<in> P \<or> p \<in> set q \<longrightarrow> (\<exists>key. bk p = Some key \<and> ow key = Some p)) \<and>
     (\<forall>key. key \<in> set acc \<longrightarrow> (\<exists>p. ow key = Some p)) \<and>
     (\<forall>p. p \<in> P \<longrightarrow> p \<notin> set q) \<and> distinct q \<and> distinct acc \<and>
     (\<forall>key p. ow key = Some p \<longrightarrow> (key \<in> set acc) = (p \<notin> P \<and> p \<notin> set q))"

lemma locatedD:
  assumes "located ow bk nb P q acc"
  shows "ow key = Some p \<Longrightarrow> bk p = Some key" "bk p = Some key \<Longrightarrow> p < nb"
    "p \<in> P \<or> p \<in> set q \<Longrightarrow> \<exists>key. bk p = Some key \<and> ow key = Some p"
    "key \<in> set acc \<Longrightarrow> \<exists>p. ow key = Some p" "p \<in> P \<Longrightarrow> p \<notin> set q" "distinct q" "distinct acc"
    "ow key = Some p \<Longrightarrow> (key \<in> set acc) = (p \<notin> P \<and> p \<notin> set q)"
  using assms unfolding located_def by auto

text \<open>A slot and its box disappear together.\<close>

lemma located_free:
  assumes l: "located ow bk nb P q acc" and k: "ow key = Some p" and p: "p \<notin> P"
    and q': "set q' = set q - {p}" "distinct q'" and acc': "set acc' = set acc - {key}" "distinct acc'"
  shows "located (ow(key := None)) (bk(p := None)) nb P q' acc'"
proof -
  note D = locatedD [OF l]
  have b: "bk p = Some key" using D(1) k by blast
  have o: "ow k' \<noteq> Some p" if "k' \<noteq> key" for k' using D(1) b that by force
  show ?thesis unfolding located_def
  proof (intro conjI allI impI)
    fix k' p' assume "(ow(key := None)) k' = Some p'"
    then have "k' \<noteq> key" "ow k' = Some p'" "p' \<noteq> p" using o by (auto split: if_splits)
    then show "(bk(p := None)) p' = Some k'" and "(k' \<in> set acc') = (p' \<notin> P \<and> p' \<notin> set q')"
      using D(1,8) q'(1) acc'(1) by auto
  next
    fix p' assume a: "p' \<in> P \<or> p' \<in> set q'"
    then have "p' \<noteq> p" using p q'(1) by auto
    moreover obtain k' where "bk p' = Some k'" "ow k' = Some p'" using D(3) [of p'] a q'(1) by auto
    ultimately have "(bk(p := None)) p' = Some k' \<and> (ow(key := None)) k' = Some p'" using k by auto
    then show "\<exists>k'. (bk(p := None)) p' = Some k' \<and> (ow(key := None)) k' = Some p'" by blast
  qed (use D q' acc' in \<open>auto split: if_splits\<close>)
qed

text \<open>A box changes its place between the kernel, the completion port and the keys to re-submit.\<close>

lemma located_shift:
  assumes l: "located ow bk nb P q acc" and k: "ow key = Some p"
    and P': "P' - {p} = P - {p}" and q': "set q' - {p} = set q - {p}" "distinct q'"
    and acc': "set acc' - {key} = set acc - {key}" "distinct acc'"
    and one: "(key \<in> set acc') = (p \<notin> P' \<and> p \<notin> set q')" "p \<in> P' \<Longrightarrow> p \<notin> set q'"
  shows "located ow bk nb P' q' acc'"
proof -
  note D = locatedD [OF l]
  have b: "bk p = Some key" using D(1) k by blast
  have Pm: "(x \<in> P') = (x \<in> P)" "(x \<in> set q') = (x \<in> set q)" if "x \<noteq> p" for x
    using P' q'(1) that by blast+
  have am: "(x \<in> set acc') = (x \<in> set acc)" if "x \<noteq> key" for x using acc'(1) that by blast
  show ?thesis unfolding located_def
  proof (intro conjI allI impI)
    fix x assume a: "x \<in> P' \<or> x \<in> set q'"
    show "\<exists>k'. bk x = Some k' \<and> ow k' = Some x"
    proof (cases "x = p")
      case False
      then show ?thesis using a Pm D(3) by blast
    qed (use b k in blast)
  next
    fix k' x assume a: "ow k' = Some x"
    show "(k' \<in> set acc') = (x \<notin> P' \<and> x \<notin> set q')"
    proof (cases "x = p")
      case True
      then have "k' = key" using D(1) [OF a] b by simp
      then show ?thesis using one True by simp
    next
      case False
      then have "k' \<noteq> key" using a k by auto
      then show ?thesis using D(8) [OF a] Pm [OF False] am by blast
    qed
  next
    fix k' assume "k' \<in> set acc'"
    then show "\<exists>x. ow k' = Some x" using am D(4) k by (cases "k' = key") blast+
  next
    fix x assume "x \<in> P'"
    then show "x \<notin> set q'" using Pm D(5) one(2) by (cases "x = p") blast+
  qed (use D(1,2) q'(2) acc'(2) in blast)+
qed

lemma located_register:
  assumes l: "located ow bk nb P q acc" and k: "ow key = None"
  shows "located (ow(key \<mapsto> nb)) (bk(nb \<mapsto> key)) (nb + 1) (insert nb P) q acc"
proof -
  note D = locatedD [OF l]
  have b: "bk nb = None" using D(2) [of nb] by (cases "bk nb") auto
  have o: "ow k' \<noteq> Some nb" for k' using D(1) [of k' nb] b by auto
  have n: "nb \<notin> P" "nb \<notin> set q" "key \<notin> set acc" using D(3,4) b k by fastforce+
  show ?thesis unfolding located_def
  proof (intro conjI allI impI)
    fix k' x assume a: "(ow(key \<mapsto> nb)) k' = Some x"
    show "(bk(nb \<mapsto> key)) x = Some k'" "(k' \<in> set acc) = (x \<notin> insert nb P \<and> x \<notin> set q)"
      using a o D(1,8) [of k' x] n by (auto split: if_splits)
  next
    fix x assume a: "x \<in> insert nb P \<or> x \<in> set q"
    show "\<exists>k'. (bk(nb \<mapsto> key)) x = Some k' \<and> (ow(key \<mapsto> nb)) k' = Some x"
    proof (cases "x = nb")
      case False
      then obtain k' where "bk x = Some k'" "ow k' = Some x" using a D(3) [of x] by auto
      then have "(bk(nb \<mapsto> key)) x = Some k' \<and> (ow(key \<mapsto> nb)) k' = Some x" using False k by auto
      then show ?thesis by blast
    qed simp
  next
    fix x k' assume "(bk(nb \<mapsto> key)) x = Some k'"
    then show "x < nb + 1" using D(2) [of x] by (auto split: if_splits intro: less_SucI)
  next
    fix k' assume "k' \<in> set acc"
    then show "\<exists>x. (ow(key \<mapsto> nb)) k' = Some x" using D(4) by auto
  qed (use D n in auto)
qed

lemma located_next: "located ow bk nb P q acc \<Longrightarrow> located ow bk (nb + 1) P q acc"
  unfolding located_def by (auto intro: less_SucI)

definition winv :: "nat set \<Rightarrow> nat list \<Rightarrow> nat list \<Rightarrow> 'w win_inner \<Rightarrow> bool" where
  "winv P q acc r \<longleftrightarrow> slab_inv (win_slots r) \<and>
     (\<forall>key s. slab_get (win_slots r) key = Some s \<longrightarrow> windows s \<noteq> None) \<and>
     located (own r) (backptr r) (next_box r) P q acc"

definition ptrs :: "completion list \<Rightarrow> nat list" where
  "ptrs es = List.map_filter overlapped es"

lemma ptrs_simps [simp]:
  "ptrs [] = []" "ptrs (e # es) = (case overlapped e of None \<Rightarrow> [] | Some p \<Rightarrow> [p]) @ ptrs es"
  "ptrs (es @ es') = ptrs es @ ptrs es'"
  by (simp_all add: ptrs_def List.map_filter_def split: option.split)

section \<open>What the operations do to ownership\<close>

text \<open>A write to a live slot that keeps its box.\<close>

lemma winv_put:
  assumes "winv P q acc r" and "slab_get (win_slots r) key = Some s" and "windows s' = windows s"
  shows "winv P q acc (r\<lparr>win_slots := slab_put (win_slots r) key s'\<rparr>)"
proof -
  have "own (r\<lparr>win_slots := slab_put (win_slots r) key s'\<rparr>) = own r"
    using assms(2,3) by (auto simp: own_def slab_st.get_put)
  moreover have "backptr (r\<lparr>win_slots := slab_put (win_slots r) key s'\<rparr>) = backptr r"
    by (rule ext) (simp add: backptr_def)
  ultimately show ?thesis
    using assms by (auto simp: winv_def slab_st.get_put slab_st.put_inv split: if_splits)
qed

text \<open>A write to a box that keeps its key.\<close>

lemma winv_box:
  assumes "winv P q acc r" and "backptr (r\<lparr>boxes := bs\<rparr>) = backptr r"
  shows "winv P q acc (r\<lparr>boxes := bs\<rparr>)"
proof -
  have "own (r\<lparr>boxes := bs\<rparr>) = own r" by (rule ext) (simp add: own_def)
  then show ?thesis using assms by (simp add: winv_def)
qed

lemma winv_free:
  assumes w: "winv P q acc r" and g: "slab_get (win_slots r) key = Some s" and p: "windows s = Some p"
    and "p \<notin> P" and "set q' = set q - {p}" "distinct q'" and "set acc' = set acc - {key}" "distinct acc'"
  shows "winv P q' acc' (free_slot r key s)"
proof -
  have "own (free_slot r key s) = (own r)(key := None)" "backptr (free_slot r key s) = (backptr r)(p := None)"
    using p by (auto simp: own_def backptr_def free_slot_def slab_st.get_remove)
  moreover have "own r key = Some p" using g p by (simp add: own_def)
  moreover have "next_box (free_slot r key s) = next_box r" by (simp add: free_slot_def)
  ultimately have "located (own (free_slot r key s)) (backptr (free_slot r key s)) (next_box (free_slot r key s)) P q' acc'"
    using located_free [of "own r" "backptr r" "next_box r" P q acc key p q' acc'] w assms(4-) by (simp add: winv_def)
  moreover have "\<forall>k x. slab_get (win_slots (free_slot r key s)) k = Some x \<longrightarrow> windows x \<noteq> None"
    using w by (auto simp: winv_def free_slot_def slab_st.get_remove)
  moreover have "slab_inv (win_slots (free_slot r key s))"
    using w by (simp add: winv_def free_slot_def slab_st.remove_inv)
  ultimately show ?thesis by (simp add: winv_def)
qed

lemma win_fire_windows: "windows (fst (win_fire events s)) = windows s"
  by (simp add: win_fire_def)

text \<open>Where a completion's box is owned.\<close>

lemma winv_owner:
  assumes "winv P q acc r" and "p \<in> P \<or> p \<in> set q"
  obtains st s where "boxes r p = Some st" and "slab_get (win_slots r) (slab_key st) = Some s" and "windows s = Some p"
proof -
  obtain key where "backptr r p = Some key" "own r key = Some p"
    using locatedD(3) [of "own r" "backptr r" "next_box r" P q acc p] assms by (auto simp: winv_def)
  then show thesis using that by (auto simp: backptr_def own_def split: option.splits)
qed

lemma winv_key:
  assumes "winv P q acc r" and "key \<in> set acc"
  obtains st s p where "slab_get (win_slots r) key = Some s" and "windows s = Some p" and "boxes r p = Some st"
    and "slab_key st = key" and "p \<notin> P" and "p \<notin> set q"
proof -
  have l: "located (own r) (backptr r) (next_box r) P q acc" using assms(1) by (simp add: winv_def)
  obtain p where "own r key = Some p" using locatedD(4) [OF l assms(2)] by blast
  then show thesis
    using that locatedD(1,8) [OF l, of key p] assms(2) by (auto simp: backptr_def own_def split: option.splits)
qed

lemma win_complete_ok:
  assumes w: "winv P (ptrs [e] @ q) acc r"
  shows "\<exists>r' ws keys. win_complete e r = Some (r', ws, keys) \<and> winv P q (acc @ keys) r'"
proof (cases "overlapped e")
  case None
  then show ?thesis using w by (simp add: win_complete_def)
next
  case (Some p)
  then have w: "winv P (p # q) acc r" using w by simp
  have l: "located (own r) (backptr r) (next_box r) P (p # q) acc" using w by (simp add: winv_def)
  obtain st s where o: "boxes r p = Some st" "slab_get (win_slots r) (slab_key st) = Some s" "windows s = Some p"
    using winv_owner [OF w, of p] by auto
  let ?key = "slab_key st"
  have ow: "own r ?key = Some p" using o by (simp add: own_def)
  have p: "p \<notin> P" "p \<notin> set q" "distinct q" "distinct acc" "?key \<notin> set acc"
    using locatedD(5-8) [OF l] ow by auto
  show ?thesis
  proof (cases "cancelled s")
    case True
    have "winv P q acc (free_slot r ?key s)"
      by (rule winv_free [OF w o(2,3)]) (use p in auto)
    then show ?thesis using Some o True by (simp add: win_complete_def)
  next
    case False
    let ?s' = "fst (win_fire (ph_events (pi_handle (info st))) s)"
    have "winv P (p # q) acc (r\<lparr>win_slots := slab_put (win_slots r) ?key ?s'\<rparr>)" (is "winv _ _ _ ?r")
      by (rule winv_put [OF w o(2) win_fire_windows])
    moreover have "own ?r ?key = Some p" using o by (simp add: own_def slab_st.get_put win_fire_windows)
    ultimately have "winv P q (acc @ [?key]) ?r"
      using located_shift [of "own ?r" "backptr ?r" "next_box ?r" P "p # q" acc ?key p P q "acc @ [?key]"] p
      by (auto simp: winv_def)
    then show ?thesis using Some o False by (simp add: win_complete_def case_prod_beta Let_def)
  qed
qed

lemma win_dispatch_ok:
  "winv P (ptrs es @ q) acc r \<Longrightarrow>
     \<exists>r' ws keys. win_dispatch es r to_wake acc = Some (r', ws, keys) \<and> winv P q keys r'"
proof (induction es arbitrary: r to_wake acc)
  case (Cons e es)
  then have "winv P (ptrs [e] @ (ptrs es @ q)) acc r" by simp
  from win_complete_ok [OF this] obtain r' ws keys where
    "win_complete e r = Some (r', ws, keys)" "winv P (ptrs es @ q) (acc @ keys) r'" by blast
  then show ?case using Cons.IH [of "acc @ keys" r' "to_wake @ ws"] by simp
qed simp

lemma win_resubmit_one_ok:
  assumes w: "winv P q (key # acc) r"
  shows "\<exists>r' ws qs. win_resubmit_one dos status key r = Some (r', ws, qs) \<and> winv (P \<union> set qs) q acc r'"
proof -
  have l: "located (own r) (backptr r) (next_box r) P q (key # acc)" using w by (simp add: winv_def)
  obtain st s p where o: "slab_get (win_slots r) key = Some s" "windows s = Some p" "boxes r p = Some st"
    "slab_key st = key" "p \<notin> P" "p \<notin> set q"
    by (rule winv_key [OF w, of key]) (simp, rule that)
  have d: "key \<notin> set acc" "distinct acc" "distinct q" using locatedD(6,7) [OF l] by auto
  have free: "winv P q acc (free_slot r' key s)" if "winv P q (key # acc) r'" "win_slots r' = win_slots r" for r'
    by (rule winv_free [OF that(1)]) (use o d that(2) in auto)
  let ?st = "st\<lparr>info := (info st)\<lparr>pi_handle := (pi_handle (info st))\<lparr>ph_events := requested_events st, ph_status := 0\<rparr>\<rparr>\<rparr>"
  let ?st2 = "fst (afd_submit dos (status key) ?st)"
  let ?r1 = "r\<lparr>boxes := (boxes r)(p \<mapsto> ?st2)\<rparr>"
  have "backptr ?r1 = backptr r"
    by (rule ext) (use o in \<open>auto simp: backptr_def afd_submit_def Let_def\<close>)
  then have r1: "winv P q (key # acc) ?r1" by (rule winv_box [OF w])
  show ?thesis
  proof (cases "cancelled s")
    case True
    then show ?thesis using o(1) free [OF w] by (simp add: win_resubmit_one_def)
  next
    case False
    show ?thesis
    proof (cases "snd (afd_submit dos (status key) ?st)")
      case (Ok u)
      have "winv (insert p P) q acc ?r1"
        using located_shift [of "own ?r1" "backptr ?r1" "next_box ?r1" P q "key # acc" key p "insert p P" q acc] r1 o d
        by (auto simp: winv_def own_def)
      then show ?thesis using o(1-3) False Ok by (simp add: win_resubmit_one_def case_prod_beta Let_def)
    next
      case (Err e)
      then show ?thesis
        using o(1-3) False free [OF r1] by (simp add: win_resubmit_one_def case_prod_beta Let_def)
    qed
  qed
qed

lemma win_resubmit_ok:
  "winv (P \<union> set taken) q keys r \<Longrightarrow>
     \<exists>r' ws qs. win_resubmit dos status keys r failed taken = Some (r', ws, qs) \<and> winv (P \<union> set qs) q [] r'"
proof (induction keys arbitrary: r failed taken)
  case (Cons key keys)
  from win_resubmit_one_ok [OF Cons.prems, of dos status] obtain r' ws qs where
    "win_resubmit_one dos status key r = Some (r', ws, qs)" "winv (P \<union> set (taken @ qs)) q keys r'"
    by (auto simp: Un_assoc)
  then show ?case using Cons.IH [of "taken @ qs" r' "failed @ ws"] by simp
qed simp

lemma win_register_ok:
  assumes w: "winv P q acc r" and g: "win_register dos status base i r = Inr (r', res)"
  shows "winv (case res of Ok _ \<Rightarrow> insert (next_box r) P | Err _ \<Rightarrow> P) q acc r'"
proof (cases base)
  case (Ok b)
  note bb = Ok
  have room: "slab_room (win_slots r)"
    using g Ok by (cases "slab_insert win_slot_default (win_slots r)")
      (auto simp: win_register_def Let_def dest: slab_insert_room)
  have inv: "slab_inv (win_slots r)" and l: "located (own r) (backptr r) (next_box r) P q acc"
    and al: "\<And>k s. slab_get (win_slots r) k = Some s \<Longrightarrow> windows s \<noteq> None"
    using w by (auto simp: winv_def)
  show ?thesis
  proof (rule slab_st.insertE [OF inv room, of win_slot_default])
    fix sl key
    assume ins: "slab_insert win_slot_default (win_slots r) = Inr (sl, key)" "slab_inv sl"
      "slab_get (win_slots r) key = None" "key < 2 ^ 63" "slab_get sl = (slab_get (win_slots r))(key \<mapsto> win_slot_default)"
    let ?st = "win_slot_state b key (win_interest_events i)"
    have o0: "own r key = None" using ins(3) by (simp add: own_def)
    show ?thesis
    proof (cases "snd (afd_submit dos status ?st)")
      case (Err e)
      let ?r = "r\<lparr>win_slots := slab_remove sl key, next_box := next_box r + 1\<rparr>"
      have r': "r' = ?r" "res = Err e"
        using g Ok ins(1) Err by (simp_all add: win_register_def case_prod_beta Let_def)
      have gr: "slab_get (slab_remove sl key) = slab_get (win_slots r)"
        using ins(3,5) by (auto simp: slab_st.get_remove)
      have "own ?r = own r" "backptr ?r = backptr r" by (auto simp: own_def backptr_def gr)
      then show ?thesis
        using r' located_next [OF l] slab_st.remove_inv [OF ins(2)] al by (simp add: winv_def gr)
    next
      case (Ok u)
      let ?s = "win_slot_default\<lparr>windows := Some (next_box r)\<rparr>"
      let ?r = "r\<lparr>win_slots := slab_put sl key ?s, boxes := (boxes r)(next_box r \<mapsto> fst (afd_submit dos status ?st)),
        next_box := next_box r + 1\<rparr>"
      have r': "r' = ?r \<and> (\<exists>token. res = Ok token)"
        using g bb ins(1,4,5) Ok by (auto simp: win_register_def case_prod_beta Let_def unat_token(1))
      have gr: "slab_get (slab_put sl key ?s) = (slab_get (win_slots r))(key \<mapsto> ?s)"
        using ins(5) by (simp add: slab_st.get_put)
      have "own ?r = (own r)(key \<mapsto> next_box r)" "backptr ?r = (backptr r)(next_box r \<mapsto> key)"
        by (auto simp: own_def backptr_def gr afd_submit_def Let_def)
      then have "winv (insert (next_box r) P) q acc ?r"
        using located_register [OF l o0] slab_st.put_inv [OF ins(2)] al by (auto simp: winv_def gr)
      then show ?thesis using r' by auto
    qed
  qed
qed (use assms in \<open>auto simp: win_register_def\<close>)

lemma win_set_waker_ok: "winv P q acc r \<Longrightarrow> winv P q acc (win_set_waker r token d w)"
  by (cases d) (auto simp: win_set_waker_def Let_def split: option.splits intro!: winv_put)

lemma win_deregister_ok:
  "winv P q acc r \<Longrightarrow> win_deregister dos status r token = (r', res) \<Longrightarrow> winv P q acc r'"
  by (auto simp: win_deregister_def Let_def split: option.splits if_splits intro!: winv_put)

abbreviation carried :: "nat list option \<Rightarrow> nat list" where
  "carried k \<equiv> (case k of None \<Rightarrow> [] | Some keys \<Rightarrow> keys)"

lemma win_step_inv:
  assumes "win_step s s'" and "winv (pending s) (ptrs (port s)) (carried (resubmit s)) (rx s)"
  shows "winv (pending s') (ptrs (port s')) (carried (resubmit s')) (rx s')"
  using assms
proof (induction rule: win_step.cases)
  case (registered dos status base i s r' token)
  then show ?case using win_register_ok [OF _ registered(3)] by fastforce
next
  case (refused dos status base i s r' e)
  then show ?case using win_register_ok [OF _ refused(3)] by fastforce
next
  case (finish p s events)
  let ?bs = "(boxes (rx s))(p := map_option (kernel_writes events) (boxes (rx s) p))"
  have "backptr ((rx s)\<lparr>boxes := ?bs\<rparr>) = backptr (rx s)"
    by (rule ext) (auto simp: backptr_def kernel_writes_def option.map_comp comp_def intro: map_option_cong)
  then have w: "winv (pending s) (ptrs (port s)) (carried (resubmit s)) ((rx s)\<lparr>boxes := ?bs\<rparr>)" (is "winv _ _ _ ?r")
    using finish by (simp add: winv_box)
  then have l: "located (own ?r) (backptr ?r) (next_box ?r) (pending s) (ptrs (port s)) (carried (resubmit s))"
    unfolding winv_def by (elim conjE)
  obtain key where k: "own ?r key = Some p" using locatedD(3) [OF l, of p] finish(3) by blast
  have "located (own ?r) (backptr ?r) (next_box ?r) (pending s - {p}) (ptrs (port s) @ [p]) (carried (resubmit s))"
    by (rule located_shift [OF l k]) (use locatedD(5-8) [OF l] k finish(3) in auto)
  then show ?case using w unfolding finish(2) winv_def by simp
next
  case (phase1 s n r' ws keys)
  have "winv (pending s) (ptrs (take n (port s)) @ ptrs (drop n (port s))) [] (rx s)"
    using phase1 by (simp flip: ptrs_simps(3))
  from win_dispatch_ok [OF this, of "[]"] show ?case using phase1 by auto
next
  case (phase3 s keys dos answer r' failed taken)
  then have "winv (pending s \<union> set []) (ptrs (port s)) keys (rx s)" by simp
  from win_resubmit_ok [OF this, of dos answer "[]"] show ?case using phase3 by auto
qed (auto intro: win_set_waker_ok win_deregister_ok)

lemma win_reachable_inv:
  "win_reachable s \<Longrightarrow> winv (pending s) (ptrs (port s)) (carried (resubmit s)) (rx s)"
proof (induction rule: win_reachable.induct)
  case win_start
  show ?case
    by (auto simp: winv_def win_sys_new_def win_inner_new_def located_def own_def backptr_def slab_new_inv)
       (simp_all add: slab_get_def slab_new_def)
next
  case (win_more s s')
  then show ?case using win_step_inv by blast
qed

text \<open>A system with one registered socket whose poll request has finished.\<close>

definition sample_win :: "string win_sys \<Rightarrow> bool" where
  "sample_win s \<longleftrightarrow> win_reachable s \<and> resubmit s = None \<and> pending s = {} \<and>
     port s = [\<lparr>completion_key = AFD_COMPLETION_KEY, overlapped = Some 0\<rparr>] \<and>
     (\<exists>sl. slab_get (win_slots (rx s)) 0 = Some sl \<and> \<not> cancelled sl)"

lemma sample_win_exists:
  "\<exists>s st. sample_win s \<and> boxes (rx s) 0 = Some st \<and> slab_key st = 0 \<and> ph_events (pi_handle (info st)) = 1"
proof -
  let ?s0 = "win_sys_new :: string win_sys"
  obtain r where reg: "win_register (\<lambda>e. e) STATUS_PENDING (Ok 9) interest_READ (rx ?s0) = Inr (r, Ok 1)"
    and sl: "\<exists>sl. slab_get (win_slots r) 0 = Some sl \<and> \<not> cancelled sl" "\<exists>st. boxes r 0 = Some st \<and> slab_key st = 0"
    by (simp add: win_register_def win_slot_state_def win_sys_new_def win_inner_new_def slab_insert_def slab_new_def VEC_CAPACITY_def
        afd_submit_def slab_get_def slab_put_def token_of_key_def win_slot_default_def Let_def)
  let ?s1 = "?s0\<lparr>rx := r, pending := insert (next_box (rx ?s0)) (pending ?s0)\<rparr>"
  have s1: "win_reachable ?s1" by (rule win_more [OF win_start registered [OF reg]])
  have "0 \<in> pending ?s1" by (simp add: win_sys_new_def win_inner_new_def)
  from win_more [OF s1 finish [OF this, of 1]] obtain s where
    s: "win_reachable s" "s = ?s1\<lparr>rx := r\<lparr>boxes := (boxes r)(0 := map_option (kernel_writes 1) (boxes r 0))\<rparr>, pending := {},
      port := [\<lparr>completion_key = AFD_COMPLETION_KEY, overlapped = Some 0\<rparr>]\<rparr>"
    by (simp add: win_sys_new_def win_inner_new_def)
  obtain st where st: "boxes r 0 = Some st" "slab_key st = 0" using sl(2) by blast
  show ?thesis
    by (rule exI [of _ s], rule exI [of _ "kernel_writes 1 st"])
      (use s sl(1) st in \<open>auto simp: sample_win_def kernel_writes_def win_sys_new_def\<close>)
qed

lemma sample_win_box:
  assumes "sample_win s" and "slab_get (win_slots (rx s)) 0 = Some sl"
  shows "own (rx s) 0 = Some 0 \<and> windows sl = Some 0 \<and> (\<exists>st. boxes (rx s) 0 = Some st \<and> slab_key st = 0)"
proof -
  have w: "winv {} [0] [] (rx s)" using assms(1) win_reachable_inv [of s] by (simp add: sample_win_def)
  then have l: "located (own (rx s)) (backptr (rx s)) (next_box (rx s)) {} [0] []" by (simp add: winv_def)
  obtain p where p: "windows sl = Some p" using w assms(2) unfolding winv_def by blast
  then have o: "own (rx s) 0 = Some p" using assms(2) by (simp add: own_def)
  moreover have "p = 0" using locatedD(8) [OF l o] by simp
  moreover have "backptr (rx s) p = Some 0" by (rule locatedD(1) [OF l o])
  ultimately show ?thesis using p by (simp add: backptr_def)
qed

lemma ptrs_mem: "e \<in> set es \<Longrightarrow> overlapped e = Some p \<Longrightarrow> p \<in> set (ptrs es)"
  by (induction es) auto

section \<open>The Windows reactor as a table of wakers\<close>

text \<open>
  It promises what the Linux one does. An event is a completion; a deregistered slot parks nobody, and
  the reactor can be handed a completion whose address is that of a box some slot owns.
\<close>

fun win_slot_waker :: "direction \<Rightarrow> 'w win_slot \<Rightarrow> 'w option" where
  "win_slot_waker Read s = win_read s"
| "win_slot_waker Write s = win_write s"

fun direction_events :: "direction \<Rightarrow> u32" where
  "direction_events Read = READ_EVENTS"
| "direction_events Write = WRITE_EVENTS"

definition win_active :: "'w win_inner \<Rightarrow> u64 \<Rightarrow> 'w win_slot option" where
  "win_active r token = (if token = 0 then None else
     case slab_get (win_slots r) (unat (token - 1)) of Some s \<Rightarrow> if cancelled s then None else Some s | None \<Rightarrow> None)"

definition win_parked :: "'w win_inner \<Rightarrow> u64 \<Rightarrow> direction \<Rightarrow> 'w option" where
  "win_parked r token d = Option.bind (win_active r token) (win_slot_waker d)"

definition win_ready :: "'w win_inner \<Rightarrow> completion \<Rightarrow> u64 \<Rightarrow> direction \<Rightarrow> bool" where
  "win_ready r e token d \<longleftrightarrow> token \<noteq> 0 \<and> (\<exists>p st. overlapped e = Some p \<and> boxes r p = Some st \<and>
     unat (token - 1) = slab_key st \<and> ph_events (pi_handle (info st)) AND direction_events d \<noteq> 0)"

definition box_owned :: "'w win_inner \<Rightarrow> completion \<Rightarrow> bool" where
  "box_owned r e \<longleftrightarrow> slab_inv (win_slots r) \<and>
     (\<forall>p. overlapped e = Some p \<longrightarrow> (\<exists>key. backptr r p = Some key \<and> own r key = Some p))"

definition win_deliver :: "completion \<Rightarrow> 'w win_inner \<Rightarrow> ('w win_inner \<times> 'w list) option" where
  "win_deliver e r = (case win_complete e r of None \<Rightarrow> None | Some (r', ws, _) \<Rightarrow> Some (r', ws))"

lemma win_slot_set_simps [simp]:
  "win_slot_waker d' (win_slot_set d w s) = (if d' = d then Some w else win_slot_waker d' s)"
  "cancelled (win_slot_set d w s) = cancelled s" "windows (win_slot_set d w s) = windows s"
  by (cases d; cases d'; simp)+

lemma win_fire_simps [simp]:
  "win_slot_waker d (fst (win_fire events s)) = (if events AND direction_events d \<noteq> 0 then None else win_slot_waker d s)"
  "cancelled (fst (win_fire events s)) = cancelled s" "windows (fst (win_fire events s)) = windows s"
  by (cases d; simp add: win_fire_def Let_def)+

lemma win_fire_wakers:
  "set (snd (win_fire events s)) = {w. \<exists>d. events AND direction_events d \<noteq> 0 \<and> win_slot_waker d s = Some w}"
  by (cases "win_read s"; cases "win_write s") (auto simp: win_fire_def direction_ex Let_def)

lemma win_set_waker_cases:
  obtains "win_active r token = None" "win_set_waker r token d w = r"
  | s where "win_active r token = Some s"
      "slab_get (win_slots (win_set_waker r token d w)) = (slab_get (win_slots r))(unat (token - 1) \<mapsto> win_slot_set d w s)"
      "boxes (win_set_waker r token d w) = boxes r" "slab_get (win_slots r) (unat (token - 1)) = Some s" "token \<noteq> 0" "\<not> cancelled s"
proof (cases "win_active r token")
  case None
  then show thesis using that(1)
    by (auto simp: win_active_def win_set_waker_def Let_def split: option.splits if_splits)
next
  case (Some s)
  then show thesis using that(2) [of s]
    by (auto simp: win_active_def win_set_waker_def slab_st.get_put split: option.splits if_splits)
qed

lemma win_active_set:
  "win_active (win_set_waker r t d w) t' =
     (if t' = t then map_option (win_slot_set d w) (win_active r t) else win_active r t')"
  by (rule win_set_waker_cases [of r t d w]) (auto simp: win_active_def token_eq)

lemma box_owned_set: "box_owned r e \<Longrightarrow> box_owned (win_set_waker r t d w) e"
proof (rule win_set_waker_cases [of r t d w])
  fix s
  assume o: "box_owned r e"
    and s: "slab_get (win_slots (win_set_waker r t d w)) = (slab_get (win_slots r))(unat (t - 1) \<mapsto> win_slot_set d w s)"
      "boxes (win_set_waker r t d w) = boxes r" "slab_get (win_slots r) (unat (t - 1)) = Some s"
  have "own (win_set_waker r t d w) = own r" "backptr (win_set_waker r t d w) = backptr r"
    using s by (auto simp: own_def backptr_def)
  moreover have "slab_inv (win_slots (win_set_waker r t d w))"
    using o by (auto simp: box_owned_def win_set_waker_def slab_st.put_inv Let_def split: option.splits)
  ultimately show ?thesis using o by (simp add: box_owned_def)
qed simp

lemma key_has_token:
  assumes "slab_inv sl" and "slab_get sl key = Some s"
  obtains t :: u64 where "t \<noteq> 0" and "unat (t - 1) = key"
proof -
  have "key < 2 ^ 63"
    using assms by (auto simp: slab_inv_def slab_get_def VEC_CAPACITY_def split: if_splits)
  then show thesis using that [of "of_nat key + 1"] unat_token(2,3) by blast
qed

lemma win_deliver_none: "overlapped e = None \<Longrightarrow> win_deliver e r = Some (r, [])"
  by (simp add: win_deliver_def win_complete_def)

lemma win_deliver_box:
  assumes "overlapped e = Some p" and "boxes r p = Some st" and "slab_get (win_slots r) (slab_key st) = Some s"
    and "windows s = Some p"
  shows "\<exists>r' ws. win_deliver e r = Some (r', ws) \<and>
     slab_get (win_slots r') = (slab_get (win_slots r))(slab_key st :=
       if cancelled s then None else Some (fst (win_fire (ph_events (pi_handle (info st))) s))) \<and>
     ws = (if cancelled s then [] else snd (win_fire (ph_events (pi_handle (info st))) s))"
  using assms by (simp add: win_deliver_def win_complete_def free_slot_def slab_st.get_remove slab_st.get_put case_prod_beta Let_def)

interpretation win_wt: waker_table win_parked "\<lambda>r t. win_active r t \<noteq> None" win_set_waker win_ready box_owned win_deliver
proof unfold_locales
  fix r :: "'w win_inner" and t d w t' d' and e :: completion
  show "win_parked (win_set_waker r t d w) t' d' = (if t' = t \<and> d' = d then Some w else win_parked r t' d')"
    if "win_active r t \<noteq> None"
    using that by (auto simp: win_parked_def win_active_set)
  show "(win_active (win_set_waker r t d w) t' \<noteq> None) = (win_active r t' \<noteq> None)"
    by (simp add: win_active_set)
  show "win_ready (win_set_waker r t d w) e = win_ready r e"
    by (rule win_set_waker_cases [of r t d w]; intro ext) (simp_all add: win_ready_def)
  show "box_owned (win_set_waker r t d w) e" if "box_owned r e" using that by (rule box_owned_set)
  show "\<exists>r' ws. win_deliver e r = Some (r', ws) \<and>
      (\<forall>t d. win_parked r' t d = (if win_ready r e t d then None else win_parked r t d)) \<and>
      set ws = {w. \<exists>t d. win_ready r e t d \<and> win_parked r t d = Some w}" if o: "box_owned r e"
  proof (cases "overlapped e")
    case None
    then show ?thesis using win_deliver_none [of e r] by (auto simp: win_ready_def)
  next
    case (Some p)
    then obtain st s where b: "boxes r p = Some st" "slab_get (win_slots r) (slab_key st) = Some s" "windows s = Some p"
      using o by (auto simp: box_owned_def backptr_def own_def split: option.splits)
    let ?ev = "ph_events (pi_handle (info st))"
    obtain r' ws where d: "win_deliver e r = Some (r', ws)"
      and g: "slab_get (win_slots r') = (slab_get (win_slots r))(slab_key st :=
         if cancelled s then None else Some (fst (win_fire ?ev s)))"
      and ws: "ws = (if cancelled s then [] else snd (win_fire ?ev s))"
      using win_deliver_box [OF Some b] by blast
    have rdy: "win_ready r e t d \<longleftrightarrow> t \<noteq> 0 \<and> unat (t - 1) = slab_key st \<and> ?ev AND direction_events d \<noteq> 0" for t d
      using Some b(1) by (auto simp: win_ready_def)
    have "win_parked r' t d = (if win_ready r e t d then None else win_parked r t d)" for t d
      using b(2) by (auto simp: win_parked_def win_active_def g rdy split: option.splits)
    moreover have "set ws = {w. \<exists>t d. win_ready r e t d \<and> win_parked r t d = Some w}"
    proof -
      obtain t :: u64 where t: "t \<noteq> 0" "unat (t - 1) = slab_key st"
        by (rule key_has_token [OF _ b(2)]) (use o in \<open>simp add: box_owned_def\<close>)
      have pk: "win_parked r t d = (if cancelled s then None else win_slot_waker d s)" for d
        using t b(2) by (simp add: win_parked_def win_active_def)
      have rd: "win_ready r e t' d \<longleftrightarrow> t' = t \<and> ?ev AND direction_events d \<noteq> 0" for t' d
        using t token_eq [of t' t] by (auto simp: rdy)
      have "{w. \<exists>t d. win_ready r e t d \<and> win_parked r t d = Some w} =
          {w. \<exists>d. ?ev AND direction_events d \<noteq> 0 \<and> (if cancelled s then None else win_slot_waker d s) = Some w}"
        unfolding rd by (auto simp: pk)
      then show ?thesis by (simp add: ws win_fire_wakers)
    qed
    ultimately show ?thesis using d by blast
  qed
qed

section \<open>Properties of the Windows reactor\<close>

text \<open>
  Claim C12. The raw pointers of the Windows reactor never dangle: in every interleaving of
  registrations, deregistrations, kernel completions and the phases of the polling thread, the address
  in a completion is that of a live box, so is every address the kernel may still write to, and every
  live registration is in exactly the hands it needs to be: with the kernel, in the completion port,
  or carried to the next re-submission, so none is forgotten.
\<close>

theorem win_boxes_live:
  assumes "win_reachable s"
  shows "(resubmit s = None \<longrightarrow> (\<exists>x. win_dispatch (take n (port s)) (rx s) [] [] = Some x)) \<and>
     (\<forall>keys. resubmit s = Some keys \<longrightarrow> (\<exists>x. win_resubmit dos answer keys (rx s) [] [] = Some x)) \<and>
     (\<forall>p \<in> pending s. boxes (rx s) p \<noteq> None) \<and>
     (\<forall>key sl. slab_get (win_slots (rx s)) key = Some sl \<longrightarrow>
        (\<exists>p. windows sl = Some p \<and> (p \<in> pending s \<or> p \<in> set (ptrs (port s)) \<or> key \<in> set (carried (resubmit s)))))"
proof (intro conjI impI allI ballI)
  note w = win_reachable_inv [OF assms]
  have l: "located (own (rx s)) (backptr (rx s)) (next_box (rx s)) (pending s) (ptrs (port s)) (carried (resubmit s))"
    using w by (simp add: winv_def)
  show "\<exists>x. win_dispatch (take n (port s)) (rx s) [] [] = Some x" if "resubmit s = None"
  proof -
    have "winv (pending s) (ptrs (take n (port s)) @ ptrs (drop n (port s))) [] (rx s)"
      using w that by (simp flip: ptrs_simps(3))
    from win_dispatch_ok [OF this] show ?thesis by blast
  qed
  show "\<exists>x. win_resubmit dos answer keys (rx s) [] [] = Some x" if "resubmit s = Some keys" for keys
    using win_resubmit_ok [of "pending s" "[]" "ptrs (port s)" keys "rx s" dos answer "[]"] w that by auto
  show "boxes (rx s) p \<noteq> None" if "p \<in> pending s" for p
    using winv_owner [OF w, of p] that by blast
  show "\<exists>p. windows sl = Some p \<and> (p \<in> pending s \<or> p \<in> set (ptrs (port s)) \<or> key \<in> set (carried (resubmit s)))"
    if g: "slab_get (win_slots (rx s)) key = Some sl" for key sl
  proof -
    obtain p where p: "windows sl = Some p" using w g unfolding winv_def by blast
    then have "own (rx s) key = Some p" using g by (simp add: own_def)
    from locatedD(8) [OF l this] p show ?thesis by blast
  qed
qed

theorem win_boxes_live_witness:
  "\<exists>s x. sample_win s \<and> win_dispatch (take 1 (port s)) (rx s) [] [] = Some x"
proof -
  obtain s where s: "sample_win s" using sample_win_exists by blast
  then have "win_reachable s" "resubmit s = None" by (simp_all add: sample_win_def)
  with win_boxes_live [of s 1 "\<lambda>e. e" "\<lambda>k. 0"] s show ?thesis by blast
qed

text \<open>
  A socket that is registered with the Windows reactor wakes the waker set for a direction
  when the completion of its poll request reports that direction, whatever happened before: the slot
  is found through the box, the waker is taken out, and the key goes to the next re-submission so
  that the socket keeps being polled.
\<close>

lemma win_ready_wakes:
  assumes "win_reachable s" and "resubmit s = None" and "e \<in> set (port s)" and "overlapped e = Some p"
    and "boxes (rx s) p = Some st" and "token = of_nat (slab_key st) + 1" and "win_active (rx s) token \<noteq> None"
    and "ph_events (pi_handle (info st)) AND direction_events d \<noteq> 0"
  shows "\<exists>r' ws. win_complete e (win_set_waker (rx s) token d w) = Some (r', ws, [slab_key st]) \<and> w \<in> set ws \<and>
     win_parked r' token d = None \<and> win_active r' token \<noteq> None"
proof -
  note w = win_reachable_inv [OF assms(1)]
  have p: "p \<in> set (ptrs (port s))" using assms(3,4) by (rule ptrs_mem)
  obtain sl where o: "slab_get (win_slots (rx s)) (slab_key st) = Some sl" "windows sl = Some p"
    using winv_owner [OF w, of p] p assms(5) by auto
  have inv: "slab_inv (win_slots (rx s))" using w by (simp add: winv_def)
  obtain t :: u64 where t: "t \<noteq> 0" "unat (t - 1) = slab_key st" by (rule key_has_token [OF inv o(1)])
  have "of_nat (unat (t - 1)) = t - 1" by simp
  then have "token = t" using t(2) assms(6) by simp
  then have tok: "token \<noteq> 0" "unat (token - 1) = slab_key st" using t by simp_all
  have own: "box_owned (rx s) e"
    using inv assms(4,5) o by (simp add: box_owned_def backptr_def own_def)
  have rdy: "win_ready (rx s) e token d" using assms(4,5,8) tok by (simp add: win_ready_def)
  have c: "\<not> cancelled sl" using assms(7) o(1) tok by (auto simp: win_active_def)
  obtain r' ws where d: "win_deliver e (win_set_waker (rx s) token d w) = Some (r', ws)" "w \<in> set ws" "win_parked r' token d = None"
    by (rule win_wt.woken [OF assms(7) own rdy])
  let ?s = "win_slot_set d w sl" and ?r = "win_set_waker (rx s) token d w"
  have r: "slab_get (win_slots ?r) (slab_key st) = Some ?s" "boxes ?r p = Some st"
    using o(1) tok c assms(5) by (simp_all add: win_set_waker_def slab_st.get_put)
  have comp: "win_complete e ?r = Some (?r\<lparr>win_slots := slab_put (win_slots ?r) (slab_key st)
      (fst (win_fire (ph_events (pi_handle (info st))) ?s))\<rparr>, snd (win_fire (ph_events (pi_handle (info st))) ?s), [slab_key st])"
    using assms(4) r o(2) c by (simp add: win_complete_def case_prod_beta Let_def)
  then have "r' = ?r\<lparr>win_slots := slab_put (win_slots ?r) (slab_key st) (fst (win_fire (ph_events (pi_handle (info st))) ?s))\<rparr>"
    using d(1) by (simp add: win_deliver_def)
  then have "win_active r' token \<noteq> None" using r(1) tok c by (simp add: win_active_def slab_st.get_put)
  then show ?thesis using comp d by (auto simp: win_deliver_def)
qed

theorem win_ready_wakes_witness:
  "\<exists>s st r' ws. sample_win s \<and> boxes (rx s) 0 = Some st \<and> ph_events (pi_handle (info st)) = 1 \<and>
     win_complete \<lparr>completion_key = AFD_COMPLETION_KEY, overlapped = Some 0\<rparr> (win_set_waker (rx s) 1 Read ''w'') = Some (r', ws, [0]) \<and>
     ''w'' \<in> set ws"
proof -
  obtain s st where s: "sample_win s" and st: "boxes (rx s) 0 = Some st" "slab_key st = 0" "ph_events (pi_handle (info st)) = 1"
    using sample_win_exists by blast
  then have r: "win_reachable s" "resubmit s = None"
    and e: "\<lparr>completion_key = AFD_COMPLETION_KEY, overlapped = Some 0\<rparr> \<in> set (port s)" (is "?e \<in> _")
    and a: "win_active (rx s) 1 \<noteq> None"
    by (auto simp: sample_win_def win_active_def)
  have "overlapped ?e = Some 0" "(1 :: u64) = of_nat (slab_key st) + 1"
    "ph_events (pi_handle (info st)) AND direction_events Read \<noteq> 0"
    using st by (simp_all add: READ_EVENTS_def POLL_RECEIVE_def POLL_RECEIVE_EXPEDITED_def POLL_DISCONNECT_def
        POLL_ABORT_def POLL_ACCEPT_def POLL_CONNECT_FAIL_def)
  from win_ready_wakes [OF r e this(1) st(1) this(2) a this(3), of "''w''"] s st show ?thesis by auto
qed

text \<open>
  The time limit passed to the completion port is infinite exactly without a timeout, except
  that a timeout of \<open>2\<^sup>3\<^sup>2 - 1\<close> milliseconds also becomes infinite.
\<close>

lemma iocp_timeout_infinite:
  "iocp_timeout_ms timeout = INFINITE \<longleftrightarrow>
     timeout = None \<or> (\<exists>d. timeout = Some d \<and> d div 1000000 = 2 ^ 32 - 1)"
proof (cases timeout)
  case (Some d)
  have i: "unat INFINITE = 2 ^ 32 - 1" "INFINITE - 1 \<noteq> INFINITE" by (simp_all add: INFINITE_def)
  show ?thesis
  proof (cases "d div 1000000 < 2 ^ 32")
    case True
    then have "unat (of_nat (d div 1000000) :: u32) = d div 1000000" by (simp add: unat_of_nat)
    then have "(of_nat (d div 1000000) = INFINITE) \<longleftrightarrow> (d div 1000000 = 2 ^ 32 - 1)"
      using i(1) by (metis word_eq_iff_unsigned)
    then show ?thesis using Some True by (simp add: iocp_timeout_ms_def Let_def)
  next
    case False
    then show ?thesis using Some i(2) by (simp add: iocp_timeout_ms_def Let_def)
  qed
qed (simp add: iocp_timeout_ms_def)

text \<open>
  Claim C40. A failed re-submission takes the slot away from a socket that still holds its token: the
  next registration is handed the same key and so the same token, and from then on two sockets share it.
\<close>

theorem win_orphan_token_reused:
  assumes "win_reachable s" and "resubmit s = Some [key]"
    and "slab_get (win_slots (rx s)) key = Some sl" and "\<not> cancelled sl"
    and "answer key \<noteq> STATUS_SUCCESS" and "answer key \<noteq> STATUS_PENDING"
  shows "\<exists>r1 failed r2. win_resubmit dos answer [key] (rx s) [] [] = Some (r1, failed, []) \<and>
     win_register dos STATUS_PENDING (Ok b) i r1 = Inr (r2, Ok (of_nat key + 1))"
proof -
  have w: "winv (pending s) (ptrs (port s)) [key] (rx s)" using win_reachable_inv [OF assms(1)] assms(2) by simp
  have inv: "slab_inv (win_slots (rx s))" using w by (simp add: winv_def)
  obtain st p where o: "windows sl = Some p" "boxes (rx s) p = Some st"
    by (rule winv_key [OF w, of key]) (simp, use assms(3) that in auto)
  obtain r1 failed where r1: "win_resubmit dos answer [key] (rx s) [] [] = Some (r1, failed, [])"
    and sl1: "win_slots r1 = slab_remove (win_slots (rx s)) key"
    using assms(3-6) o
    by (simp add: win_resubmit_one_def afd_submit_def free_slot_def case_prod_beta Let_def)
  obtain sl' where ins: "slab_insert win_slot_default (win_slots r1) = Inr (sl', key)"
    using slab_reuse [OF inv, of key win_slot_default] assms(3) sl1 by auto
  have room: "slab_room (win_slots r1)" by (rule slab_insert_room [OF ins])
  have inv1: "slab_inv (win_slots r1)" using sl1 slab_st.remove_inv [OF inv] by simp
  have k: "key < 2 ^ 63" "slab_get sl' key = Some win_slot_default"
    by (rule slab_st.insertE [OF inv1 room, of win_slot_default]; use ins in simp)+
  have "\<exists>r2. win_register dos STATUS_PENDING (Ok b) i r1 = Inr (r2, Ok (of_nat key + 1))"
    using ins k by (simp add: win_register_def afd_submit_def unat_token(1) Let_def)
  with r1 show ?thesis by blast
qed

theorem win_orphan_token_reused_witness:
  "\<exists>s r1 failed r2. win_reachable (s :: string win_sys) \<and> resubmit s = Some [0] \<and>
     win_resubmit (\<lambda>e. e) (\<lambda>_. 5) [0] (rx s) [] [] = Some (r1, failed, []) \<and>
     win_register (\<lambda>e. e) STATUS_PENDING (Ok 11) interest_READ r1 = Inr (r2, Ok 1)"
proof -
  obtain s where s: "sample_win s" using sample_win_exists by blast
  then have s': "win_reachable s" "resubmit s = None" "port s = [\<lparr>completion_key = AFD_COMPLETION_KEY, overlapped = Some 0\<rparr>]"
    and "\<exists>sl. slab_get (win_slots (rx s)) 0 = Some sl \<and> \<not> cancelled sl" by (simp_all add: sample_win_def)
  then obtain sl where sl: "slab_get (win_slots (rx s)) 0 = Some sl" "\<not> cancelled sl" by blast
  have w: "winv (pending s) [0] [] (rx s)" using win_reachable_inv [OF s'(1)] s' by simp
  have k: "own (rx s) 0 = Some 0" "windows sl = Some 0" "\<exists>st. boxes (rx s) 0 = Some st \<and> slab_key st = 0"
    using sample_win_box [OF s sl(1)] by auto
  then obtain st where st: "boxes (rx s) 0 = Some st" "slab_key st = 0" by blast
  let ?r = "(rx s)\<lparr>win_slots := slab_put (win_slots (rx s)) 0 (fst (win_fire (ph_events (pi_handle (info st))) sl))\<rparr>"
  have d: "win_dispatch (take 1 (port s)) (rx s) [] [] =
      Some (?r, snd (win_fire (ph_events (pi_handle (info st))) sl), [0])"
    using s'(3) st sl k(2) by (simp add: win_complete_def case_prod_beta Let_def)
  let ?s = "s\<lparr>rx := ?r, port := drop 1 (port s), resubmit := Some [0]\<rparr>"
  have r: "win_reachable ?s" by (rule win_more [OF s'(1) phase1 [OF s'(2) d]])
  have g: "slab_get (win_slots (rx ?s)) 0 = Some (fst (win_fire (ph_events (pi_handle (info st))) sl))"
    "\<not> cancelled (fst (win_fire (ph_events (pi_handle (info st))) sl))" "resubmit ?s = Some [0]"
    using sl by (simp_all add: slab_st.get_put win_fire_def)
  have n: "(5 :: int) \<noteq> STATUS_SUCCESS" "(5 :: int) \<noteq> STATUS_PENDING" by (simp_all add: STATUS_SUCCESS_def STATUS_PENDING_def)
  from win_orphan_token_reused [OF r g(3,1,2), of "\<lambda>_. 5" "\<lambda>e. e" 11 interest_READ] n r g(3)
  show ?thesis by auto
qed

end
