(* ===== verification/WinTcp.thy ===== *)
theory WinTcp
  imports Tcp WinReactor
begin

text \<open>
  TCP on Windows: \<open>sys\<close> is \<^verbatim>\<open>src/src/sys/windows/socket.rs\<close> and the reactor is \<^verbatim>\<open>src/src/reactor/windows.rs\<close>. The state
  of the system is the kernel's together with the process-wide result of \<open>WSAStartup\<close>. Registering looks up the base
  socket, which returns when the chain of providers is finite, and submits a poll request for it.
\<close>

section \<open>The Windows platform\<close>

text \<open>The calls of ntdll that registration and deregistration make; a request is cancelled by the address of its box.\<close>

record 'k afd_sys =
  nt_device_io_control_file :: "u32 \<Rightarrow> poll_info \<Rightarrow> 'k \<Rightarrow> 'k \<times> int"
  nt_cancel_io_file_ex :: "nat \<Rightarrow> 'k \<Rightarrow> 'k \<times> int"
  nt_dos_error :: "int \<Rightarrow> int"

definition win_register_socket ::
  "'k winsock \<Rightarrow> 'k afd_sys \<Rightarrow> 'w win_inner \<Rightarrow> u64 \<Rightarrow> interest \<Rightarrow> 'k \<Rightarrow>
     ('k \<times> 'w win_inner \<times> (u64, io_error) result outcome) option" where
  "win_register_socket ws afd r s i k =
     (case base_socket ws s k of
        None \<Rightarrow> None
      | Some (k1, Err e) \<Rightarrow> Some (k1, r, Inr (Err e))
      | Some (k1, Ok b) \<Rightarrow>
          (case slab_insert win_slot_default (win_slots r) of
             Inl p \<Rightarrow> Some (k1, r, Inl p)
           | Inr (_, key) \<Rightarrow>
               let (k2, status) = nt_device_io_control_file afd IOCTL_AFD_POLL
                     (info (win_slot_state b key (win_interest_events i))) k1
               in (case win_register (nt_dos_error afd) status (Ok b) i r of
                     Inl p \<Rightarrow> Some (k2, r, Inl p)
                   | Inr (r', res) \<Rightarrow> Some (k2, r', Inr res))))"

definition win_deregister_socket ::
  "'k afd_sys \<Rightarrow> 'w win_inner \<Rightarrow> u64 \<Rightarrow> 'k \<Rightarrow> 'k \<times> 'w win_inner \<times> (unit, io_error) result" where
  "win_deregister_socket afd r token k =
     (let (k', status) = (if token = 0 then (k, 0)
            else case Option.bind (slab_get (win_slots r) (unat (token - 1))) windows of
                None \<Rightarrow> (k, 0)
              | Some q \<Rightarrow> nt_cancel_io_file_ex afd q k)
      in (k', win_deregister (nt_dos_error afd) status r token))"

definition win_would_block :: "'k winsock \<Rightarrow> io_error \<Rightarrow> bool" where
  "win_would_block ws e \<longleftrightarrow> e = OsError (WSAEWOULDBLOCK ws)"

text \<open>A call that does not look at the result of \<open>WSAStartup\<close>.\<close>

definition lift :: "('k \<Rightarrow> 'k \<times> 'a) \<Rightarrow> 'k \<times> int option \<Rightarrow> ('k \<times> int option) \<times> 'a" where
  "lift f k = (case f (fst k) of (k', x) \<Rightarrow> ((k', snd k), x))"

definition win_platform :: "'k winsock \<Rightarrow> 'k afd_sys \<Rightarrow> ('k \<times> int option, 'w win_inner, u64, 'w) platform" where
  "win_platform ws afd = \<lparr>
     p_stream_socket = (\<lambda>addr k. case win_stream_socket ws (snd k) addr (fst k) of (k', init, res) \<Rightarrow> ((k', init), res)),
     p_bind = (\<lambda>s addr. lift (win_bind ws s addr)), p_listen = (\<lambda>s b. lift (win_listen ws s b)),
     p_accept = (\<lambda>s. lift (win_accept ws s)), p_connect = (\<lambda>s addr. lift (win_connect ws s addr)),
     p_send = (\<lambda>s buf. lift (win_send ws s buf)), p_recv = (\<lambda>s buf. lift (win_recv ws s buf)),
     p_so_error = (\<lambda>s. lift (win_so_error ws s)), p_local_addr = (\<lambda>s. lift (win_local_addr ws s)),
     p_close = (\<lambda>s k. (ws_close ws s (fst k), snd k)), p_would_block = win_would_block ws,
     p_register = (\<lambda>r s i k. case win_register_socket ws afd r s i (fst k) of
        None \<Rightarrow> None | Some (k', r', res) \<Rightarrow> Some ((k', snd k), r', res)),
     p_set_waker = win_set_waker,
     p_deregister = (\<lambda>r s token. lift (win_deregister_socket afd r token))\<rparr>"

lemma lift_eq: "lift f k = (k', x) \<longleftrightarrow> f (fst k) = (fst k', x) \<and> snd k' = snd k"
  by (cases k'; cases "f (fst k)") (auto simp: lift_def)

lemma win_platform_simps [simp]:
  "p_stream_socket (win_platform ws afd) addr k =
     (case win_stream_socket ws (snd k) addr (fst k) of (k', init, res) \<Rightarrow> ((k', init), res))"
  "p_bind (win_platform ws afd) s addr = lift (win_bind ws s addr)" "p_listen (win_platform ws afd) s b = lift (win_listen ws s b)"
  "p_accept (win_platform ws afd) s = lift (win_accept ws s)" "p_connect (win_platform ws afd) s addr = lift (win_connect ws s addr)"
  "p_send (win_platform ws afd) s buf = lift (win_send ws s buf)" "p_recv (win_platform ws afd) s buf = lift (win_recv ws s buf)"
  "p_so_error (win_platform ws afd) s = lift (win_so_error ws s)" "p_local_addr (win_platform ws afd) s = lift (win_local_addr ws s)"
  "p_close (win_platform ws afd) s k = (ws_close ws s (fst k), snd k)" "p_would_block (win_platform ws afd) = win_would_block ws"
  "p_register (win_platform ws afd) r s i k = (case win_register_socket ws afd r s i (fst k) of
     None \<Rightarrow> None | Some (k', r', res) \<Rightarrow> Some ((k', snd k), r', res))"
  "p_set_waker (win_platform ws afd) = win_set_waker"
  "p_deregister (win_platform ws afd) r s token = lift (win_deregister_socket afd r token)"
  by (simp_all add: win_platform_def)

interpretation win_io: tcp_waiting win_parked "\<lambda>r t. win_active r t \<noteq> None" win_set_waker win_ready box_owned win_deliver
  "win_platform ws afd" for ws afd
  by unfold_locales simp

section \<open>Sockets\<close>

text \<open>
  Documented behaviour of the system beyond that of the socket calls: the remaining calls open and close no socket, and the
  chain of providers is finite.
\<close>

definition win_fd_laws :: "'k winsock \<Rightarrow> 'k afd_sys \<Rightarrow> ('k \<times> int option \<Rightarrow> u64 set) \<Rightarrow> bool" where
  "win_fd_laws ws afd opens \<longleftrightarrow> (\<exists>op. opens = op \<circ> fst \<and> ws_laws ws op \<and> (\<exists>depth. bsp_chain ws depth) \<and>
     (\<forall>s bs n k. op (fst (ws_bind ws s bs n k)) = op k) \<and> (\<forall>s b k. op (fst (ws_listen ws s b k)) = op k) \<and>
     (\<forall>s bs n k. op (fst (ws_connect ws s bs n k)) = op k) \<and> (\<forall>s a b k. op (fst (ws_getsockopt ws s a b k)) = op k) \<and>
     (\<forall>s c k. op (fst (ws_ioctl ws s c k)) = op k) \<and>
     (\<forall>c pi k. op (fst (nt_device_io_control_file afd c pi k)) = op k) \<and>
     (\<forall>q k. op (fst (nt_cancel_io_file_ex afd q k)) = op k))"

lemma win_fd_lawsE:
  assumes "win_fd_laws ws afd opens"
  obtains op where "opens = op \<circ> fst" and "ws_laws ws op" and "\<exists>depth. bsp_chain ws depth"
    and "\<And>s bs n k. op (fst (ws_bind ws s bs n k)) = op k" and "\<And>s b k. op (fst (ws_listen ws s b k)) = op k"
    and "\<And>s bs n k. op (fst (ws_connect ws s bs n k)) = op k" and "\<And>s a b k. op (fst (ws_getsockopt ws s a b k)) = op k"
    and "\<And>s c k. op (fst (ws_ioctl ws s c k)) = op k"
    and "\<And>c pi k. op (fst (nt_device_io_control_file afd c pi k)) = op k"
    and "\<And>q k. op (fst (nt_cancel_io_file_ex afd q k)) = op k"
  using assms unfolding win_fd_laws_def by auto

lemma try_base_opens:
  "(\<And>s c k. op (fst (ws_ioctl ws s c k)) = op k) \<Longrightarrow> try_base_socket ws s c k = (k', r) \<Longrightarrow> op k' = op k"
  by (auto simp: try_base_socket_def Let_def split: prod.splits) (metis fst_conv)+

lemma base_loop_opens:
  assumes "\<And>s c k. op (fst (ws_ioctl ws s c k)) = op k" and "base_loop ws base k = Some (k', r)"
  shows "op k' = op k"
proof -
  have "ws = ws \<longrightarrow> op (fst (k', r)) = op k"
  proof (rule base_loop.raw_induct [where P = "\<lambda>ws' base k y. ws' = ws \<longrightarrow> op (fst y) = op k", OF _ assms(2)], intro impI)
    fix f ws' base k y
    assume IH: "\<And>ws' base k y. f ws' base k = Some y \<Longrightarrow> ws' = ws \<longrightarrow> op (fst y) = op k"
      and b: "(let (k', r) = try_base_socket ws' base (SIO_BSP_HANDLE_POLL ws') k in
        case r of Err e \<Rightarrow> Some (k', Err e) | Ok None \<Rightarrow> Some (k', Ok base)
        | Ok (Some next) \<Rightarrow> if next \<noteq> base then f ws' next k' else Some (k', Ok base)) = Some y" and ws: "ws' = ws"
    obtain k1 r1 where t: "try_base_socket ws base (SIO_BSP_HANDLE_POLL ws) k = (k1, r1)" by fastforce
    have "op k1 = op k" by (rule try_base_opens [OF assms(1) t])
    then show "op (fst y) = op k" using b t ws by (auto split: result.splits option.splits if_splits dest: IH)
  qed
  then show ?thesis by simp
qed

lemma base_socket_opens:
  assumes "\<And>s c k. op (fst (ws_ioctl ws s c k)) = op k" and "base_socket ws s k = Some (k', r)"
  shows "op k' = op k"
proof -
  obtain k1 r1 where t: "try_base_socket ws s (SIO_BASE_HANDLE ws) k = (k1, r1)" by fastforce
  have "op k1 = op k" by (rule try_base_opens [OF assms(1) t])
  moreover have "op k2 = op k1" if "base_loop ws s k1 = Some (k2, r2)" for k2 r2 by (rule base_loop_opens [OF assms(1) that])
  ultimately show ?thesis using assms(2) t by (auto simp: base_socket_def split: result.splits option.splits)
qed

lemma win_register_opens:
  assumes "\<exists>depth. bsp_chain ws depth" and "\<And>s c k. op (fst (ws_ioctl ws s c k)) = op k"
    and "\<And>c pi k. op (fst (nt_device_io_control_file afd c pi k)) = op k"
  shows "\<exists>k' r' x. win_register_socket ws afd r s i k = Some (k', r', x) \<and> op k' = op k"
proof -
  obtain k1 b where b: "base_socket ws s k = Some (k1, b)" using assms(1) base_socket_returns [of ws _ s k] by blast
  have k1: "op k1 = op k" by (rule base_socket_opens [OF assms(2) b])
  show ?thesis
  proof (cases b)
    case (Ok base)
    then show ?thesis using b k1 assms(3)
      by (auto simp: win_register_socket_def case_prod_beta Let_def split: sum.splits)
  qed (use b k1 in \<open>simp add: win_register_socket_def\<close>)
qed

lemma win_deregister_opens:
  assumes "\<And>q k. op (fst (nt_cancel_io_file_ex afd q k)) = op k"
  shows "op (fst (win_deregister_socket afd r token k)) = op k"
  using assms by (auto simp: win_deregister_socket_def case_prod_beta Let_def split: option.splits)

lemma win_fd_frame:
  assumes "win_fd_laws ws afd opens"
  shows "win_bind ws s addr (fst k) = (fst k', x) \<Longrightarrow> opens k' = opens k"
    "win_listen ws s b (fst k) = (fst k', x) \<Longrightarrow> opens k' = opens k"
    "win_connect ws s addr (fst k) = (fst k', y) \<Longrightarrow> opens k' = opens k"
    "win_so_error ws s (fst k) = (fst k', z) \<Longrightarrow> opens k' = opens k"
    "opens (ws_close ws s (fst k), snd k) = opens k - {s}"
proof -
  obtain op where op: "opens = op \<circ> fst" "ws_laws ws op" and
    frame: "\<And>s bs n k. op (fst (ws_bind ws s bs n k)) = op k" "\<And>s b k. op (fst (ws_listen ws s b k)) = op k"
      "\<And>s bs n k. op (fst (ws_connect ws s bs n k)) = op k" "\<And>s a b k. op (fst (ws_getsockopt ws s a b k)) = op k"
    by (rule win_fd_lawsE [OF assms]) (rule that)
  have f: "opens k' = opens k" if "f = (fst k', v)" "op (fst f) = op (fst k)" for f and v :: 'v
    using that op(1) by simp
  show "win_bind ws s addr (fst k) = (fst k', x) \<Longrightarrow> opens k' = opens k"
    by (erule f) (simp add: win_bind_def case_prod_beta Let_def frame)
  show "win_listen ws s b (fst k) = (fst k', x) \<Longrightarrow> opens k' = opens k"
    by (erule f) (simp add: win_listen_def case_prod_beta Let_def frame)
  show "win_connect ws s addr (fst k) = (fst k', y) \<Longrightarrow> opens k' = opens k"
    by (erule f) (simp add: win_connect_def case_prod_beta Let_def frame)
  show "win_so_error ws s (fst k) = (fst k', z) \<Longrightarrow> opens k' = opens k"
    by (erule f) (simp add: win_so_error_def case_prod_beta Let_def frame)
  show "opens (ws_close ws s (fst k), snd k) = opens k - {s}" using op by (simp add: ws_lawsD(6))
qed

lemma win_socket_law:
  assumes "win_fd_laws ws afd opens" and "p_stream_socket (win_platform ws afd) addr k = (k', res)"
  shows "kept opens k {} k' (returned (Inr res))"
proof -
  obtain op where op: "opens = op \<circ> fst" "ws_laws ws op" by (rule win_fd_lawsE [OF assms(1)])
  obtain k1 init where "win_stream_socket ws (snd k) addr (fst k) = (k1, init, res)" "k' = (k1, init)"
    using assms(2) by (auto split: prod.splits)
  with conjunct1 [OF win_sockets_balanced [OF op(2), where init = "snd k" and addr = addr and k = "fst k"]] show ?thesis
    using op(1) by (cases res) (simp_all add: kept_new kept_none)
qed

lemma win_accept_law:
  assumes "win_fd_laws ws afd opens" and "p_accept (win_platform ws afd) s k = (k', res)"
  shows "kept opens k {} k' (fst ` returned (Inr res))"
proof -
  obtain op where op: "opens = op \<circ> fst" "ws_laws ws op" by (rule win_fd_lawsE [OF assms(1)])
  have "win_accept ws s (fst k) = (fst k', res)" using assms(2) by (simp add: lift_eq)
  note b = conjunct2 [OF win_sockets_balanced [OF op(2), where l = s and k = "fst k"], unfolded this prod.case]
  show ?thesis
  proof (cases res)
    case (Ok y)
    then show ?thesis using b op(1) by (cases y) (simp add: kept_new)
  qed (use b op(1) in \<open>simp add: kept_none\<close>)
qed

lemma win_register_law:
  assumes "win_fd_laws ws afd opens"
  shows "\<exists>k' r' x. p_register (win_platform ws afd) r s i k = Some (k', r', x) \<and> opens k' = opens k"
proof -
  obtain op where op: "opens = op \<circ> fst" "\<exists>depth. bsp_chain ws depth" and "\<And>s c k. op (fst (ws_ioctl ws s c k)) = op k"
    "\<And>c pi k. op (fst (nt_device_io_control_file afd c pi k)) = op k" by (rule win_fd_lawsE [OF assms]) (rule that)
  from win_register_opens [OF op(2) this(3,4), of r s i "fst k"] show ?thesis using op(1) by auto
qed

lemma win_deregister_law:
  assumes "win_fd_laws ws afd opens" and "p_deregister (win_platform ws afd) r s t k = (k', r', x)"
  shows "opens k' = opens k"
proof -
  obtain op where op: "opens = op \<circ> fst" and "\<And>q k. op (fst (nt_cancel_io_file_ex afd q k)) = op k"
    by (rule win_fd_lawsE [OF assms(1)]) (rule that)
  from win_deregister_opens [of op afd, OF this(2), of r t "fst k"] show ?thesis
    using assms(2) op by (simp add: lift_eq)
qed

interpretation win_fds: tcp_accepting "win_platform ws afd :: ('k \<times> int option, 'w win_inner, u64, 'w) platform" "win_fd_laws ws afd" for ws afd
proof (unfold_locales, goal_cases)
  case 1 then show ?case by (rule win_socket_law)
next
  case 2 then show ?case by (simp add: lift_eq) (elim conjE, erule (1) win_fd_frame(1))
next
  case 3 then show ?case by (simp add: lift_eq) (elim conjE, erule (1) win_fd_frame(2))
next
  case 4 then show ?case by (simp add: lift_eq) (elim conjE, erule (1) win_fd_frame(3))
next
  case 5 then show ?case by (simp add: lift_eq) (elim conjE, erule (1) win_fd_frame(4))
next
  case 6 then show ?case by (rule win_register_law)
next
  case 7 then show ?case by (rule win_deregister_law)
next
  case 8 then show ?case by (simp add: win_fd_frame(5))
next
  case 9 then show ?case by (rule win_accept_law)
qed

section \<open>The reactor's invariant\<close>

text \<open>A reactor state that some interleaving of the program, the polling thread and the kernel reaches.\<close>

definition win_rx :: "'w win_inner \<Rightarrow> bool" where
  "win_rx r \<longleftrightarrow> (\<exists>s. win_reachable s \<and> rx s = r)"

lemma win_rx_step: "win_reachable s \<Longrightarrow> win_step s s' \<Longrightarrow> win_rx (rx s')"
  unfolding win_rx_def using win_more by blast

lemma win_register_rx:
  assumes "win_rx r" and "win_register dos status base i r = Inr (r', res)"
  shows "win_rx r'"
proof -
  obtain s where s: "win_reachable s" "rx s = r" using assms(1) by (auto simp: win_rx_def)
  show ?thesis
  proof (cases res)
    case (Ok token)
    from win_rx_step [OF s(1) registered] show ?thesis using assms(2) s(2) Ok by fastforce
  next
    case (Err e)
    from win_rx_step [OF s(1) refused] show ?thesis using assms(2) s(2) Err by fastforce
  qed
qed

interpretation win_reactor: tcp_reactor "win_platform ws afd" win_rx for ws afd
proof (unfold_locales, goal_cases)
  case (1 r s i k k' r' x)
  then show ?case
    by (auto simp: win_register_socket_def case_prod_beta Let_def dest: win_register_rx
        split: option.splits prod.splits result.splits sum.splits)
next
  case (2 r t d w)
  then show ?case using win_rx_step [OF _ set_waker] by (fastforce simp: win_rx_def)
next
  case (3 r s t k k' r' y)
  then obtain sys status where s: "win_reachable sys" "rx sys = r" and "win_deregister (nt_dos_error afd) status r t = (r', y)"
    by (auto simp: win_rx_def lift_eq win_deregister_socket_def Let_def split: prod.splits)
  then show ?case using win_rx_step [OF s(1) deregister] by fastforce
qed

section \<open>A system for the concrete instances\<close>

text \<open>Its state is the set of open sockets; the one socket it has is number 7, and poll requests stay pending.\<close>

definition sample_ws :: "u64 set winsock" where
  "sample_ws = failing_winsock\<lparr>ws_ioctlsocket := (\<lambda>_ _ _ k. (k, 0, 0))\<rparr>"

definition sample_afd :: "'k afd_sys" where
  "sample_afd = \<lparr>nt_device_io_control_file = (\<lambda>_ _ k. (k, STATUS_PENDING)), nt_cancel_io_file_ex = (\<lambda>_ k. (k, 0)),
     nt_dos_error = (\<lambda>e. e)\<rparr>"

lemma sample_win_laws: "win_fd_laws sample_ws sample_afd fst"
proof -
  have "ws_laws sample_ws (\<lambda>k. k)"
    by (auto simp: ws_laws_def ws_opened_def sample_ws_def failing_winsock_def split: if_splits)
  moreover have "bsp_chain sample_ws (\<lambda>_. 0)"
    by (auto simp: bsp_chain_def try_base_socket_def sample_ws_def failing_winsock_def)
  ultimately show ?thesis
    unfolding win_fd_laws_def
    by (intro exI [of _ "\<lambda>k. k"] conjI) (auto simp: fun_eq_iff sample_ws_def failing_winsock_def sample_afd_def)
qed

section \<open>Properties of TCP on Windows\<close>

text \<open>
  Claim C25. On Windows, too, no socket is leaked: \<open>bind\<close> returns, also where the base socket has to be searched for,
  and hands out one newly opened socket or leaves the open sockets as they were; every poll of a \<open>connect\<close> passes the
  socket it holds to its next state or its result, or closes it; polling \<open>accept\<close> opens exactly the socket of the
  stream it returns; giving up a \<open>connect\<close> or dropping a stream closes its own.
\<close>

theorem win_tcp_balanced:
  fixes ws :: "'k winsock" and afd :: "'k afd_sys" and cur :: "'w win_inner option"
  defines "pl \<equiv> win_platform ws afd :: ('k \<times> int option, 'w win_inner, u64, 'w) platform"
  assumes "win_fd_laws ws afd opens"
  shows "(\<exists>k' cur' res. tcp_bind pl cur addr k = Some (k', cur', res) \<and>
       (case res of Inr (Ok l) \<Rightarrow> tcp_fd l \<notin> opens k \<and> opens k' = insert (tcp_fd l) (opens k) | _ \<Rightarrow> opens k' = opens k)) \<and>
     (connect_inv st \<longrightarrow> (\<exists>k' cur' st' res. connect_poll pl cur st w k = Some (k', cur', st', res) \<and> connect_inv st' \<and>
       kept opens k (tcp_fd ` connect_owns st) k' (tcp_fd ` (connect_owns st' \<union> poll_returned res)))) \<and>
     (\<exists>k' cur' st' res. accept_poll pl cur s io w k = Some (k', cur', st', res) \<and>
       kept opens k {} k' ((tcp_fd \<circ> fst) ` poll_returned res)) \<and>
     kept opens k (tcp_fd ` connect_owns st) (fst (connect_drop pl cur st k)) {} \<and>
     opens (fst (tcp_drop pl cur s k)) = opens k - {tcp_fd s}"
proof (intro conjI impI)
  obtain k' cur' res where "tcp_bind pl cur addr k = Some (k', cur', res)" "kept opens k {} k' (tcp_fd ` returned res)"
    unfolding pl_def by (rule win_fds.bind_kept [OF assms(2)])
  then show "\<exists>k' cur' res. tcp_bind pl cur addr k = Some (k', cur', res) \<and>
      (case res of Inr (Ok l) \<Rightarrow> tcp_fd l \<notin> opens k \<and> opens k' = insert (tcp_fd l) (opens k) | _ \<Rightarrow> opens k' = opens k)"
    by (cases res rule: outcome_result_cases) (auto simp: kept_new kept_none)
  show "opens (fst (tcp_drop pl cur s k)) = opens k - {tcp_fd s}"
    using win_fds.drop_kept [OF assms(2)] by (simp add: pl_def kept_def)
qed (use win_fds.connect_kept [OF assms(2)] win_fds.connect_drop_kept [OF assms(2)] win_fds.accept_kept [OF assms(2)]
  in \<open>simp_all add: pl_def\<close>)

theorem win_tcp_balanced_witness:
  "\<exists>k' cur' l. tcp_bind (win_platform sample_ws sample_afd) (Some (win_inner_new :: string win_inner))
       (V4 [127, 0, 0, 1] 80) ({9}, None) = Some (k', cur', Inr (Ok l)) \<and> tcp_fd l = 7 \<and> fst k' = {7, 9}"
proof -
  let ?pl = "win_platform sample_ws sample_afd :: (u64 set \<times> int option, string win_inner, u64, string) platform"
  obtain k' cur' res where b: "tcp_bind ?pl (Some win_inner_new) (V4 [127, 0, 0, 1] 80) ({9}, None) = Some (k', cur', res)"
    and r: "case res of Inr (Ok l) \<Rightarrow> tcp_fd l \<notin> fst ({9}, None :: int option) \<and>
        fst k' = insert (tcp_fd l) (fst ({9}, None :: int option)) | _ \<Rightarrow> fst k' = fst ({9}, None :: int option)"
    using conjunct1 [OF win_tcp_balanced [OF sample_win_laws]] by blast
  from b have "\<exists>l. res = Inr (Ok l) \<and> tcp_fd l = 7"
    by (auto simp: tcp_bind_def win_stream_socket_def ensure_wsa_started_def set_nonblocking_def lift_def win_bind_def win_listen_def
        register_owned_def win_register_socket_def base_socket_def try_base_socket_def win_register_def afd_submit_def
        slab_insert_def win_inner_new_def slab_new_def VEC_CAPACITY_def slab_get_def token_of_key_def
        sample_ws_def failing_winsock_def sample_afd_def case_prod_beta Let_def)
  with b r show ?thesis by auto
qed

text \<open>
  Claim C23. Each of a read, a write and an accept on Windows that would block is woken and tries again: its poll
  returns pending with its waker in the reactor, and a completion in the port whose box belongs to its socket and
  reports its direction takes the waker out, wakes it, and leaves the socket registered and due for re-submission.
  Whenever it is polled again it repeats the system call.
\<close>

theorem win_tcp_io_retry:
  fixes ws :: "'k winsock" and afd :: "'k afd_sys" and s :: "'w win_sys"
  defines "pl \<equiv> win_platform ws afd :: ('k \<times> int option, 'w win_inner, u64, 'w) platform"
  assumes "win_reachable s" and "resubmit s = None" and "e \<in> set (port s)" and "overlapped e = Some p"
    and "boxes (rx s) p = Some st" and "tcp_token t = of_nat (slab_key st) + 1" and "win_active (rx s) (tcp_token t) \<noteq> None"
  shows "(\<forall>k1 buf1 er. p_recv pl (tcp_fd t) buf k = (k1, buf1, Inr (Err er)) \<and> win_would_block ws er \<longrightarrow>
       (\<exists>r1 st1. read_poll pl (Some (rx s)) t Start buf w k = (k1, buf1, Some r1, st1, Inr Pending) \<and>
          (ph_events (pi_handle (info st)) AND READ_EVENTS \<noteq> 0 \<longrightarrow> (\<exists>r' ws. win_complete e r1 = Some (r', ws, [slab_key st]) \<and>
             w \<in> set ws \<and> win_active r' (tcp_token t) \<noteq> None)) \<and>
          (\<forall>cur buf w k. read_poll pl cur t st1 buf w k = read_round pl cur t buf w k))) \<and>
     (\<forall>k1 er. p_accept pl (tcp_fd t) k = (k1, Err er) \<and> win_would_block ws er \<longrightarrow>
       (\<exists>r1 st1. accept_poll pl (Some (rx s)) t Start w k = Some (k1, Some r1, st1, Inr Pending) \<and>
          (ph_events (pi_handle (info st)) AND READ_EVENTS \<noteq> 0 \<longrightarrow> (\<exists>r' ws. win_complete e r1 = Some (r', ws, [slab_key st]) \<and>
             w \<in> set ws \<and> win_active r' (tcp_token t) \<noteq> None)) \<and>
          (\<forall>cur w k. accept_poll pl cur t st1 w k = accept_round pl cur t w k))) \<and>
     (\<forall>k1 er. p_send pl (tcp_fd t) buf k = (k1, Inr (Err er)) \<and> win_would_block ws er \<longrightarrow>
       (\<exists>r1 st1. write_poll pl (Some (rx s)) t Start buf w k = (k1, Some r1, st1, Inr Pending) \<and>
          (ph_events (pi_handle (info st)) AND WRITE_EVENTS \<noteq> 0 \<longrightarrow> (\<exists>r' ws. win_complete e r1 = Some (r', ws, [slab_key st]) \<and>
             w \<in> set ws \<and> win_active r' (tcp_token t) \<noteq> None)) \<and>
          (\<forall>cur buf w k. write_poll pl cur t st1 buf w k = write_round pl cur t buf w k)))"
proof (intro conjI allI impI)
  let ?r = "\<lambda>d. win_set_waker (rx s) (tcp_token t) d w"
  have wk: "\<exists>r' ws. win_complete e (?r d) = Some (r', ws, [slab_key st]) \<and> w \<in> set ws \<and> win_active r' (tcp_token t) \<noteq> None"
    if "ph_events (pi_handle (info st)) AND direction_events d \<noteq> 0" for d
    using win_ready_wakes [OF assms(2-8) that, of w] by blast
  show "\<exists>r1 st1. read_poll pl (Some (rx s)) t Start buf w k = (k1, buf1, Some r1, st1, Inr Pending) \<and>
      (ph_events (pi_handle (info st)) AND READ_EVENTS \<noteq> 0 \<longrightarrow> (\<exists>r' ws. win_complete e r1 = Some (r', ws, [slab_key st]) \<and>
         w \<in> set ws \<and> win_active r' (tcp_token t) \<noteq> None)) \<and>
      (\<forall>cur buf w k. read_poll pl cur t st1 buf w k = read_round pl cur t buf w k)"
    if c: "p_recv pl (tcp_fd t) buf k = (k1, buf1, Inr (Err er)) \<and> win_would_block ws er" for k1 buf1 er
    by (rule win_io.blocked_read [where w = w, OF assms(8) conjunct1 [OF c, unfolded pl_def]])
      (use conjunct2 [OF c] wk [of Read] in \<open>auto simp: pl_def\<close>)
  show "\<exists>r1 st1. accept_poll pl (Some (rx s)) t Start w k = Some (k1, Some r1, st1, Inr Pending) \<and>
      (ph_events (pi_handle (info st)) AND READ_EVENTS \<noteq> 0 \<longrightarrow> (\<exists>r' ws. win_complete e r1 = Some (r', ws, [slab_key st]) \<and>
         w \<in> set ws \<and> win_active r' (tcp_token t) \<noteq> None)) \<and>
      (\<forall>cur w k. accept_poll pl cur t st1 w k = accept_round pl cur t w k)"
    if c: "p_accept pl (tcp_fd t) k = (k1, Err er) \<and> win_would_block ws er" for k1 er
    by (rule win_io.blocked_accept [where w = w, OF assms(8) conjunct1 [OF c, unfolded pl_def]])
      (use conjunct2 [OF c] wk [of Read] in \<open>auto simp: pl_def\<close>)
  show "\<exists>r1 st1. write_poll pl (Some (rx s)) t Start buf w k = (k1, Some r1, st1, Inr Pending) \<and>
      (ph_events (pi_handle (info st)) AND WRITE_EVENTS \<noteq> 0 \<longrightarrow> (\<exists>r' ws. win_complete e r1 = Some (r', ws, [slab_key st]) \<and>
         w \<in> set ws \<and> win_active r' (tcp_token t) \<noteq> None)) \<and>
      (\<forall>cur buf w k. write_poll pl cur t st1 buf w k = write_round pl cur t buf w k)"
    if c: "p_send pl (tcp_fd t) buf k = (k1, Inr (Err er)) \<and> win_would_block ws er" for k1 er
    by (rule win_io.blocked_write [where w = w, OF assms(8) conjunct1 [OF c, unfolded pl_def]])
      (use conjunct2 [OF c] wk [of Write] in \<open>auto simp: pl_def\<close>)
qed

theorem win_tcp_io_retry_witness:
  "\<exists>s rr st1 r' ws. sample_win s \<and>
     read_poll (win_platform sample_ws sample_afd) (Some (rx s)) \<lparr>tcp_fd = 7, tcp_token = 1\<rparr> Start [0] ''w'' ({7}, Some 0) =
       (({7}, Some 0), [0], Some rr, st1, Inr Pending) \<and>
     win_complete \<lparr>completion_key = AFD_COMPLETION_KEY, overlapped = Some 0\<rparr> rr = Some (r', ws, [0]) \<and> ''w'' \<in> set ws"
proof -
  let ?t = "\<lparr>tcp_fd = 7, tcp_token = 1\<rparr> :: u64 tcp" and ?k = "({7}, Some 0) :: u64 set \<times> int option"
  let ?pl = "win_platform sample_ws sample_afd :: (u64 set \<times> int option, string win_inner, u64, string) platform"
  obtain s st where s: "sample_win s" and st: "boxes (rx s) 0 = Some st" "slab_key st = 0" "ph_events (pi_handle (info st)) = 1"
    using sample_win_exists by blast
  then have r: "win_reachable s" "resubmit s = None"
    and e: "\<lparr>completion_key = AFD_COMPLETION_KEY, overlapped = Some 0\<rparr> \<in> set (port s)" (is "?e \<in> _")
    and a: "win_active (rx s) (tcp_token ?t) \<noteq> None"
    by (auto simp: sample_win_def win_active_def)
  have x: "overlapped ?e = Some 0" "tcp_token ?t = of_nat (slab_key st) + 1" using st by simp_all
  have c: "p_recv ?pl (tcp_fd ?t) [0] ?k = (?k, [0], Inr (Err (OsError 10035))) \<and> win_would_block sample_ws (OsError 10035)"
    by (simp add: lift_def win_recv_def win_would_block_def sample_ws_def failing_winsock_def)
  have "ph_events (pi_handle (info st)) AND READ_EVENTS \<noteq> 0"
    using st by (simp add: READ_EVENTS_def POLL_RECEIVE_def POLL_RECEIVE_EXPEDITED_def POLL_DISCONNECT_def
        POLL_ABORT_def POLL_ACCEPT_def POLL_CONNECT_FAIL_def)
  moreover obtain rr st1 where
    "read_poll ?pl (Some (rx s)) ?t Start [0] ''w'' ?k = (?k, [0], Some rr, st1, Inr Pending)"
    "ph_events (pi_handle (info st)) AND READ_EVENTS \<noteq> 0 \<longrightarrow> (\<exists>r' ws. win_complete ?e rr = Some (r', ws, [slab_key st]) \<and>
       ''w'' \<in> set ws \<and> win_active r' (tcp_token ?t) \<noteq> None)"
    using conjunct1 [OF win_tcp_io_retry [OF r e x(1) st(1) x(2) a, where ws = sample_ws and afd = sample_afd and w = "''w''"
      and buf = "[0]" and k = ?k], rule_format, OF c] by (elim exE conjE) (rule that)
  ultimately show ?thesis using s st(2) by auto
qed

text \<open>
  The raw pointers stay valid whatever TCP code does: each operation takes a reactor state that an interleaving with the
  kernel reaches to another one.
\<close>

lemma win_tcp_reactor:
  assumes "pred_option win_rx cur"
  shows "tcp_bind (win_platform ws afd) cur addr k = Some (k', cur', res) \<Longrightarrow> pred_option win_rx cur'"
    "connect_poll (win_platform ws afd) cur st w k = Some (k', cur', st', res2) \<Longrightarrow> pred_option win_rx cur'"
    "accept_poll (win_platform ws afd) cur t io w k = Some (k', cur', io', res3) \<Longrightarrow> pred_option win_rx cur'"
    "read_poll (win_platform ws afd) cur t io buf w k = (k', buf', cur', io', res4) \<Longrightarrow> pred_option win_rx cur'"
    "write_poll (win_platform ws afd) cur t io buf w k = (k', cur', io', res5) \<Longrightarrow> pred_option win_rx cur'"
    "tcp_drop (win_platform ws afd) cur t k = (k', cur') \<Longrightarrow> pred_option win_rx cur'"
  by (erule win_reactor.bind_inv [OF assms] win_reactor.connect_reactor_inv [OF assms] win_reactor.accept_inv [OF assms]
      win_reactor.read_inv [OF assms] win_reactor.write_inv [OF assms] win_reactor.drop_inv [OF assms])+

end
