(* ===== verification/WinWakes.thy ===== *)
theory WinWakes
  imports WinTcp
begin

text \<open>
  A whole \<open>poll\<close> of the Windows reactor: which wakers it hands out, and that it neither hands out one it did not
  hold nor keeps one it handed out. A completion whose box reports a direction of a live socket wakes the
  waker parked there, wherever it stands in the batch; the wakers of a socket that cannot be submitted again are
  handed out, too.
\<close>

unbundle bit_operations_syntax

section \<open>Ownership of wakers\<close>

definition win_slot_wakers :: "'w win_slot \<Rightarrow> 'w multiset" where
  "win_slot_wakers s = mset (opt_list (win_read s) @ opt_list (win_write s))"

abbreviation win_wakers :: "'w win_inner \<Rightarrow> 'w multiset" where
  "win_wakers r \<equiv> slab_sum win_slot_wakers (win_slots r)"

lemma win_fire_splits: "win_slot_wakers s = mset (snd (win_fire ev s)) + win_slot_wakers (fst (win_fire ev s))"
  by (cases "win_read s"; cases "win_write s") (simp_all add: win_slot_wakers_def win_fire_def Let_def)

lemma free_slot_wakers: "slab_get (win_slots r) key = Some s \<Longrightarrow> win_wakers (free_slot r key s) + win_slot_wakers s = win_wakers r"
  using slab_sum_remove [of "win_slots r" key s win_slot_wakers] by (simp add: free_slot_def)

lemma free_slot_less: "slab_get (win_slots r) key = Some s \<Longrightarrow> win_wakers (free_slot r key s) \<subseteq># win_wakers r"
  using free_slot_wakers [of r key s] by (metis mset_subset_eq_add_left)

lemma win_complete_conserves:
  assumes "win_complete e r = Some (r', ws, keys)"
  shows "mset ws + win_wakers r' \<subseteq># win_wakers r"
proof (cases "r' = r \<and> ws = []")
  case False
  then obtain p st s where o: "overlapped e = Some p" "boxes r p = Some st" "slab_get (win_slots r) (slab_key st) = Some s"
    using assms by (auto simp: win_complete_def Let_def split: option.splits)
  show ?thesis
  proof (cases "cancelled s")
    case True
    then have "r' = free_slot r (slab_key st) s" "ws = []" using assms o by (simp_all add: win_complete_def)
    then show ?thesis using free_slot_less [OF o(3)] by simp
  next
    case live: False
    then obtain ev where "r' = r\<lparr>win_slots := slab_put (win_slots r) (slab_key st) (fst (win_fire ev s))\<rparr>" "ws = snd (win_fire ev s)"
      using assms o False by (auto simp: win_complete_def case_prod_beta Let_def split: option.splits)
    moreover have "win_wakers r = mset (snd (win_fire ev s)) +
        slab_sum win_slot_wakers (slab_put (win_slots r) (slab_key st) (fst (win_fire ev s)))"
      using slab_sum_put [OF o(3), of win_slot_wakers "fst (win_fire ev s)"] win_fire_splits [of s ev] by (simp add: add.commute)
    ultimately show ?thesis by simp
  qed
qed simp

lemma win_dispatch_conserves:
  "win_dispatch es r to_wake acc = Some (r', ws, keys) \<Longrightarrow> mset ws + win_wakers r' \<subseteq># mset to_wake + win_wakers r"
proof (induction es arbitrary: r to_wake acc)
  case (Cons e es)
  then obtain r1 ws1 keys1 where c: "win_complete e r = Some (r1, ws1, keys1)"
    and "win_dispatch es r1 (to_wake @ ws1) (acc @ keys1) = Some (r', ws, keys)" by (auto split: option.splits)
  from Cons.IH [OF this(2)] have "mset ws + win_wakers r' \<subseteq># mset to_wake + (mset ws1 + win_wakers r1)" by (simp add: ac_simps)
  also have "\<dots> \<subseteq># mset to_wake + win_wakers r" using win_complete_conserves [OF c] by simp
  finally show ?case .
qed simp

lemma win_resubmit_one_conserves:
  assumes "win_resubmit_one dos status key r = Some (r', ws, qs)"
  shows "mset ws + win_wakers r' \<subseteq># win_wakers r"
proof (cases "slab_get (win_slots r) key")
  case (Some s)
  show ?thesis
  proof (cases "win_slots r' = win_slots r \<and> ws = []")
    case False
    have "\<exists>bs. r' = free_slot (r\<lparr>boxes := bs\<rparr>) key s \<and> (ws = [] \<or> mset ws = win_slot_wakers s)"
    proof (cases "cancelled s")
      case True
      then show ?thesis using assms Some by (intro exI [of _ "boxes r"]) (simp add: win_resubmit_one_def)
    next
      case live: False
      then show ?thesis using assms Some False
        by (auto simp: win_resubmit_one_def case_prod_beta Let_def win_slot_wakers_def opt_list_def
            split: option.splits result.splits)
    qed
    then obtain bs where r': "r' = free_slot (r\<lparr>boxes := bs\<rparr>) key s" "ws = [] \<or> mset ws = win_slot_wakers s" by blast
    have "win_wakers r' + win_slot_wakers s = win_wakers r"
      using free_slot_wakers [of "r\<lparr>boxes := bs\<rparr>" key s] Some r'(1) by simp
    with r'(2) show ?thesis by (metis add.commute empty_neutral(1) mset.simps(1) mset_subset_eq_add_right subset_mset.refl)
  qed simp
qed (use assms in \<open>simp add: win_resubmit_one_def\<close>)

lemma win_resubmit_conserves:
  "win_resubmit dos status keys r failed taken = Some (r', ws, qs) \<Longrightarrow> mset ws + win_wakers r' \<subseteq># mset failed + win_wakers r"
proof (induction keys arbitrary: r failed taken)
  case (Cons key keys)
  then obtain r1 ws1 qs1 where c: "win_resubmit_one dos status key r = Some (r1, ws1, qs1)"
    and "win_resubmit dos status keys r1 (failed @ ws1) (taken @ qs1) = Some (r', ws, qs)" by (auto split: option.splits)
  from Cons.IH [OF this(2)] have "mset ws + win_wakers r' \<subseteq># mset failed + (mset ws1 + win_wakers r1)" by (simp add: ac_simps)
  also have "\<dots> \<subseteq># mset failed + win_wakers r" using win_resubmit_one_conserves [OF c] by simp
  finally show ?case .
qed simp

section \<open>Every reported direction is woken\<close>

lemma winv_box_owned: "winv P q acc r \<Longrightarrow> (\<And>p. overlapped e = Some p \<Longrightarrow> p \<in> set q) \<Longrightarrow> box_owned r e"
  using locatedD(3) [of "own r" "backptr r" "next_box r" P q acc] by (auto simp: box_owned_def winv_def)

lemma win_complete_boxes:
  assumes "winv P (ptrs [e] @ q) acc r" and "win_complete e r = Some (r', ws, keys)" and "p \<in> set q"
  shows "boxes r' p = boxes r p"
proof (cases "overlapped e")
  case None
  then show ?thesis using assms(2) by (simp add: win_complete_def)
next
  case (Some p0)
  then have w: "winv P (p0 # q) acc r" using assms(1) by simp
  then have "p \<noteq> p0" using assms(3) locatedD(6) [of "own r" "backptr r" "next_box r" P "p0 # q" acc] by (auto simp: winv_def)
  obtain st s where o: "boxes r p0 = Some st" "slab_get (win_slots r) (slab_key st) = Some s" "windows s = Some p0"
    using winv_owner [OF w, of p0] by auto
  then show ?thesis
    using assms(2) Some \<open>p \<noteq> p0\<close>
    by (cases "cancelled s") (auto simp: win_complete_def free_slot_def case_prod_beta Let_def)
qed

lemma win_dispatch_prefix: "win_dispatch es r to_wake acc = Some (r', ws, keys) \<Longrightarrow> set to_wake \<subseteq> set ws"
proof (induction es arbitrary: r to_wake acc)
  case (Cons e es)
  then obtain r1 ws1 keys1 where "win_dispatch es r1 (to_wake @ ws1) (acc @ keys1) = Some (r', ws, keys)"
    by (auto split: option.splits)
  from Cons.IH [OF this] show ?case by simp
qed simp

lemma win_dispatch_wakes:
  assumes "winv P (ptrs es @ q) acc r" and "win_dispatch es r to_wake acc = Some (r', ws, keys)"
    and "e \<in> set es" and "win_ready r e t d" and "win_parked r t d = Some w"
  shows "w \<in> set ws"
  using assms
proof (induction es arbitrary: r to_wake acc)
  case (Cons e0 es)
  have w: "winv P (ptrs [e0] @ (ptrs es @ q)) acc r" using Cons.prems(1) by simp
  from win_complete_ok [OF this] obtain r1 ws1 keys1 where c: "win_complete e0 r = Some (r1, ws1, keys1)"
    and w1: "winv P (ptrs es @ q) (acc @ keys1) r1" by blast
  have rest: "win_dispatch es r1 (to_wake @ ws1) (acc @ keys1) = Some (r', ws, keys)" using Cons.prems(2) c by simp
  have "box_owned r e0" by (rule winv_box_owned [OF w]) (simp add: ptrs_def List.map_filter_simps)
  from win_wt.deliver [OF this] c have pk: "win_parked r1 t d = (if win_ready r e0 t d then None else win_parked r t d)"
    and ws1: "set ws1 = {w. \<exists>t d. win_ready r e0 t d \<and> win_parked r t d = Some w}"
    by (auto simp: win_deliver_def)
  show ?case
  proof (cases "win_ready r e0 t d")
    case True
    then have "w \<in> set ws1" using ws1 Cons.prems(5) by blast
    then show ?thesis using win_dispatch_prefix [OF rest] by auto
  next
    case False
    then have e: "e \<in> set es" using Cons.prems(3,4) by auto
    obtain p where p: "overlapped e = Some p" using Cons.prems(4) by (auto simp: win_ready_def)
    then have "boxes r1 p = boxes r p" using win_complete_boxes [OF w c, of p] ptrs_mem [OF e p] by simp
    then have "win_ready r1 e t d" using Cons.prems(4) p by (simp add: win_ready_def)
    then show ?thesis using Cons.IH [OF w1 rest e] pk False Cons.prems(5) by simp
  qed
qed simp

section \<open>The whole of poll\<close>

text \<open>
  The answers of the system to \<open>poll\<close>: what \<open>GetQueuedCompletionStatusEx\<close> takes from the port, and the status of each
  re-submission.
\<close>

record 'k port_sys =
  get_queued_completion_status :: "u32 \<Rightarrow> nat \<Rightarrow> 'k \<Rightarrow> 'k \<times> int \<times> int \<times> nat \<times> completion list"
  resubmit_status :: "'k \<Rightarrow> nat \<Rightarrow> int"
  port_dos_error :: "int \<Rightarrow> int"

definition win_poll_wait ::
  "'k port_sys \<Rightarrow> 'w win_inner \<Rightarrow> nat option \<Rightarrow> 'k \<Rightarrow> ('k \<times> 'w win_inner \<times> ('w list, io_error) result) option" where
  "win_poll_wait ps r timeout k =
     (let (k', _) = get_queued_completion_status ps (iocp_timeout_ms timeout) MAX_ENTRIES_PER_WAIT k;
          batch = iocp_wait MAX_ENTRIES_PER_WAIT timeout (\<lambda>ms cap. snd (get_queued_completion_status ps ms cap k))
      in case win_poll (port_dos_error ps) (resubmit_status ps k') batch r of
           None \<Rightarrow> None
         | Some (r', res) \<Rightarrow> Some (k', r', res))"

lemma win_poll_exact:
  assumes s: "win_reachable s" "resubmit s = None"
    and g: "get_queued_completion_status ps (iocp_timeout_ms timeout) MAX_ENTRIES_PER_WAIT k = (k1, rc, err, n, take n (port s))"
    and n: "rc \<noteq> 0" "n \<le> MAX_ENTRIES_PER_WAIT"
  obtains r' ws where "win_poll_wait ps (rx s) timeout k = Some (k1, r', Ok ws)" and "win_rx r'"
    and "mset ws + win_wakers r' \<subseteq># win_wakers (rx s)"
    and "\<And>e t d w. e \<in> set (take n (port s)) \<Longrightarrow> win_ready (rx s) e t d \<Longrightarrow> win_parked (rx s) t d = Some w \<Longrightarrow> w \<in> set ws"
proof -
  let ?es = "take n (port s)" and ?st = "resubmit_status ps k1" and ?dos = "port_dos_error ps"
  have b: "iocp_wait MAX_ENTRIES_PER_WAIT timeout (\<lambda>ms cap. snd (get_queued_completion_status ps ms cap k)) = Ok ?es"
    using g n by (simp add: iocp_wait_def)
  have poll: "win_poll_wait ps (rx s) timeout k = (case win_poll ?dos ?st (Ok ?es) (rx s) of None \<Rightarrow> None | Some (r', res) \<Rightarrow> Some (k1, r', res))"
    using g by (simp add: win_poll_wait_def b)
  show thesis
  proof (cases "?es = []")
    case True
    have "win_rx (rx s)" using s(1) by (auto simp: win_rx_def)
    then show thesis using that [of "rx s" "[]"] True poll by (simp add: win_poll_def)
  next
    case False
    have w: "winv (pending s) (ptrs ?es @ ptrs (drop n (port s))) [] (rx s)"
      using win_reachable_inv [OF s(1)] s(2) by (simp flip: ptrs_simps(3))
    from win_dispatch_ok [OF w, of "[]"] obtain r1 ws keys where d: "win_dispatch ?es (rx s) [] [] = Some (r1, ws, keys)"
      and w1: "winv (pending s) (ptrs (drop n (port s))) keys r1" by blast
    from win_resubmit_ok [of "pending s" "[]", simplified, OF w1, of ?dos ?st "[]"] obtain r2 failed qs
      where m: "win_resubmit ?dos ?st keys r1 [] [] = Some (r2, failed, qs)" by auto
    let ?s1 = "s\<lparr>rx := r1, port := drop n (port s), resubmit := Some keys\<rparr>"
    have "win_reachable ?s1" by (rule win_more [OF s(1) phase1 [OF s(2) d]])
    then have "win_rx r2" using win_rx_step [OF _ phase3, of ?s1] m by fastforce
    moreover have "win_poll_wait ps (rx s) timeout k = Some (k1, r2, Ok (ws @ failed))"
      using poll False d m by (simp add: win_poll_def)
    moreover have "mset (ws @ failed) + win_wakers r2 \<subseteq># win_wakers (rx s)"
    proof -
      have "mset (ws @ failed) + win_wakers r2 \<subseteq># mset ws + win_wakers r1"
        using win_resubmit_conserves [OF m] by (simp add: ac_simps)
      also have "\<dots> \<subseteq># win_wakers (rx s)" using win_dispatch_conserves [OF d] by simp
      finally show ?thesis .
    qed
    moreover have "w' \<in> set (ws @ failed)"
      if "e \<in> set ?es" "win_ready (rx s) e t d'" "win_parked (rx s) t d' = Some w'" for e t d' w'
      using win_dispatch_wakes [OF w d that] by simp
    ultimately show thesis using that by blast
  qed
qed

section \<open>A system for the concrete instance\<close>

text \<open>Socket 9 is registered for reading, a waker is parked on it, and the completion of its request is in the port.\<close>

definition sample_slots :: "'w option \<Rightarrow> 'w win_slot slab" where
  "sample_slots w = \<lparr>entries = [Occupied \<lparr>win_read = w, win_write = None, windows = Some 0, cancelled = False\<rparr>], next_free = SENTINEL\<rparr>"

definition sample_box :: slot_state where
  "sample_box = fst (afd_submit (\<lambda>e. e) STATUS_PENDING (win_slot_state 9 0 (win_interest_events interest_READ)))"

definition sample_parked_win :: "'w \<Rightarrow> 'w win_sys" where
  "sample_parked_win w = \<lparr>rx = \<lparr>win_slots = sample_slots (Some w), boxes = [0 \<mapsto> kernel_writes 1 sample_box], next_box = 1\<rparr>,
     pending = {}, port = [\<lparr>completion_key = AFD_COMPLETION_KEY, overlapped = Some 0\<rparr>], resubmit = None\<rparr>"

lemma sample_slots_get: "slab_get (sample_slots w) = [0 \<mapsto> \<lparr>win_read = w, win_write = None, windows = Some 0, cancelled = False\<rparr>]"
  by (auto simp: sample_slots_def slab_get_def)

lemma sample_parked_win_reachable: "win_reachable (sample_parked_win w)"
proof -
  let ?r = "\<lambda>w. \<lparr>win_slots = sample_slots w, boxes = [0 \<mapsto> sample_box], next_box = 1\<rparr>"
  have "win_register (\<lambda>e. e) STATUS_PENDING (Ok 9) interest_READ (rx win_sys_new) = Inr (?r None, Ok 1)"
    by (simp add: win_register_def win_sys_new_def win_inner_new_def slab_insert_def slab_new_def VEC_CAPACITY_def sample_slots_def
        sample_box_def afd_submit_def slab_get_def slab_put_def token_of_key_def win_slot_default_def Let_def)
  from win_more [OF win_start registered [OF this]]
  have "win_reachable \<lparr>rx = ?r None, pending = {0}, port = [], resubmit = None\<rparr>" by (simp add: win_sys_new_def win_inner_new_def)
  from win_more [OF this set_waker [of _ 1 Read w]]
  have "win_reachable \<lparr>rx = ?r (Some w), pending = {0}, port = [], resubmit = None\<rparr>"
    by (simp add: win_set_waker_def sample_slots_get slab_put_def) (simp add: sample_slots_def)
  from win_more [OF this finish [of 0 _ 1]] show ?thesis by (simp add: sample_parked_win_def)
qed

lemma sample_parked_simps:
  "resubmit (sample_parked_win w) = None" "port (sample_parked_win w) = [\<lparr>completion_key = AFD_COMPLETION_KEY, overlapped = Some 0\<rparr>]"
  "win_wakers (rx (sample_parked_win w)) = {#w#}" "win_parked (rx (sample_parked_win w)) 1 Read = Some w"
  "win_ready (rx (sample_parked_win w)) \<lparr>completion_key = AFD_COMPLETION_KEY, overlapped = Some 0\<rparr> 1 Read"
  by (simp_all add: sample_parked_win_def slab_sum_def sample_slots_get win_slot_wakers_def win_parked_def win_active_def win_ready_def
      kernel_writes_def sample_box_def afd_submit_def READ_EVENTS_def POLL_RECEIVE_def POLL_RECEIVE_EXPEDITED_def
      POLL_DISCONNECT_def POLL_ABORT_def POLL_ACCEPT_def POLL_CONNECT_FAIL_def)

definition sample_port :: "unit port_sys" where
  "sample_port = \<lparr>get_queued_completion_status = (\<lambda>_ _ k. (k, 1, 0, 1, [\<lparr>completion_key = AFD_COMPLETION_KEY, overlapped = Some 0\<rparr>])),
     resubmit_status = (\<lambda>_ _. STATUS_PENDING), port_dos_error = (\<lambda>e. e)\<rparr>"

end
