(* ===== verification/Spec2Isabelle.thy ===== *)
theory Spec2Isabelle
  imports Sleep BlockOn Program Reactor Parking Runtime LinuxTcp WinWakes
begin

text \<open>
  A verification development for nanorun, an asynchronous runtime in Rust.

  \<^bold>\<open>The program.\<close> A \<open>Runtime\<close> owns worker threads that take tasks from shared queues and poll them. A task
  is one heap cell with an atomic state word, a future and a reference count; wakers and join handles
  refer to it. A future that has to wait leaves its waker with the reactor, which waits for sockets
  (epoll on Linux, a completion port with AFD poll requests on Windows, a condition variable elsewhere),
  or with the timer driver, which keeps deadlines in a hierarchical timing wheel. An idle worker takes the
  driver token and blocks in the reactor until the next deadline; the others park their threads. All
  paths below are relative to \<^verbatim>\<open>src/src\<close>.

  \<^bold>\<open>Theories and what they model.\<close>
  \<^item> \<open>Prelude\<close>: panics, results and checked arithmetic shared by all.
  \<^item> \<open>Wheel\<close>: \<^verbatim>\<open>time/wheel.rs\<close>, the wheel of six levels of 64 slots with insertion, cascading, advancing and
    the next deadline.
  \<^item> \<open>Driver\<close>: \<^verbatim>\<open>time/driver.rs\<close>, registration, cancellation and firing of timers; instants are nanoseconds.
  \<^item> \<open>Sleep\<close>: \<^verbatim>\<open>time/mod.rs\<close>, the sleep and timeout futures over the driver of the thread.
  \<^item> \<open>Task\<close>: \<^verbatim>\<open>task/raw.rs\<close>, \<^verbatim>\<open>task/join.rs\<close>, \<^verbatim>\<open>task/yield_now.rs\<close> and \<^verbatim>\<open>waker/mod.rs\<close>, the task cell as a step
    relation with one atomic access per step.
  \<^item> \<open>Erased\<close>: the vtable, \<open>TaskRef\<close> and casts of \<^verbatim>\<open>task/raw.rs\<close>, the waker vtable, \<open>JoinHandle<T>\<close> and the \<open>Spawner\<close> of
    \<^verbatim>\<open>executor/multi.rs\<close>, over a heap of allocations whose addresses are reused.
  \<^item> \<open>World\<close>: all tasks, wakers, handles and queues as one step relation, and its invariant: seen from each
    allocation the program is a run of that task's system in \<open>Task\<close>.
  \<^item> \<open>Wakes\<close>: a wake, and a batch of wakes, run from the waker's vtable to the end of \<open>schedule_fn\<close>.
  \<^item> \<open>Program\<close>: what that invariant gives for the whole program, and the types of outputs.
  \<^item> \<open>Slab\<close>: \<^verbatim>\<open>reactor/slab.rs\<close>, the slot table with its embedded free list, and its interface as a locale.
  \<^item> \<open>Reactor\<close>: \<^verbatim>\<open>reactor/linux.rs\<close>, \<^verbatim>\<open>reactor/fallback.rs\<close>, the types of \<^verbatim>\<open>reactor/mod.rs\<close>, and the wrappers
    \<^verbatim>\<open>sys/linux/epoll.rs\<close> and \<^verbatim>\<open>sys/linux/eventfd.rs\<close>.
  \<^item> \<open>WinReactor\<close>: \<^verbatim>\<open>reactor/windows.rs\<close>, \<^verbatim>\<open>sys/windows/iocp.rs\<close>, \<^verbatim>\<open>sys/windows/afd.rs\<close>, with the boxes the kernel
    points to in an explicit heap.
  \<^item> \<open>Sockaddr\<close> and \<open>Socket\<close>: \<^verbatim>\<open>sys/linux/socket.rs\<close> and \<^verbatim>\<open>sys/windows/socket.rs\<close>, addresses as bytes and every
    socket call with its error paths.
  \<^item> \<open>Tcp\<close>: \<^verbatim>\<open>net/tcp.rs\<close>, listener and stream as resumable state machines over a record of the platform's socket and
    reactor operations, with the contracts a platform has to meet as locales; \<open>LinuxTcp\<close> and \<open>WinTcp\<close> are the two platforms.
  \<^item> \<open>WinWakes\<close>: a whole poll of the Windows reactor, and the wakers it hands out.
  \<^item> \<open>Executor\<close>: the queues of \<^verbatim>\<open>executor/multi.rs\<close> and \<^verbatim>\<open>executor/multi/worker.rs\<close>: scheduling, spawning, stealing and a
    worker's turn.
  \<^item> \<open>Parking\<close>: the idle path of \<^verbatim>\<open>executor/multi/worker.rs\<close> against scheduling, timers and shutdown, as a step relation.
  \<^item> \<open>Runtime\<close>: \<^verbatim>\<open>runtime/context.rs\<close>, \<^verbatim>\<open>runtime/mod.rs\<close>, \<^verbatim>\<open>executor/mod.rs\<close> and \<^verbatim>\<open>lib.rs\<close>: guards, entry points, nested
    use and dropping a runtime.
  \<^item> \<open>BlockOn\<close>: \<open>block_on_handle\<close> and \<open>ThreadWaker\<close> of \<^verbatim>\<open>runtime/mod.rs\<close>, blocking on a join handle, composed with the task's
    system in \<open>Task\<close>.
  \<^item> This theory: one round of the worker that drives the reactor and the timers, over the models of both, on Linux and on Windows.

  \<^bold>\<open>What is shown.\<close> Time: the wheel delivers exactly the due entries in order and never panics, a timer
  fires at most one tick late and never early, a sleep within the wheel's range is woken, a timeout decides as documented. Tasks: a
  task is polled by one worker at a time and queued at most once, no notification is lost, its output is
  delivered or dropped once, its strong count is the number of references to it, a waiting join handle is woken.
  The program as a whole: but for one window, no use of an erased task pointer reads freed memory, casts to the
  wrong type or panics, however addresses are reused; the window is the rest of \<open>Spawner::schedule\<close> after it has pushed the
  task, and a theorem shows that freed memory is read there. No allocation leaks, a join handle of type \<open>T\<close> only ever receives a \<open>T\<close>, a wake queues an idle
  task and a queued task is polled in its turn. Scheduling: a worker's turn
  loses no task, the executor refines a first-in first-out queue, no wakeup is lost between schedulers
  and the parked driver, the driver token is exclusive. I/O: events wake exactly the stored wakers,
  blocked reads, writes and accepts are woken and retried, descriptors are not leaked except that of a
  connection accepted on Linux from a peer with an address of another family, addresses round-trip, the Windows reactor never reads or lets the kernel write a freed box, wakes what its
  completions report and leaks no socket. Entry points: \<open>block_on\<close>
  returns, and one-worker runtimes shut down. Other theorems show where the code does less than it
  means to: a wake can read a freed task, a runtime with several workers can hang in its drop, a sleep beyond the wheel's range is
  lost, a future that unwinds leaves its task stuck, \<open>connect\<close> may succeed without a connection, nested use
  of a runtime panics late or aborts, a Windows token can be handed out twice. The last section composes
  reactor, timers, tasks and executor: a round of the driving worker wakes what became ready or due through
  the wakers' vtables, each idle task is queued once and polled in order; no waker is both woken and kept, and on Linux
  and for timers those that were not woken stay where they were.

  \<^bold>\<open>Interfaces.\<close> \<open>timer_queue\<close> is what the driver relies on of the wheel and is interpreted on it; \<open>slot_table\<close>
  is what the reactors rely on of the slab and is interpreted on it; \<open>fifo_queue\<close> is what scheduling promises and
  is interpreted on the executor's own operations; \<open>waker_table\<close> is what a waiting future relies on of a
  reactor and is interpreted on the Linux and on the Windows one. On top of these, \<open>tcp_waiting\<close>, \<open>tcp_platform\<close>,
  its extension \<open>tcp_accepting\<close> and \<open>tcp_reactor\<close> are what TCP code relies on of a platform, and its guarantees are proved
  there once; both platforms interpret all four.

  \<^bold>\<open>Conventions and bounds.\<close> Words keep their width and wrap; \<open>usize\<close> is a natural number where the code
  indexes with it, with the capacity limit of vectors written out. A panic is the left side of an
  \<open>outcome\<close>. Kernel calls, their constants and clock readings are arguments or fields of a record argument,
  and theorems that rely on their documented behaviour say so in named hypotheses. No definition uses
  fuel: every loop is structural or has a termination proof, and the base-socket loop, which depends on the
  kernel's answers, is a partial function that is shown to return. Atomics are sequentially consistent
  and mutex-protected sections are single steps.

  \<^bold>\<open>Not modelled.\<close> Weak memory orderings; byte layouts, so that a header at offset 0 of its allocation
  is the allocation's address; the contents of user futures, which are arbitrary; dropping a Windows
  reactor while poll requests are pending, which rests on what closing the AFD handle does to requests in the kernel; the
  foreign function declarations; forwarding methods, module roots, tests and benchmarks.
\<close>

section \<open>One round of the driving worker\<close>

text \<open>
  What the worker with the driver token does in \<open>idle\<close> of \<^verbatim>\<open>executor/multi/worker.rs\<close> once it has found the queues
  empty: it polls the reactor of the platform for at most the time to the next deadline and then advances the timers.
  The result lists the wakers woken, in order; it is \<open>None\<close> if the reactor reads freed memory.
\<close>

definition woken :: "'w effect list \<Rightarrow> 'w list" where
  "woken effs = List.map_filter (\<lambda>e. case e of WakeWaker w \<Rightarrow> Some w | WakeReactor \<Rightarrow> None) effs"

definition idle_round ::
  "('r \<Rightarrow> nat option \<Rightarrow> 'k \<Rightarrow> ('k \<times> 'r \<times> ('w list, io_error) result) outcome option) \<Rightarrow>
     'r \<Rightarrow> 'w driver \<Rightarrow> nat \<Rightarrow> nat \<Rightarrow> 'k \<Rightarrow> ('k \<times> 'r \<times> 'w driver \<times> 'w list) outcome option" where
  "idle_round reactor_poll r d now now' k =
     (case next_deadline d of
        Inl p \<Rightarrow> Some (Inl p)
      | Inr dl \<Rightarrow>
          let timeout = map_option (\<lambda>t. t - now) dl in
          (case reactor_poll r timeout k of
             None \<Rightarrow> None
           | Some (Inl p) \<Rightarrow> Some (Inl p)
           | Some (Inr (k', r', Err e)) \<Rightarrow> Some (Inl (ExpectFailed ''reactor poll''))
           | Some (Inr (k', r', Ok ws)) \<Rightarrow>
               Some (obind (driver_advance d now') (\<lambda>(d', effs, n). Inr (k', r', d', ws @ woken effs)))))"

definition linux_reactor_poll ::
  "'k linux_sys \<Rightarrow> 'w inner \<Rightarrow> nat option \<Rightarrow> 'k \<Rightarrow> ('k \<times> 'w inner \<times> ('w list, io_error) result) outcome option" where
  "linux_reactor_poll sys r timeout k = Some (inner_poll sys r timeout k)"

definition win_reactor_poll ::
  "'k port_sys \<Rightarrow> 'w win_inner \<Rightarrow> nat option \<Rightarrow> 'k \<Rightarrow> ('k \<times> 'w win_inner \<times> ('w list, io_error) result) outcome option" where
  "win_reactor_poll ps r timeout k = map_option Inr (win_poll_wait ps r timeout k)"

lemma woken_map [simp]: "woken (map WakeWaker ws) = ws"
  by (induction ws) (simp_all add: woken_def List.map_filter_simps)

lemma empty_driver:
  "pending_entries (driver_new 0) = []" "next_deadline (driver_new 0) = Inr None"
  "in_range (instant_to_tick_floor (epoch (driver_new 0)) 0)"
  using wheel_new_ok next_tick_ok [of wheel_new] in_range_floor [of 0]
  by (simp_all add: driver_new_def next_deadline_def TICK_NS_def)

lemma epoll_wait_events:
  "epoll_wait sys ep len t k = (k1, Ok (evs, n)) \<Longrightarrow> n = 0 \<Longrightarrow> evs = []"
  by (auto simp: epoll_wait_def Let_def case_prod_beta split: if_splits)

lemma subset_diff_mset: "A + B \<subseteq># C \<Longrightarrow> B \<subseteq># C - A"
  by (simp add: subseteq_mset_def add_le_imp_le_diff add.commute)

lemma inner_poll_exact:
  assumes "\<And>k. snd (eventfd_drain sys (waker_fd r) k) = Ok ()"
    and "epoll_wait sys (epfd r) MAX_EVENTS_PER_WAIT (poll_timeout_ms timeout) k = (k1, Ok (evs, n))"
    and "n \<le> MAX_EVENTS_PER_WAIT" and "distinct (map ev_token (filter io_event evs))"
  obtains k' r' where "inner_poll sys r timeout k = Inr (k', r', Ok (concat (map (fired_by sys (slots r)) evs)))"
    and "mset (concat (map (fired_by sys (slots r)) evs)) + slab_wakers (slots r') = slab_wakers (slots r)"
proof (cases "n = 0")
  case True
  then show thesis using that [of k1 r] assms(2) epoll_wait_events [OF assms(2)] by (simp add: inner_poll_def)
next
  case False
  let ?ws = "concat (map (fired_by sys (slots r)) evs)"
  from dispatch_slots [of sys "waker_fd r" evs "slots r" "[]" k1, OF assms(1)] assms(4)
  obtain k2 sl where d: "dispatch sys (waker_fd r) evs (slots r) [] k1 = (k2, sl, Ok ?ws)" by auto
  then have "inner_poll sys r timeout k = Inr (k2, r\<lparr>slots := sl\<rparr>, Ok ?ws)"
    using assms(2,3) False by (simp add: inner_poll_def)
  then show thesis by (rule that) (use dispatch_conserves [OF d] in simp)
qed

text \<open>What a poll that hands out \<open>ws\<close> makes of the round, whatever the platform.\<close>

lemma idle_round_woken:
  assumes "next_deadline d = Inr dl" and "reactor_poll r (map_option (\<lambda>t. t - now) dl) k = Some (Inr (k', r', Ok ws))"
    and "driver_inv d" and "in_range (instant_to_tick_floor (epoch d) now')"
  obtains d' ts where "idle_round reactor_poll r d now now' k = Some (Inr (k', r', d', ws @ ts))"
    and "mset ts = image_mset (\<lambda>e. the (driver.wakers d (entry_id e))) {#e \<in># mset (pending_entries d).
        deadline e \<le> instant_to_tick_floor (epoch d) now' \<and> driver.wakers d (entry_id e) \<noteq> None#}"
    and "mset ts + timer_wakers d' = timer_wakers d" and "driver_inv d'"
proof -
  let ?t = "instant_to_tick_floor (epoch d) now'"
  obtain d' ts where a: "driver_advance d now' = Inr (d', map WakeWaker ts, length ts)" and inv: "driver_inv d'"
    and pend: "mset (pending_entries d') = {#e \<in># mset (pending_entries d). ?t < deadline e#}"
    and ts: "mset ts = image_mset (\<lambda>e. the (driver.wakers d (entry_id e))) {#e \<in># mset (pending_entries d).
        deadline e \<le> ?t \<and> driver.wakers d (entry_id e) \<noteq> None#}"
    and wk: "driver.wakers d' = (\<lambda>i. if \<exists>e \<in> set (pending_entries d). entry_id e = i \<and> deadline e \<le> ?t
        then None else driver.wakers d i)"
    by (rule driver_advance_ok [OF assms(3,4)])
  have "mset ts + timer_wakers d' = timer_wakers d"
    unfolding ts by (rule driver_advance_conserves [OF assms(3) pend wk])
  moreover have "idle_round reactor_poll r d now now' k = Some (Inr (k', r', d', ws @ ts))"
    using assms(1,2) a by (simp add: idle_round_def)
  ultimately show thesis using that ts inv by blast
qed

text \<open>
  What waking a batch makes of the program, where \<open>others\<close> are the wakers that stay with the reactor and the timers.
\<close>

lemma wakes_polled:
  assumes "world_reachable out_ty fut m w" and "i < m" and "\<not> shutdown (executor w)" and "mset ws + others \<subseteq># world.wakers w"
  shows "\<exists>w' sh rs'. wake_all ws w = Inr w' \<and> world_reachable out_ty fut m w' \<and> others \<subseteq># world.wakers w' \<and>
     deq_n (exec_deq i) (length (injector (executor w'))) (executor w', rs) =
       (injector (executor w) @ filter (idle_task w) (firsts ws), sh, rs') \<and> injector sh = []"
proof -
  have "mset ws \<subseteq># world.wakers w" by (rule subset_mset.order_trans [OF _ assms(4)]) simp
  from wake_all_ok [OF assms(1) this assms(3)] obtain w' where w': "wake_all ws w = Inr w'"
    "world_reachable out_ty fut m w'" "world.wakers w' = world.wakers w - mset ws" "\<not> shutdown (executor w')"
    "injector (executor w') = injector (executor w) @ filter (idle_task w) (firsts ws)" .
  have "others \<subseteq># world.wakers w'" unfolding w'(3) by (rule subset_diff_mset [OF assms(4)])
  moreover have "exec_inv i (executor w', rs)"
    using world_invD [OF world_reachable_inv [OF w'(2)]] w'(4) assms(2) by (simp add: exec_inv_def)
  from exec_q.deq_all [OF this, of "length (injector (executor w'))"] obtain sh rs' where
    "deq_n (exec_deq i) (length (injector (executor w'))) (executor w', rs) = (injector (executor w'), sh, rs')"
    "injector sh = []" by auto
  then have "deq_n (exec_deq i) (length (injector (executor w'))) (executor w', rs) =
      (injector (executor w) @ filter (idle_task w) (firsts ws), sh, rs')" "injector sh = []"
    using w'(5) by simp_all
  ultimately show ?thesis using w'(1,2) by blast
qed

text \<open>
  Claim C3. Readiness and timers end in polled tasks. Let the reactor and the timer driver hold wakers of
  tasks of a running program. One round of the driving worker wakes exactly the wakers parked on the directions
  that the events make ready, in the order of the events, and then those of the timers that are due. Run through the
  wakers' vtables these wakes fault nowhere and queue each woken task that was idle exactly once, in the order
  of its first wake, and any worker that runs on polls the tasks that were queued before and then these,
  until the queue is empty. The wakers that were not woken, and no others, are what the reactor and the driver
  still hold, and the program still has them.
\<close>

theorem idle_round_runs_tasks:
  assumes "\<And>k. snd (eventfd_drain sys (waker_fd r) k) = Ok ()" and "next_deadline d = Inr dl"
    and "epoll_wait sys (epfd r) MAX_EVENTS_PER_WAIT (poll_timeout_ms (map_option (\<lambda>t. t - now) dl)) k = (k1, Ok (evs, n))"
    and "n \<le> MAX_EVENTS_PER_WAIT" and "distinct (map ev_token (filter io_event evs))"
    and "driver_inv d" and "in_range (instant_to_tick_floor (epoch d) now')"
    and "world_reachable out_ty fut m w" and "i < m" and "\<not> shutdown (executor w)"
    and "slab_wakers (slots r) + timer_wakers d \<subseteq># world.wakers w"
  shows "\<exists>k' r' d' ws ts w' sh rs'. idle_round (linux_reactor_poll sys) r d now now' k = Some (Inr (k', r', d', ws @ ts)) \<and>
     ws = concat (map (fired_by sys (slots r)) evs) \<and>
     mset ts = image_mset (\<lambda>e. the (driver.wakers d (entry_id e))) {#e \<in># mset (pending_entries d).
        deadline e \<le> instant_to_tick_floor (epoch d) now' \<and> driver.wakers d (entry_id e) \<noteq> None#} \<and>
     mset ws + slab_wakers (slots r') = slab_wakers (slots r) \<and> mset ts + timer_wakers d' = timer_wakers d \<and>
     wake_all (ws @ ts) w = Inr w' \<and> world_reachable out_ty fut m w' \<and> driver_inv d' \<and>
     slab_wakers (slots r') + timer_wakers d' \<subseteq># world.wakers w' \<and>
     deq_n (exec_deq i) (length (injector (executor w'))) (executor w', rs) =
       (injector (executor w) @ filter (idle_task w) (firsts (ws @ ts)), sh, rs') \<and> injector sh = []"
proof -
  let ?ws = "concat (map (fired_by sys (slots r)) evs)"
  obtain k' r' where p: "inner_poll sys r (map_option (\<lambda>t. t - now) dl) k = Inr (k', r', Ok ?ws)"
    and r: "mset ?ws + slab_wakers (slots r') = slab_wakers (slots r)"
    by (rule inner_poll_exact [OF assms(1,3-5)])
  obtain d' ts where round: "idle_round (linux_reactor_poll sys) r d now now' k = Some (Inr (k', r', d', ?ws @ ts))"
    and ts: "mset ts = image_mset (\<lambda>e. the (driver.wakers d (entry_id e))) {#e \<in># mset (pending_entries d).
        deadline e \<le> instant_to_tick_floor (epoch d) now' \<and> driver.wakers d (entry_id e) \<noteq> None#}"
    and d: "mset ts + timer_wakers d' = timer_wakers d" "driver_inv d'"
    by (rule idle_round_woken [OF assms(2) _ assms(6,7), of "linux_reactor_poll sys" r now k k' r' ?ws])
      (simp add: linux_reactor_poll_def p, rule that)
  have "mset (?ws @ ts) + (slab_wakers (slots r') + timer_wakers d') \<subseteq># world.wakers w"
    using assms(11) by (simp add: ac_simps flip: r d(1))
  from wakes_polled [OF assms(8-10) this, of rs] round ts r d show ?thesis by blast
qed

theorem idle_round_runs_tasks_witness:
  "\<exists>k' r' d' w' sh rs'.
     idle_round (linux_reactor_poll sample_sys) \<lparr>slots = \<lparr>entries = [Occupied \<lparr>slot_read = Some 5, slot_write = None\<rparr>],
       next_free = SENTINEL\<rparr>, epfd = 3, waker_fd = 4\<rparr> (driver_new 0) 0 0 () = Some (Inr (k', r', d', [5 :: addr])) \<and>
     wake_all [5] ((sample_world 8 (StagePending ()) 2 [] {#} JIdle)\<lparr>world.wakers := {#5#}\<rparr>) = Inr w' \<and>
     deq_n (exec_deq 0) (length (injector (executor w'))) (executor w', run_state_new 0) = ([5], sh, rs')"
proof -
  let ?r = "\<lparr>slots = \<lparr>entries = [Occupied \<lparr>slot_read = Some 5, slot_write = None\<rparr>],
       next_free = SENTINEL\<rparr>, epfd = 3, waker_fd = 4\<rparr> :: addr inner"
  let ?d = "driver_new 0 :: addr driver" and ?ev = "\<lparr>ev_token = 1, ev_ready = 1\<rparr> :: event"
  let ?w = "(sample_world 8 (StagePending ()) 2 [] {#} JIdle)\<lparr>world.wakers := {#5#}\<rparr>"
  have dr: "snd (eventfd_drain sample_sys (waker_fd ?r) k) = Ok ()" for k by (rule sample_drain)
  have e: "pending_entries ?d = []" and nd: "next_deadline ?d = Inr None" and ir: "in_range (instant_to_tick_floor (epoch ?d) 0)"
    by (simp_all add: empty_driver)
  have w: "epoll_wait sample_sys (epfd ?r) MAX_EVENTS_PER_WAIT (poll_timeout_ms (map_option (\<lambda>t. t - 0) None)) () = ((), Ok ([?ev], 1))"
    by (simp add: epoll_wait_def sample_sys_def MAX_EVENTS_PER_WAIT_def Let_def)
  have f: "concat (map (fired_by sample_sys (slots ?r)) [?ev]) = [5]"
    by (simp add: fired_by_def SELF_WAKE_TOKEN_def slab_get_def dir_ready_def sample_sys_def)
  have "slab_get (slots ?r) = [0 \<mapsto> \<lparr>slot_read = Some 5, slot_write = None\<rparr>]" by (auto simp: slab_get_def)
  then have own: "slab_wakers (slots ?r) + timer_wakers ?d \<subseteq># world.wakers ?w"
    by (simp add: slab_sum_def slot_wakers_def timer_wakers_def e)
  have q: "\<not> shutdown (executor ?w)" "injector (executor ?w) = []" "idle_task ?w 5"
    by (simp_all add: sample_world_def sample_shared_def idle_task_def state_bit_values)
  have "1 \<le> MAX_EVENTS_PER_WAIT" "distinct (map ev_token (filter io_event [?ev]))" by (simp_all add: MAX_EVENTS_PER_WAIT_def)
  from idle_round_runs_tasks [OF dr nd w this driver_new_inv ir sample_idle _ q(1) own, of 0 "run_state_new 0"]
  show ?thesis using q(2,3) unfolding f e by auto
qed

text \<open>
  Claim C11. On Windows, too, readiness and timers end in polled tasks. When the driving worker takes a batch of
  completions from the port, the round reads no freed memory, wakes the waker parked on every live socket whose
  completion reports that direction, and wakes none that the reactor did not hold and none that it goes on to
  hold; then it wakes those of the timers that are due and keeps the others. These wakes queue each idle task
  once, any worker polls them in order after those that were queued, the reactor's state is one that the kernel
  may go on with, and the program still has every waker that the reactor and the driver hold afterwards.
\<close>

theorem win_round_runs_tasks:
  assumes "win_reachable s" and "resubmit s = None" and "next_deadline d = Inr dl"
    and "get_queued_completion_status ps (iocp_timeout_ms (map_option (\<lambda>t. t - now) dl)) MAX_ENTRIES_PER_WAIT k =
      (k1, rc, err, n, take n (port s))" and "rc \<noteq> 0" and "n \<le> MAX_ENTRIES_PER_WAIT"
    and "driver_inv d" and "in_range (instant_to_tick_floor (epoch d) now')"
    and "world_reachable out_ty fut m w" and "i < m" and "\<not> shutdown (executor w)"
    and "win_wakers (rx s) + timer_wakers d \<subseteq># world.wakers w"
  shows "\<exists>r' d' ws ts w' sh rs'. idle_round (win_reactor_poll ps) (rx s) d now now' k = Some (Inr (k1, r', d', ws @ ts)) \<and>
     (\<forall>e t dir p. e \<in> set (take n (port s)) \<longrightarrow> win_ready (rx s) e t dir \<longrightarrow> win_parked (rx s) t dir = Some p \<longrightarrow> p \<in> set ws) \<and>
     mset ws + win_wakers r' \<subseteq># win_wakers (rx s) \<and> mset ts + timer_wakers d' = timer_wakers d \<and>
     mset ts = image_mset (\<lambda>e. the (driver.wakers d (entry_id e))) {#e \<in># mset (pending_entries d).
        deadline e \<le> instant_to_tick_floor (epoch d) now' \<and> driver.wakers d (entry_id e) \<noteq> None#} \<and>
     win_rx r' \<and> driver_inv d' \<and>
     wake_all (ws @ ts) w = Inr w' \<and> world_reachable out_ty fut m w' \<and> win_wakers r' + timer_wakers d' \<subseteq># world.wakers w' \<and>
     deq_n (exec_deq i) (length (injector (executor w'))) (executor w', rs) =
       (injector (executor w) @ filter (idle_task w) (firsts (ws @ ts)), sh, rs') \<and> injector sh = []"
proof -
  obtain r' ws where p: "win_poll_wait ps (rx s) (map_option (\<lambda>t. t - now) dl) k = Some (k1, r', Ok ws)" and rx: "win_rx r'"
    and r: "mset ws + win_wakers r' \<subseteq># win_wakers (rx s)"
    and wk: "\<And>e t d w. e \<in> set (take n (port s)) \<Longrightarrow> win_ready (rx s) e t d \<Longrightarrow> win_parked (rx s) t d = Some w \<Longrightarrow> w \<in> set ws"
    by (rule win_poll_exact [OF assms(1,2,4-6)]) (rule that)
  obtain d' ts where round: "idle_round (win_reactor_poll ps) (rx s) d now now' k = Some (Inr (k1, r', d', ws @ ts))"
    and ts: "mset ts = image_mset (\<lambda>e. the (driver.wakers d (entry_id e))) {#e \<in># mset (pending_entries d).
        deadline e \<le> instant_to_tick_floor (epoch d) now' \<and> driver.wakers d (entry_id e) \<noteq> None#}"
    and d: "mset ts + timer_wakers d' = timer_wakers d" "driver_inv d'"
    by (rule idle_round_woken [OF assms(3) _ assms(7,8), of "win_reactor_poll ps" "rx s" now k k1 r' ws])
      (simp add: win_reactor_poll_def p, rule that)
  have "mset (ws @ ts) + (win_wakers r' + timer_wakers d') = (mset ws + win_wakers r') + timer_wakers d"
    by (simp add: ac_simps flip: d(1))
  also have "\<dots> \<subseteq># world.wakers w" using subset_mset.order_trans [OF _ assms(12)] r by simp
  finally have own: "mset (ws @ ts) + (win_wakers r' + timer_wakers d') \<subseteq># world.wakers w" .
  from wakes_polled [OF assms(9-11) own, of rs] round ts d r rx wk show ?thesis by blast
qed

theorem win_round_runs_tasks_witness:
  "\<exists>r' d' ws w' sh rs'.
     idle_round (win_reactor_poll sample_port) (rx (sample_parked_win 5)) (driver_new 0) 0 0 () = Some (Inr ((), r', d', ws)) \<and>
     5 \<in> set ws \<and>
     wake_all ws ((sample_world 8 (StagePending ()) 2 [] {#} JIdle)\<lparr>world.wakers := {#5#}\<rparr>) = Inr w' \<and>
     deq_n (exec_deq 0) (length (injector (executor w'))) (executor w', run_state_new 0) = ([5], sh, rs')"
proof -
  let ?s = "sample_parked_win 5 :: addr win_sys" and ?d = "driver_new 0 :: addr driver"
  let ?w = "(sample_world 8 (StagePending ()) 2 [] {#} JIdle)\<lparr>world.wakers := {#5#}\<rparr>"
  let ?e = "\<lparr>completion_key = AFD_COMPLETION_KEY, overlapped = Some 0\<rparr> :: completion"
  have e: "pending_entries ?d = []" and nd: "next_deadline ?d = Inr None" and ir: "in_range (instant_to_tick_floor (epoch ?d) 0)"
    by (simp_all add: empty_driver)
  have g: "get_queued_completion_status sample_port (iocp_timeout_ms (map_option (\<lambda>t. t - 0) None)) MAX_ENTRIES_PER_WAIT () =
      ((), 1, 0, 1, take 1 (port ?s))" "(1 :: int) \<noteq> 0" "1 \<le> MAX_ENTRIES_PER_WAIT"
    by (simp_all add: sample_port_def sample_parked_simps(2) MAX_ENTRIES_PER_WAIT_def)
  have own: "win_wakers (rx ?s) + timer_wakers ?d \<subseteq># world.wakers ?w"
    by (simp add: sample_parked_simps(3) timer_wakers_def e)
  have q: "\<not> shutdown (executor ?w)" "injector (executor ?w) = []" "idle_task ?w 5"
    by (simp_all add: sample_world_def sample_shared_def idle_task_def state_bit_values)
  obtain r' d' ws ts w' sh rs' where
    1: "idle_round (win_reactor_poll sample_port) (rx ?s) ?d 0 0 () = Some (Inr ((), r', d', ws @ ts))"
    and 2: "\<forall>e t dir p. e \<in> set (take 1 (port ?s)) \<longrightarrow> win_ready (rx ?s) e t dir \<longrightarrow> win_parked (rx ?s) t dir = Some p \<longrightarrow> p \<in> set ws"
    and 3: "mset ws + win_wakers r' \<subseteq># win_wakers (rx ?s)" and 4: "mset ts = {#}" and 5: "wake_all (ws @ ts) ?w = Inr w'"
    and 6: "deq_n (exec_deq 0) (length (injector (executor w'))) (executor w', run_state_new 0) =
       (injector (executor ?w) @ filter (idle_task ?w) (firsts (ws @ ts)), sh, rs')"
    using win_round_runs_tasks [OF sample_parked_win_reachable sample_parked_simps(1) nd g driver_new_inv ir sample_idle _ q(1) own,
        of 0 "run_state_new 0"] e by auto
  have "5 \<in> set ws" using 2 sample_parked_simps(2,4,5) [of "5 :: addr"] by auto
  moreover have "mset ws \<subseteq># {#5#}"
    using subset_mset.order_trans [OF mset_subset_eq_add_left 3] by (simp add: sample_parked_simps(3))
  ultimately have "ws = [5]" by (cases ws) (auto simp: subset_mset.le_iff_add)
  then show ?thesis using 1 4 5 6 q(2,3) by auto
qed

end
